theory Spec2Isabelle
  imports Main
begin

section \<open>Failures\<close>

text \<open>
  The C++ code signals failures by exceptions: \<open>std::invalid_argument\<close> is thrown
  explicitly, \<open>std::out_of_range\<close> comes from \<open>.at()\<close> on a missing key or index.
  Reading \<open>front()\<close> of an empty vector or running an iterator past the end is
  undefined behaviour; the model reports it as a failure of its own kind, and so
  it does for a division by zero inside the big-integer library.
\<close>

datatype error = Invalid_argument | Out_of_range | Undefined_behaviour | Division_by_zero

section \<open>Z2 field element (Z2\_field.h)\<close>

record Z2_field_element =
  z2_element :: bool

text \<open>Default constructor: the element is \<open>false\<close>.\<close>

definition Z2_field_element_default :: Z2_field_element where
  "Z2_field_element_default = \<lparr>z2_element = False\<rparr>"

text \<open>
  Constructor from \<open>int\<close>: \<open>element_(element % 2)\<close>. The C++ remainder of an odd
  number is \<open>1\<close> or \<open>-1\<close>, both of which convert to \<open>true\<close>.
\<close>

definition Z2_field_element_of_int :: "int \<Rightarrow> Z2_field_element" where
  "Z2_field_element_of_int element = \<lparr>z2_element = (element mod 2 \<noteq> 0)\<rparr>"

definition Z2_plus_assign :: "Z2_field_element \<Rightarrow> Z2_field_element \<Rightarrow> Z2_field_element" where
  "Z2_plus_assign x f = x\<lparr>z2_element := (z2_element x \<noteq> z2_element f)\<rparr>"

definition Z2_minus_assign :: "Z2_field_element \<Rightarrow> Z2_field_element \<Rightarrow> Z2_field_element" where
  "Z2_minus_assign x f = x\<lparr>z2_element := (z2_element x \<noteq> z2_element f)\<rparr>"

definition Z2_times_assign :: "Z2_field_element \<Rightarrow> Z2_field_element \<Rightarrow> Z2_field_element" where
  "Z2_times_assign x f = x\<lparr>z2_element := (z2_element x \<and> z2_element f)\<rparr>"

text \<open>\<open>operator*\<close> copies its first argument and applies \<open>operator*=\<close>.\<close>

definition Z2_times :: "Z2_field_element \<Rightarrow> Z2_field_element \<Rightarrow> Z2_field_element" where
  "Z2_times f1 f2 = Z2_times_assign f1 f2"

text \<open>\<open>return element_ ? Z2_field_element() : Z2_field_element(1);\<close>\<close>

definition Z2_get_inverse :: "Z2_field_element \<Rightarrow> Z2_field_element" where
  "Z2_get_inverse x =
     (if z2_element x then Z2_field_element_default else Z2_field_element_of_int 1)"

definition Z2_get_additive_identity :: Z2_field_element where
  "Z2_get_additive_identity = Z2_field_element_default"

definition Z2_get_multiplicative_identity :: Z2_field_element where
  "Z2_get_multiplicative_identity = Z2_field_element_of_int 1"

definition Z2_get_characteristic :: int where
  "Z2_get_characteristic = 2"

definition Z2_get_value :: "Z2_field_element \<Rightarrow> nat" where
  "Z2_get_value x = (if z2_element x then 1 else 0)"

section \<open>Z2 columns\<close>

subsection \<open>Z2\_set\_column (z2\_set\_column.h)\<close>

text \<open>
  The column is a \<open>std::set\<close> of cells ordered by row index. It is modelled by the
  list of its row indices in iteration order, which for a \<open>std::set\<close> is strictly
  increasing. \<open>set_find\<close>, \<open>set_erase\<close> and \<open>set_insert\<close> are the container's
  \<open>find\<close>, \<open>erase(key)\<close> and \<open>insert\<close>.
\<close>

record Z2_set_column =
  zs_dim :: int
  zs_column :: "nat list"

definition set_find :: "nat \<Rightarrow> nat list \<Rightarrow> bool" where
  "set_find v c = (v \<in> set c)"

fun set_erase :: "nat \<Rightarrow> nat list \<Rightarrow> nat list" where
  "set_erase v [] = []"
| "set_erase v (a # c) = (if v = a then c else a # set_erase v c)"

fun set_insert :: "nat \<Rightarrow> nat list \<Rightarrow> nat list" where
  "set_insert v [] = [v]"
| "set_insert v (a # c) =
     (if v < a then v # a # c else if v = a then a # c else a # set_insert v c)"

text \<open>Constructor from a boundary: the range constructor of \<open>std::set\<close>.\<close>

definition Z2_set_column_of_boundary :: "nat list \<Rightarrow> Z2_set_column" where
  "Z2_set_column_of_boundary boundary =
     \<lparr>zs_dim = (if length boundary = 0 then 0 else int (length boundary) - 1),
      zs_column = fold set_insert boundary []\<rparr>"

text \<open>
  \<open>add\<close>: for every cell \<open>v\<close> of the source, erase \<open>v\<close> from the target when it is
  there and insert it otherwise. The source is a different object from the target.
  \<open>set_toggle\<close> is the body of that loop.
\<close>

definition set_toggle :: "nat \<Rightarrow> nat list \<Rightarrow> nat list" where
  "set_toggle v c = (if set_find v c then set_erase v c else set_insert v c)"

definition Z2_set_column_add :: "Z2_set_column \<Rightarrow> Z2_set_column \<Rightarrow> Z2_set_column" where
  "Z2_set_column_add this column =
     this\<lparr>zs_column := fold set_toggle (zs_column column) (zs_column this)\<rparr>"

subsection \<open>Intrusive\_list\_column, Z2 instance (intrusive\_list\_column.h)\<close>

text \<open>
  The compile-time options of the master matrix that the column code branches on.
\<close>

record column_options =
  isNonBasic :: bool
  is_of_boundary_type :: bool

definition is_chain_column :: "column_options \<Rightarrow> bool" where
  "is_chain_column opts = (isNonBasic opts \<and> \<not> is_of_boundary_type opts)"

text \<open>
  With \<open>is_z2\<close> a cell carries its row index only. \<open>il_pivot\<close> is the pivot kept by
  the chain column option (\<open>-1\<close> when there is none), \<open>il_dim\<close> the dimension kept
  by the dimension option.
\<close>

record 'c Intrusive_list_column =
  il_column :: "'c list"
  il_dim :: int
  il_pivot :: int

text \<open>
  \<open>_add\<close> with \<open>is_z2\<close>: one pass over target and source, both ordered by row
  index. A source row missing in the target is inserted before the current target
  cell, a row present in both is deleted from the target, and the rest of the
  source is appended. The result says whether the deleted rows include the pivot
  (chain columns only).
\<close>

fun add_z2_cells :: "column_options \<Rightarrow> int \<Rightarrow> nat list \<Rightarrow> nat list \<Rightarrow> nat list \<times> bool" where
  "add_z2_cells opts pv [] src = (src, False)"
| "add_z2_cells opts pv (t # tgt) [] = (t # tgt, False)"
| "add_z2_cells opts pv (t # tgt) (s # src) =
     (if t < s then
        (case add_z2_cells opts pv tgt (s # src) of (r, z) \<Rightarrow> (t # r, z))
      else if t > s then
        (case add_z2_cells opts pv (t # tgt) src of (r, z) \<Rightarrow> (s # r, z))
      else
        (case add_z2_cells opts pv tgt src of
           (r, z) \<Rightarrow> (r, (is_chain_column opts \<and> int t = pv) \<or> z)))"

definition il_add_z2 ::
  "column_options \<Rightarrow> nat Intrusive_list_column \<Rightarrow> nat list \<Rightarrow> nat Intrusive_list_column \<times> bool"
where
  "il_add_z2 opts this column =
     (case add_z2_cells opts (il_pivot this) (il_column this) column of
        (r, z) \<Rightarrow> (this\<lparr>il_column := r\<rparr>, z))"

text \<open>
  \<open>operator+=(Intrusive_list_column&)\<close> with \<open>is_z2\<close>: a chain column swaps pivot
  and dimension with the source when the addition removed its pivot row. Both
  columns are returned, target first.
\<close>

definition il_plus_assign_z2 ::
  "column_options \<Rightarrow> nat Intrusive_list_column \<Rightarrow> nat Intrusive_list_column \<Rightarrow>
   nat Intrusive_list_column \<times> nat Intrusive_list_column"
where
  "il_plus_assign_z2 opts this column =
     (case il_add_z2 opts this (il_column column) of
        (this', zeroed) \<Rightarrow>
          if is_chain_column opts \<and> zeroed then
            (this'\<lparr>il_pivot := il_pivot column, il_dim := il_dim column\<rparr>,
             column\<lparr>il_pivot := il_pivot this', il_dim := il_dim this'\<rparr>)
          else (this', column))"

subsection \<open>Intrusive\_list\_column: scaling (intrusive\_list\_column.h)\<close>

text \<open>
  With \<open>is_z2\<close> the scalar of \<open>operator*=\<close> is tested with \<open>val % 2 == 0\<close> and that
  of \<open>multiply_and_add\<close> with \<open>if (val)\<close>; it is modelled as a natural number.
  A chain column throws \<open>std::invalid_argument\<close>, any other column is cleared.
\<close>

definition il_clear :: "'c Intrusive_list_column \<Rightarrow> 'c Intrusive_list_column" where
  "il_clear this = this\<lparr>il_column := []\<rparr>"

definition il_times_assign_z2 ::
  "column_options \<Rightarrow> nat Intrusive_list_column \<Rightarrow> nat \<Rightarrow> error + nat Intrusive_list_column"
where
  "il_times_assign_z2 opts this val =
     (if val mod 2 = 0 then
        (if is_chain_column opts then Inl Invalid_argument else Inr (il_clear this))
      else Inr this)"

text \<open>
  \<open>multiply_and_add(val, Intrusive_list_column& column)\<close> with \<open>is_z2\<close>:
  \<open>this = val * this + column\<close>. The result holds target and source.
\<close>

definition il_multiply_target_and_add_z2 ::
  "column_options \<Rightarrow> nat \<Rightarrow> nat Intrusive_list_column \<Rightarrow> nat Intrusive_list_column \<Rightarrow>
   error + (nat Intrusive_list_column \<times> nat Intrusive_list_column)"
where
  "il_multiply_target_and_add_z2 opts val this column =
     (if is_chain_column opts then
        (if val \<noteq> 0 then Inr (il_plus_assign_z2 opts this column)
         else Inl Invalid_argument)
      else
        (if val \<noteq> 0 then Inr (fst (il_add_z2 opts this (il_column column)), column)
         else Inr (fst (il_add_z2 opts (il_clear this) (il_column column)), column)))"

text \<open>
  Without \<open>is_z2\<close> a cell is a pair of a row index and a field element, and the
  arithmetic goes through the \<open>Field_operators\<close> object of the master matrix. That
  class is not part of the sources at hand; its operations are parameters of the
  model.
\<close>

record 'f field_operators =
  fo_get_value :: "'f \<Rightarrow> 'f"
  fo_add :: "'f \<Rightarrow> 'f \<Rightarrow> 'f"
  fo_multiply :: "'f \<Rightarrow> 'f \<Rightarrow> 'f"
  fo_multiply_and_add :: "'f \<Rightarrow> 'f \<Rightarrow> 'f \<Rightarrow> 'f"
  fo_additive_identity :: "'f"
  fo_multiplicative_identity :: "'f"

text \<open>
  Modelled from the spec: the operators of a prime field, "standard modular
  arithmetic mod a prime p", with \<open>get_value\<close> reducing a raw value modulo \<open>p\<close>.
  Used to instantiate the parameter above.
\<close>

definition Zp_field_operators :: "nat \<Rightarrow> nat field_operators" where
  "Zp_field_operators p =
     \<lparr>fo_get_value = (\<lambda>v. v mod p),
      fo_add = (\<lambda>a b. (a + b) mod p),
      fo_multiply = (\<lambda>a b. (a * b) mod p),
      fo_multiply_and_add = (\<lambda>e m a. (e * m + a) mod p),
      fo_additive_identity = 0,
      fo_multiplicative_identity = 1 mod p\<rparr>"

definition il_times_assign ::
  "'f field_operators \<Rightarrow> column_options \<Rightarrow> (nat \<times> 'f) Intrusive_list_column \<Rightarrow> 'f \<Rightarrow>
   error + (nat \<times> 'f) Intrusive_list_column"
where
  "il_times_assign ops opts this val =
     (let realVal = fo_get_value ops val in
      if realVal = fo_additive_identity ops then
        (if is_chain_column opts then Inl Invalid_argument else Inr (il_clear this))
      else if realVal = fo_multiplicative_identity ops then Inr this
      else Inr (this\<lparr>il_column :=
                  map (\<lambda>(r, e). (r, fo_multiply ops e realVal)) (il_column this)\<rparr>))"

text \<open>
  The loops of \<open>_multiply_and_add(val, column)\<close>: target cells are scaled by \<open>val\<close>,
  source cells are inserted as they are, and a row present in both gets
  \<open>multiply_and_add(target, val, source)\<close> and is deleted when that is the additive
  identity.
\<close>

fun multiply_target_and_add_cells ::
  "'f field_operators \<Rightarrow> column_options \<Rightarrow> int \<Rightarrow> 'f \<Rightarrow> (nat \<times> 'f) list \<Rightarrow> (nat \<times> 'f) list \<Rightarrow>
   (nat \<times> 'f) list \<times> bool"
where
  "multiply_target_and_add_cells ops opts pv val [] src = (src, False)"
| "multiply_target_and_add_cells ops opts pv val (t # tgt) [] =
     (map (\<lambda>(r, e). (r, fo_multiply ops e val)) (t # tgt), False)"
| "multiply_target_and_add_cells ops opts pv val (t # tgt) (s # src) =
     (if fst t < fst s then
        (case multiply_target_and_add_cells ops opts pv val tgt (s # src) of
           (r, z) \<Rightarrow> ((fst t, fo_multiply ops (snd t) val) # r, z))
      else if fst t > fst s then
        (case multiply_target_and_add_cells ops opts pv val (t # tgt) src of
           (r, z) \<Rightarrow> (s # r, z))
      else
        (let e = fo_multiply_and_add ops (snd t) val (snd s) in
         case multiply_target_and_add_cells ops opts pv val tgt src of
           (r, z) \<Rightarrow>
             if e = fo_additive_identity ops
             then (r, (is_chain_column opts \<and> int (fst t) = pv) \<or> z)
             else ((fst t, e) # r, z)))"

text \<open>
  \<open>_multiply_and_add(val, column)\<close>: the test \<open>val == 0u\<close> comes first; a chain
  column throws, any other column is cleared and the loops run on the empty target.
\<close>

definition il_multiply_target_and_add_cells ::
  "'f::zero field_operators \<Rightarrow> column_options \<Rightarrow> 'f \<Rightarrow> (nat \<times> 'f) Intrusive_list_column \<Rightarrow>
   (nat \<times> 'f) list \<Rightarrow> error + ((nat \<times> 'f) Intrusive_list_column \<times> bool)"
where
  "il_multiply_target_and_add_cells ops opts val this column =
     (if val = 0 \<and> is_chain_column opts then Inl Invalid_argument
      else
        (let this1 = (if val = 0 then il_clear this else this) in
         case multiply_target_and_add_cells ops opts (il_pivot this1) val (il_column this1) column of
           (r, z) \<Rightarrow> Inr (this1\<lparr>il_column := r\<rparr>, z)))"

text \<open>
  \<open>multiply_and_add(val, Intrusive_list_column& column)\<close> without \<open>is_z2\<close>; a chain
  column swaps pivot and dimension with the source when its pivot row was removed.
\<close>

definition il_multiply_target_and_add ::
  "'f::zero field_operators \<Rightarrow> column_options \<Rightarrow> 'f \<Rightarrow> (nat \<times> 'f) Intrusive_list_column \<Rightarrow>
   (nat \<times> 'f) Intrusive_list_column \<Rightarrow>
   error + ((nat \<times> 'f) Intrusive_list_column \<times> (nat \<times> 'f) Intrusive_list_column)"
where
  "il_multiply_target_and_add ops opts val this column =
     (case il_multiply_target_and_add_cells ops opts val this (il_column column) of
        Inl e \<Rightarrow> Inl e
      | Inr (this', zeroed) \<Rightarrow>
          if is_chain_column opts \<and> zeroed then
            Inr (this'\<lparr>il_pivot := il_pivot column, il_dim := il_dim column\<rparr>,
                 column\<lparr>il_pivot := il_pivot this', il_dim := il_dim this'\<rparr>)
          else Inr (this', column))"

section \<open>Index overlay (overlay\_ididx\_to\_matidx.h)\<close>

text \<open>
  \<open>Id_to_index_overlay\<close> wraps a matrix of type \<open>Matrix_type\<close>, which is a template
  parameter: the model takes the wrapped matrix as a type variable and its
  \<open>remove_last\<close> as a function. The dictionary \<open>idToIndex_\<close> is an
  \<open>unordered_map\<close> when \<open>has_map_column_container\<close> holds (modelled by its entries
  in iteration order) and a vector with the entry \<open>-1\<close> for an unused identifier
  otherwise (modelled with \<open>None\<close> for \<open>-1\<close>). For a matrix that is not of boundary
  type \<open>idToIndex_\<close> points to the \<open>pivotToColumnIndex_\<close> member of the wrapped
  matrix, which the model reads through a function of the matrix.
\<close>

record overlay_options =
  ov_is_of_boundary_type :: bool
  has_map_column_container :: bool

datatype dictionary =
  Map_dictionary "(nat \<times> nat) list"
| Vector_dictionary "nat option list"

fun dictionary_empty :: "dictionary \<Rightarrow> bool" where
  "dictionary_empty (Map_dictionary m) = (m = [])"
| "dictionary_empty (Vector_dictionary v) = (v = [])"

record 'm Id_to_index_overlay =
  ov_matrix :: 'm
  ov_idToIndex :: dictionary
  ov_nextIndex :: nat

definition the_idToIndex ::
  "overlay_options \<Rightarrow> ('m \<Rightarrow> dictionary) \<Rightarrow> 'm Id_to_index_overlay \<Rightarrow> dictionary"
where
  "the_idToIndex opts pivotToColumnIndex_of ov =
     (if ov_is_of_boundary_type opts then ov_idToIndex ov
      else pivotToColumnIndex_of (ov_matrix ov))"

text \<open>
  \<open>while (it->second != nextIndex_) ++it; erase(it)\<close>: the first entry with the
  value is erased; running off the end is undefined behaviour.
\<close>

fun erase_first_with_value :: "nat \<Rightarrow> (nat \<times> nat) list \<Rightarrow> error + (nat \<times> nat) list" where
  "erase_first_with_value n [] = Inl Undefined_behaviour"
| "erase_first_with_value n (p # m) =
     (if snd p = n then Inr m
      else (case erase_first_with_value n m of Inl e \<Rightarrow> Inl e | Inr m' \<Rightarrow> Inr (p # m')))"

text \<open>
  \<open>id = size - 1; while (v[id] == -1) --id; v[id] = -1\<close>, with the argument \<open>id + 1\<close>:
  the last used entry is reset; running below index 0 is undefined behaviour.
\<close>

fun reset_last_used :: "nat \<Rightarrow> nat option list \<Rightarrow> error + nat option list" where
  "reset_last_used 0 v = Inl Undefined_behaviour"
| "reset_last_used (Suc k) v =
     (if v ! k = None then reset_last_used k v else Inr (v[k := None]))"

text \<open>\<open>index\<close> is a 32-bit unsigned integer: \<open>--nextIndex_\<close> wraps at zero.\<close>

definition index_decrement :: "nat \<Rightarrow> nat" where
  "index_decrement n = (if n = 0 then 2 ^ 32 - 1 else n - 1)"

text \<open>
  \<open>_initialize_map(size)\<close> for a matrix of boundary type: an \<open>unordered_map\<close>
  created with \<open>size\<close> buckets has no entry, a vector is created with \<open>size\<close>
  entries \<open>-1\<close>. The constructor \<open>Id_to_index_overlay(numberOfColumns, colSettings)\<close>
  builds the wrapped matrix with \<open>numberOfColumns\<close> reserved (it has no column
  yet; the model is given that matrix), initialises the dictionary with that size and
  sets \<open>nextIndex_\<close> to 0.
\<close>

definition initialize_map :: "overlay_options \<Rightarrow> nat \<Rightarrow> dictionary" where
  "initialize_map opts n =
     (if has_map_column_container opts then Map_dictionary []
      else Vector_dictionary (replicate n None))"

definition Id_to_index_overlay_of_size ::
  "overlay_options \<Rightarrow> 'm \<Rightarrow> nat \<Rightarrow> 'm Id_to_index_overlay"
where
  "Id_to_index_overlay_of_size opts reserved_matrix numberOfColumns =
     \<lparr>ov_matrix = reserved_matrix,
      ov_idToIndex = initialize_map opts numberOfColumns,
      ov_nextIndex = 0\<rparr>"

text \<open>
  \<open>insert_boundary(boundary, dim)\<close> of the overlay: the wrapped matrix inserts the
  boundary (a function of the model), then, for a matrix of boundary type, the
  identifier \<open>nextIndex_\<close> is mapped to the index \<open>nextIndex_\<close>: by \<open>emplace\<close>
  in a map, by \<open>push_back\<close> in a vector of size \<open>nextIndex_\<close>, and by
  \<open>operator[]\<close> in any other vector, which is undefined behaviour beyond its size.
\<close>

definition ov_insert_boundary ::
  "overlay_options \<Rightarrow> ('m \<Rightarrow> error + 'm) \<Rightarrow> 'm Id_to_index_overlay \<Rightarrow>
   error + 'm Id_to_index_overlay"
where
  "ov_insert_boundary opts matrix_insert_boundary ov =
     (case matrix_insert_boundary (ov_matrix ov) of
        Inl e \<Rightarrow> Inl e
      | Inr m' \<Rightarrow>
          if ov_is_of_boundary_type opts then
            (let n = ov_nextIndex ov in
             case ov_idToIndex ov of
               Map_dictionary d \<Rightarrow>
                 Inr \<lparr>ov_matrix = m',
                      ov_idToIndex =
                        Map_dictionary (if n \<in> fst ` set d then d else d @ [(n, n)]),
                      ov_nextIndex = Suc n\<rparr>
             | Vector_dictionary v \<Rightarrow>
                 if length v = n then
                   Inr \<lparr>ov_matrix = m', ov_idToIndex = Vector_dictionary (v @ [Some n]),
                        ov_nextIndex = Suc n\<rparr>
                 else if n < length v then
                   Inr \<lparr>ov_matrix = m', ov_idToIndex = Vector_dictionary (v[n := Some n]),
                        ov_nextIndex = Suc n\<rparr>
                 else Inl Undefined_behaviour)
          else Inr (ov\<lparr>ov_matrix := m'\<rparr>))"

definition ov_remove_last ::
  "overlay_options \<Rightarrow> ('m \<Rightarrow> dictionary) \<Rightarrow> ('m \<Rightarrow> error + 'm) \<Rightarrow>
   'm Id_to_index_overlay \<Rightarrow> error + 'm Id_to_index_overlay"
where
  "ov_remove_last opts pivotToColumnIndex_of matrix_remove_last ov =
     (if dictionary_empty (the_idToIndex opts pivotToColumnIndex_of ov) then Inr ov
      else
        (case matrix_remove_last (ov_matrix ov) of
           Inl e \<Rightarrow> Inl e
         | Inr m' \<Rightarrow>
             if ov_is_of_boundary_type opts then
               (let n' = index_decrement (ov_nextIndex ov) in
                case ov_idToIndex ov of
                  Map_dictionary d \<Rightarrow>
                    (case erase_first_with_value n' d of
                       Inl e \<Rightarrow> Inl e
                     | Inr d' \<Rightarrow>
                         Inr \<lparr>ov_matrix = m', ov_idToIndex = Map_dictionary d',
                              ov_nextIndex = n'\<rparr>)
                | Vector_dictionary v \<Rightarrow>
                    (case reset_last_used (length v) v of
                       Inl e \<Rightarrow> Inl e
                     | Inr v' \<Rightarrow>
                         Inr \<lparr>ov_matrix = m', ov_idToIndex = Vector_dictionary v',
                              ov_nextIndex = n'\<rparr>))
             else Inr (ov\<lparr>ov_matrix := m'\<rparr>)))"

section \<open>Shared multi-field element (Multi\_field\_shared.h)\<close>

subsection \<open>The big-integer library\<close>

text \<open>
  The element type is \<open>mpz_class\<close>, an unbounded integer, modelled by \<open>int\<close>. The
  functions of the GMP library follow its manual. \<open>mpz_mod\<close> gives the
  non-negative remainder and divides by zero when the modulus is zero.
\<close>

definition mpz_mod :: "int \<Rightarrow> int \<Rightarrow> error + int" where
  "mpz_mod n d = (if d = 0 then Inl Division_by_zero else Inr (n mod \<bar>d\<bar>))"

definition mpz_gcd :: "int \<Rightarrow> int \<Rightarrow> int" where
  "mpz_gcd a b = gcd a b"

definition mpz_powm_ui :: "int \<Rightarrow> nat \<Rightarrow> int \<Rightarrow> error + int" where
  "mpz_powm_ui base e m = mpz_mod (base ^ e) m"

text \<open>
  \<open>mpz_invert(rop, op1, op2)\<close>: when an inverse of \<open>op1\<close> modulo \<open>op2\<close> exists,
  \<open>rop\<close> is the inverse with \<open>0 \<le> rop < |op2|\<close> (it is \<open>0\<close> in the zero ring,
  \<open>|op2| = 1\<close>). Otherwise \<open>rop\<close> is undefined, and so is the call when \<open>op2\<close> is
  zero; the code above it does not look at the return value.
\<close>

definition mpz_invert :: "int \<Rightarrow> int \<Rightarrow> error + int" where
  "mpz_invert x m =
     (if m = 0 then Inl Undefined_behaviour
      else
        (case find (\<lambda>y. (x * y) mod \<bar>m\<bar> = 1 mod \<bar>m\<bar>) (map int [0..<nat \<bar>m\<bar>]) of
           None \<Rightarrow> Inl Undefined_behaviour
         | Some y \<Rightarrow> Inr y))"

text \<open>
  \<open>mpz_probab_prime_p\<close> and \<open>mpz_nextprime\<close> are taken to be exact: \<open>gmp_prime\<close>
  is primality by trial division.
\<close>

definition gmp_prime :: "nat \<Rightarrow> bool" where
  "gmp_prime n = (2 \<le> n \<and> list_all (\<lambda>d. n mod d \<noteq> 0) [2..<n])"

subsection \<open>Static state and initialisation\<close>

text \<open>
  The static members \<open>primes_\<close>, \<open>productOfAllCharacteristics_\<close> and \<open>partials_\<close>
  are shared by all elements; the model passes them around as a record. Before
  \<open>initialize\<close> the product is \<open>0\<close> and both vectors are empty.
\<close>

record multi_field =
  primes :: "nat list"
  productOfAllCharacteristics :: int
  partials :: "int list"

definition multiplicativeID :: int where
  "multiplicativeID = 1"

definition uninitialized :: multi_field where
  "uninitialized = \<lparr>primes = [], productOfAllCharacteristics = 0, partials = []\<rparr>"

text \<open>\<open>_is_prime(const int p)\<close> with its loop \<open>for (i = 5; i * i <= p; i += 6)\<close>.\<close>

function is_prime_loop :: "nat \<Rightarrow> nat \<Rightarrow> bool" where
  "is_prime_loop p i =
     (if i * i \<le> p then
        (if p mod i = 0 \<or> p mod (i + 2) = 0 then False else is_prime_loop p (i + 6))
      else True)"
  by pat_completeness auto
termination
proof (relation "measure (\<lambda>(p, i). Suc p - i)")
  show "wf (measure (\<lambda>(p, i). Suc p - i))" by simp
next
  fix p i :: nat
  assume "i * i \<le> p"
  moreover have "i \<le> i * i" by (cases i) simp_all
  ultimately have "i \<le> p" by linarith
  then show "((p, i + 6), (p, i)) \<in> measure (\<lambda>(p, i). Suc p - i)" by simp
qed

definition is_prime :: "int \<Rightarrow> bool" where
  "is_prime p =
     (if p \<le> 1 then False
      else if p \<le> 3 then True
      else if p mod 2 = 0 \<or> p mod 3 = 0 then False
      else is_prime_loop (nat p) 5)"

text \<open>The conversion of an \<open>unsigned int\<close> argument to the \<open>int\<close> parameter.\<close>

definition unsigned_to_int :: "nat \<Rightarrow> int" where
  "unsigned_to_int n = (if n < 2 ^ 31 then int n else int n - 2 ^ 32)"

text \<open>
  \<open>initialize(minimum, maximum)\<close>. The loop with \<open>mpz_nextprime\<close> collects the
  primes of the interval in increasing order; the product and the partial
  products \<open>(product / p) ^ (p - 1) mod product\<close> follow.
\<close>

fun initialize_partials :: "int \<Rightarrow> nat list \<Rightarrow> error + int list" where
  "initialize_partials M [] = Inr []"
| "initialize_partials M (p # ps) =
     (case mpz_powm_ui (M div int p) (p - 1) M of
        Inl e \<Rightarrow> Inl e
      | Inr part \<Rightarrow>
          (case initialize_partials M ps of
             Inl e \<Rightarrow> Inl e
           | Inr parts \<Rightarrow> Inr (part # parts)))"

definition initialize :: "nat \<Rightarrow> nat \<Rightarrow> error + multi_field" where
  "initialize minimum maximum =
     (if maximum < 2 then Inl Invalid_argument
      else if minimum > maximum then Inl Invalid_argument
      else if minimum = maximum \<and> \<not> is_prime (unsigned_to_int minimum)
        then Inl Invalid_argument
      else
        (let ps = filter gmp_prime [minimum..<Suc maximum] in
         if ps = [] then Inl Invalid_argument
         else
           (let M = fold (\<lambda>p acc. acc * int p) ps 1 in
            case initialize_partials M ps of
              Inl e \<Rightarrow> Inl e
            | Inr parts \<Rightarrow>
                Inr \<lparr>primes = ps, productOfAllCharacteristics = M, partials = parts\<rparr>)))"

subsection \<open>Elements\<close>

record Shared_multi_field_element =
  mf_element :: int

definition mf_default :: Shared_multi_field_element where
  "mf_default = \<lparr>mf_element = 0\<rparr>"

text \<open>The constructor from a value reduces it modulo the product.\<close>

definition mf_of_mpz :: "multi_field \<Rightarrow> int \<Rightarrow> error + Shared_multi_field_element" where
  "mf_of_mpz mf element =
     (case mpz_mod element (productOfAllCharacteristics mf) of
        Inl e \<Rightarrow> Inl e
      | Inr r \<Rightarrow> Inr \<lparr>mf_element = r\<rparr>)"

definition mf_get_value :: "Shared_multi_field_element \<Rightarrow> int" where
  "mf_get_value f = mf_element f"

text \<open>\<open>operator+=(f, mpz_class v)\<close> and \<open>operator*=(f, mpz_class v)\<close>.\<close>

definition mf_plus_assign_mpz ::
  "multi_field \<Rightarrow> Shared_multi_field_element \<Rightarrow> int \<Rightarrow> error + Shared_multi_field_element"
where
  "mf_plus_assign_mpz mf f v =
     (case mpz_mod (mf_element f + v) (productOfAllCharacteristics mf) of
        Inl e \<Rightarrow> Inl e
      | Inr r \<Rightarrow> Inr (f\<lparr>mf_element := r\<rparr>))"

definition mf_times_assign_mpz ::
  "multi_field \<Rightarrow> Shared_multi_field_element \<Rightarrow> int \<Rightarrow> error + Shared_multi_field_element"
where
  "mf_times_assign_mpz mf f v =
     (case mpz_mod (mf_element f * v) (productOfAllCharacteristics mf) of
        Inl e \<Rightarrow> Inl e
      | Inr r \<Rightarrow> Inr (f\<lparr>mf_element := r\<rparr>))"

text \<open>\<open>operator*(f1, f2)\<close>: a copy of \<open>f1\<close> multiplied by \<open>f2\<close>.\<close>

definition mf_times ::
  "multi_field \<Rightarrow> Shared_multi_field_element \<Rightarrow> Shared_multi_field_element \<Rightarrow>
   error + Shared_multi_field_element"
where
  "mf_times mf f1 f2 = mf_times_assign_mpz mf f1 (mf_element f2)"

definition mf_get_additive_identity :: Shared_multi_field_element where
  "mf_get_additive_identity = mf_default"

definition mf_get_multiplicative_identity ::
  "multi_field \<Rightarrow> error + Shared_multi_field_element"
where
  "mf_get_multiplicative_identity mf = mf_of_mpz mf multiplicativeID"

definition mf_get_characteristic :: "multi_field \<Rightarrow> int" where
  "mf_get_characteristic mf = productOfAllCharacteristics mf"

text \<open>
  \<open>get_partial_multiplicative_identity\<close>: the loop over the primes adds
  \<open>partials_[idx]\<close> for every prime that divides the given product. Both vectors
  are only ever set together by \<open>initialize\<close>, so they are walked in step.
\<close>

fun add_partials ::
  "multi_field \<Rightarrow> int \<Rightarrow> (nat \<times> int) list \<Rightarrow> Shared_multi_field_element \<Rightarrow>
   error + Shared_multi_field_element"
where
  "add_partials mf Q [] mult = Inr mult"
| "add_partials mf Q (pp # rest) mult =
     (if Q mod int (fst pp) = 0 then
        (case mf_plus_assign_mpz mf mult (snd pp) of
           Inl e \<Rightarrow> Inl e
         | Inr mult' \<Rightarrow> add_partials mf Q rest mult')
      else add_partials mf Q rest mult)"

definition get_partial_multiplicative_identity ::
  "multi_field \<Rightarrow> int \<Rightarrow> error + Shared_multi_field_element"
where
  "get_partial_multiplicative_identity mf productOfCharacteristics =
     (if productOfCharacteristics = 0 then mf_of_mpz mf multiplicativeID
      else add_partials mf productOfCharacteristics (zip (primes mf) (partials mf)) mf_default)"

text \<open>
  \<open>get_partial_inverse\<close>. When the gcd of the element and the given product is the
  product itself, the result is the default element paired with
  \<open>multiplicativeID_\<close>.
\<close>

definition get_partial_inverse ::
  "multi_field \<Rightarrow> Shared_multi_field_element \<Rightarrow> int \<Rightarrow>
   error + (Shared_multi_field_element \<times> int)"
where
  "get_partial_inverse mf x productOfCharacteristics =
     (let QR = mpz_gcd (mf_element x) productOfCharacteristics in
      if QR = productOfCharacteristics then Inr (mf_default, multiplicativeID)
      else
        (let QT = productOfCharacteristics div QR in
         case mpz_invert (mf_element x) QT of
           Inl e \<Rightarrow> Inl e
         | Inr inv_qt \<Rightarrow>
             (case get_partial_multiplicative_identity mf QT of
                Inl e \<Rightarrow> Inl e
              | Inr res \<Rightarrow>
                  (case mf_times_assign_mpz mf res inv_qt of
                     Inl e \<Rightarrow> Inl e
                   | Inr res' \<Rightarrow> Inr (res', QT)))))"

definition get_inverse ::
  "multi_field \<Rightarrow> Shared_multi_field_element \<Rightarrow> error + Shared_multi_field_element"
where
  "get_inverse mf x =
     (case get_partial_inverse mf x (productOfAllCharacteristics mf) of
        Inl e \<Rightarrow> Inl e
      | Inr r \<Rightarrow> Inr (fst r))"

section \<open>Chain matrix with row access and removals (chain\_matrix\_0011.h)\<close>

text \<open>
  The matrix is modelled for coefficients in Z2, that is for the branches
  \<open>if constexpr (Field_type::get_characteristic() == 2)\<close>, with the pairing option
  active (so the barcode is maintained) and the vine swap option inactive. The
  row container \<open>rows_\<close> mirrors the columns and is left out.
\<close>

subsection \<open>Dictionaries\<close>

text \<open>
  \<open>matrix_\<close>, \<open>pivotToColumnIndex_\<close> and \<open>indexToBar_\<close> are \<open>unordered_map\<close>s.
  \<open>at\<close> throws \<open>std::out_of_range\<close> on a missing key and \<open>emplace\<close> leaves an
  existing entry alone. A key that is read from an \<open>int\<close> and is negative is no
  valid index.
\<close>

definition map_at :: "('k \<rightharpoonup> 'v) \<Rightarrow> 'k \<Rightarrow> error + 'v" where
  "map_at m k = (case m k of None \<Rightarrow> Inl Out_of_range | Some v \<Rightarrow> Inr v)"

definition map_at_int :: "(nat \<rightharpoonup> 'v) \<Rightarrow> int \<Rightarrow> error + 'v" where
  "map_at_int m k = (if k < 0 then Inl Out_of_range else map_at m (nat k))"

definition map_emplace :: "('k \<rightharpoonup> 'v) \<Rightarrow> 'k \<Rightarrow> 'v \<Rightarrow> ('k \<rightharpoonup> 'v)" where
  "map_emplace m k v = (if m k = None then m(k \<mapsto> v) else m)"

subsection \<open>Bars and chain columns\<close>

text \<open>
  Modelled from the spec: the \<open>Bar\<close> structure is declared in a header that is not
  among the sources; a bar is "(dimension, birth, death | -1 for essential)".
\<close>

record bar =
  bar_dim :: int
  birth :: int
  death :: int

text \<open>
  A Z2 chain column (z2\_chain\_intrusive\_set\_column.h over
  z2\_intrusive\_set\_column.h): the cells ordered by row index, the dimension and
  the pivot, which is \<open>-1\<close> for an empty chain. Modelled from the spec: the pairing
  option of a column is declared in a header that is not among the sources; it
  keeps the index of the paired column, \<open>-1\<close> when the column is unpaired.
\<close>

record chain_column =
  cc_column :: "nat list"
  cc_dim :: int
  cc_pivot :: int
  cc_pairedColumn :: int

definition is_paired :: "chain_column \<Rightarrow> bool" where
  "is_paired col = (cc_pairedColumn col \<noteq> - 1)"

definition get_paired_chain_index :: "chain_column \<Rightarrow> int" where
  "get_paired_chain_index col = cc_pairedColumn col"

definition assign_paired_chain :: "chain_column \<Rightarrow> int \<Rightarrow> chain_column" where
  "assign_paired_chain col other_col = col\<lparr>cc_pairedColumn := other_col\<rparr>"

definition get_pivot :: "chain_column \<Rightarrow> int" where
  "get_pivot col = cc_pivot col"

definition is_empty :: "chain_column \<Rightarrow> bool" where
  "is_empty col = (cc_column col = [])"

text \<open>\<open>is_non_zero(rowIndex)\<close> looks the row up in the set of cells.\<close>

definition is_non_zero :: "chain_column \<Rightarrow> int \<Rightarrow> bool" where
  "is_non_zero col rowIndex = (0 \<le> rowIndex \<and> set_find (nat rowIndex) (cc_column col))"

text \<open>
  The constructor \<open>(columnIndex, chain, dimension, rowContainer, pivotToColumnIndex)\<close>:
  the cells of the chain are inserted one by one and the pivot is the last element
  of the chain.
\<close>

definition chain_column_new :: "nat list \<Rightarrow> int \<Rightarrow> chain_column" where
  "chain_column_new chain dimension =
     \<lparr>cc_column = fold set_insert chain [],
      cc_dim = dimension,
      cc_pivot = (if chain = [] then - 1 else int (last chain)),
      cc_pairedColumn = - 1\<rparr>"

subsection \<open>The matrix\<close>

record chain_matrix =
  matrix :: "nat \<rightharpoonup> chain_column"
  pivotToColumnIndex :: "nat \<rightharpoonup> nat"
  nextInsertIndex :: nat
  dimensions :: "nat list"
  maxDim :: int
  barcode :: "bar list"
  indexToBar :: "nat \<rightharpoonup> nat"
  representativeCycles :: "nat list list"
  birthToCycle :: "int list"

text \<open>
  The barcode is a \<open>std::list\<close> and \<open>indexToBar_\<close> keeps iterators into it; an
  iterator is modelled by the position of its bar, which is stable as long as no
  bar is erased.
\<close>

definition empty_chain_matrix :: chain_matrix where
  "empty_chain_matrix =
     \<lparr>matrix = Map.empty, pivotToColumnIndex = Map.empty, nextInsertIndex = 0,
      dimensions = [], maxDim = - 1, barcode = [], indexToBar = Map.empty,
      representativeCycles = [], birthToCycle = []\<rparr>"

definition get_number_of_columns :: "chain_matrix \<Rightarrow> nat" where
  "get_number_of_columns s = nextInsertIndex s"

definition get_column :: "chain_matrix \<Rightarrow> nat \<Rightarrow> error + chain_column" where
  "get_column s columnIndex = map_at (matrix s) columnIndex"

definition get_column_with_pivot :: "chain_matrix \<Rightarrow> nat \<Rightarrow> error + nat" where
  "get_column_with_pivot s simplexIndex = map_at (pivotToColumnIndex s) simplexIndex"

text \<open>
  \<open>_add_to(column, set)\<close> for Z2: every row of the column is inserted into the
  temporary \<open>std::set\<close>, and erased again when it was already there.
\<close>

definition add_to_tmp :: "chain_column \<Rightarrow> nat list \<Rightarrow> nat list" where
  "add_to_tmp column tmp = fold set_toggle (cc_column column) tmp"

text \<open>
  \<open>add_to(sourceColumnIndex, targetColumnIndex)\<close>, which is \<open>operator+=\<close> of the
  chain column: the cells of the source are toggled in the target; when the pivot
  row of the target is gone, the two entries of \<open>pivotToColumnIndex_\<close> and the two
  pivots are swapped. Adding a column to itself walks a container while it is
  being changed.
\<close>

definition add_to :: "nat \<Rightarrow> nat \<Rightarrow> chain_matrix \<Rightarrow> error + chain_matrix" where
  "add_to sourceColumnIndex targetColumnIndex s =
     (case map_at (matrix s) targetColumnIndex of
        Inl e \<Rightarrow> Inl e
      | Inr tgt \<Rightarrow>
          (case map_at (matrix s) sourceColumnIndex of
             Inl e \<Rightarrow> Inl e
           | Inr src \<Rightarrow>
               if sourceColumnIndex = targetColumnIndex then Inl Undefined_behaviour
               else
                 (let tgt' = tgt\<lparr>cc_column := fold set_toggle (cc_column src) (cc_column tgt)\<rparr>
                  in
                  if \<not> is_non_zero tgt' (cc_pivot tgt') then
                    (case map_at_int (pivotToColumnIndex s) (cc_pivot tgt') of
                       Inl e \<Rightarrow> Inl e
                     | Inr ct \<Rightarrow>
                         (case map_at_int (pivotToColumnIndex s) (get_pivot src) of
                            Inl e \<Rightarrow> Inl e
                          | Inr cs \<Rightarrow>
                              Inr (s\<lparr>matrix := (matrix s)
                                       (targetColumnIndex \<mapsto> tgt'\<lparr>cc_pivot := cc_pivot src\<rparr>,
                                        sourceColumnIndex \<mapsto> src\<lparr>cc_pivot := cc_pivot tgt'\<rparr>),
                                     pivotToColumnIndex := (pivotToColumnIndex s)
                                       (nat (cc_pivot tgt') \<mapsto> cs,
                                        nat (cc_pivot src) \<mapsto> ct)\<rparr>)))
                  else Inr (s\<lparr>matrix := (matrix s)(targetColumnIndex \<mapsto> tgt')\<rparr>))))"

subsection \<open>Reduction of a boundary\<close>

text \<open>
  \<open>chainsInH\<close> is a vector of unsigned indices that receives the \<open>int\<close> index of
  the paired column.
\<close>

definition index_of_int :: "int \<Rightarrow> nat" where
  "index_of_int i = (if i < 0 then nat (i + 2 ^ 32) else nat i)"

definition reduce_by_G ::
  "chain_matrix \<Rightarrow> nat list \<Rightarrow> nat list \<Rightarrow> nat \<Rightarrow> error + (nat list \<times> nat list)"
where
  "reduce_by_G s column chainsInH currentPivot =
     (case map_at (matrix s) currentPivot of
        Inl e \<Rightarrow> Inl e
      | Inr col \<Rightarrow>
          Inr (add_to_tmp col column,
               chainsInH @ [index_of_int (get_paired_chain_index col)]))"

definition reduce_by_F ::
  "chain_matrix \<Rightarrow> nat list \<Rightarrow> nat \<Rightarrow> nat list \<Rightarrow> error + (nat list \<times> nat list)"
where
  "reduce_by_F s column currentPivot currentEssentialCycleIndices =
     (case map_at (matrix s) currentPivot of
        Inl e \<Rightarrow> Inl e
      | Inr col \<Rightarrow>
          Inr (add_to_tmp col column, currentEssentialCycleIndices @ [currentPivot]))"

text \<open>
  The first loop of \<open>_reduce_boundary\<close>,
  \<open>while (matrix_.at(currentPivot).is_paired())\<close>: it ends either inside the
  loop, when the column has become empty, or with a column whose last row belongs
  to an unpaired column. Nothing in the code bounds the number of rounds, so the
  loop is a partial function: \<open>None\<close> stands for a loop that does not end.
\<close>

datatype reduction = Reduced_to_zero "nat list" | Remaining "nat list" "nat list"

partial_function (option) reduce_while_paired ::
  "chain_matrix \<Rightarrow> nat list \<Rightarrow> nat list \<Rightarrow> nat \<Rightarrow> (error + reduction) option"
where
  "reduce_while_paired s column chainsInH currentPivot =
     (case map_at (matrix s) currentPivot of
        Inl e \<Rightarrow> Some (Inl e)
      | Inr col \<Rightarrow>
          if is_paired col then
            (case reduce_by_G s column chainsInH currentPivot of
               Inl e \<Rightarrow> Some (Inl e)
             | Inr r \<Rightarrow>
                 if fst r = [] then Some (Inr (Reduced_to_zero (snd r)))
                 else
                   (case map_at (pivotToColumnIndex s) (last (fst r)) of
                      Inl e \<Rightarrow> Some (Inl e)
                    | Inr nextPivot \<Rightarrow> reduce_while_paired s (fst r) (snd r) nextPivot))
          else Some (Inr (Remaining column chainsInH)))"

text \<open>
  The second loop, \<open>while (!column.empty())\<close>, reduces by unpaired and by paired
  columns until nothing is left; it returns \<open>chainsInH\<close> and
  \<open>currentEssentialCycleIndices\<close>.
\<close>

partial_function (option) reduce_until_empty ::
  "chain_matrix \<Rightarrow> nat list \<Rightarrow> nat list \<Rightarrow> nat list \<Rightarrow> (error + (nat list \<times> nat list)) option"
where
  "reduce_until_empty s column chainsInH currentEssentialCycleIndices =
     (if column \<noteq> [] then
        (case map_at (pivotToColumnIndex s) (last column) of
           Inl e \<Rightarrow> Some (Inl e)
         | Inr currentPivot \<Rightarrow>
             (case map_at (matrix s) currentPivot of
                Inl e \<Rightarrow> Some (Inl e)
              | Inr col \<Rightarrow>
                  if \<not> is_paired col then
                    (case reduce_by_F s column currentPivot currentEssentialCycleIndices of
                       Inl e \<Rightarrow> Some (Inl e)
                     | Inr r \<Rightarrow> reduce_until_empty s (fst r) chainsInH (snd r))
                  else
                    (case reduce_by_G s column chainsInH currentPivot of
                       Inl e \<Rightarrow> Some (Inl e)
                     | Inr r \<Rightarrow>
                         reduce_until_empty s (fst r) (snd r) currentEssentialCycleIndices)))
      else Some (Inr (chainsInH, currentEssentialCycleIndices)))"

text \<open>
  \<open>_build_from_H\<close>: the index of the new face is inserted into the column and
  the columns listed in \<open>chainsInH\<close> are added to it.
\<close>

fun add_chains_in_H :: "chain_matrix \<Rightarrow> nat list \<Rightarrow> nat list \<Rightarrow> error + nat list" where
  "add_chains_in_H s [] column = Inr column"
| "add_chains_in_H s (idx_h # chainsInH) column =
     (case map_at (matrix s) idx_h of
        Inl e \<Rightarrow> Inl e
      | Inr col \<Rightarrow> add_chains_in_H s chainsInH (add_to_tmp col column))"

definition build_from_H :: "chain_matrix \<Rightarrow> nat list \<Rightarrow> nat list \<Rightarrow> error + nat list" where
  "build_from_H s column chainsInH =
     add_chains_in_H s chainsInH (set_insert (nextInsertIndex s) column)"

text \<open>
  \<open>_update_largest_death_in_F\<close> for Z2: every column of the list but the first is
  added to the column \<open>toUpdate\<close>. The loop starts at \<open>begin() + 1\<close>, which does
  not exist for an empty list.
\<close>

fun add_all_to :: "nat list \<Rightarrow> nat \<Rightarrow> chain_matrix \<Rightarrow> error + chain_matrix" where
  "add_all_to [] toUpdate s = Inr s"
| "add_all_to (other_col # rest) toUpdate s =
     (case add_to other_col toUpdate s of
        Inl e \<Rightarrow> Inl e
      | Inr s' \<Rightarrow> add_all_to rest toUpdate s')"

definition update_largest_death_in_F ::
  "nat list \<Rightarrow> nat \<Rightarrow> chain_matrix \<Rightarrow> error + chain_matrix"
where
  "update_largest_death_in_F chainsInF toUpdate s =
     (case chainsInF of
        [] \<Rightarrow> Inl Undefined_behaviour
      | first # rest \<Rightarrow> add_all_to rest toUpdate s)"

text \<open>
  \<open>_insert_chain(column, dimension)\<close>: a new unpaired column and a new bar without
  death. Reading \<open>*(column.rbegin())\<close> needs a column that is not empty.
\<close>

definition insert_chain :: "nat list \<Rightarrow> int \<Rightarrow> chain_matrix \<Rightarrow> error + chain_matrix" where
  "insert_chain column dimension s =
     (if column = [] then Inl Undefined_behaviour
      else
        Inr (s\<lparr>pivotToColumnIndex :=
                 map_emplace (pivotToColumnIndex s) (last column) (nextInsertIndex s),
               matrix :=
                 map_emplace (matrix s) (nextInsertIndex s) (chain_column_new column dimension),
               barcode :=
                 barcode s @ [\<lparr>bar_dim = dimension, birth = int (nextInsertIndex s), death = - 1\<rparr>],
               indexToBar :=
                 map_emplace (indexToBar s) (nextInsertIndex s) (length (barcode s)),
               nextInsertIndex := Suc (nextInsertIndex s)\<rparr>))"

text \<open>
  \<open>_insert_chain(column, dimension, pair)\<close>: a new column paired with the column
  \<open>pair\<close>; the bar of the pivot of \<open>pair\<close> gets the new index as its death, and
  the new index is mapped to that bar.
\<close>

definition insert_chain_paired ::
  "nat list \<Rightarrow> int \<Rightarrow> nat \<Rightarrow> chain_matrix \<Rightarrow> error + chain_matrix"
where
  "insert_chain_paired column dimension pair s =
     (if column = [] then Inl Undefined_behaviour
      else
        (let n = nextInsertIndex s;
             p2c = map_emplace (pivotToColumnIndex s) (last column) n;
             m1 = map_emplace (matrix s) n (chain_column_new column dimension)
         in
         case map_at m1 n of
           Inl e \<Rightarrow> Inl e
         | Inr newCol \<Rightarrow>
             (let m2 = m1(n \<mapsto> assign_paired_chain newCol (int pair)) in
              case map_at m2 pair of
                Inl e \<Rightarrow> Inl e
              | Inr pairCol \<Rightarrow>
                  (let m3 = m2(pair \<mapsto> assign_paired_chain pairCol (int n)) in
                   case map_at_int (indexToBar s) (get_pivot pairCol) of
                     Inl e \<Rightarrow> Inl e
                   | Inr pos \<Rightarrow>
                       Inr (s\<lparr>pivotToColumnIndex := p2c,
                              matrix := m3,
                              barcode := (barcode s)[pos := (barcode s ! pos)\<lparr>death := int n\<rparr>],
                              indexToBar := map_emplace (indexToBar s) n pos,
                              nextInsertIndex := Suc n\<rparr>)))))"

text \<open>
  The reduction part of \<open>_reduce_boundary\<close> for a boundary that is not empty: the
  two loops. The result is either the list \<open>chainsInH\<close> of a column that was
  reduced to zero by paired columns only, or \<open>chainsInH\<close> together with the list
  of unpaired columns that were used, in the order of their use.
\<close>

datatype reduced = New_cycle "nat list" | New_pair "nat list" "nat list"

definition reduce_column ::
  "chain_matrix \<Rightarrow> nat list \<Rightarrow> nat list \<Rightarrow> (error + reduced) option"
where
  "reduce_column s column currentEssentialCycleIndices =
     (case map_at (pivotToColumnIndex s) (last column) of
        Inl e \<Rightarrow> Some (Inl e)
      | Inr currentPivot \<Rightarrow>
          (case reduce_while_paired s column [] currentPivot of
             None \<Rightarrow> None
           | Some (Inl e) \<Rightarrow> Some (Inl e)
           | Some (Inr (Reduced_to_zero chainsInH)) \<Rightarrow> Some (Inr (New_cycle chainsInH))
           | Some (Inr (Remaining column' chainsInH)) \<Rightarrow>
               (case reduce_until_empty s column' chainsInH currentEssentialCycleIndices of
                  None \<Rightarrow> None
                | Some (Inl e) \<Rightarrow> Some (Inl e)
                | Some (Inr r) \<Rightarrow> Some (Inr (New_pair (fst r) (snd r))))))"

text \<open>
  What \<open>_reduce_boundary\<close> does with the outcome of the reduction. The paired
  column is \<open>currentEssentialCycleIndices.front()\<close>. The second component of the
  result is the vector \<open>currentEssentialCycleIndices\<close> as the call leaves it; a
  call that returns before the second loop leaves it as it was.
\<close>

definition insert_reduced ::
  "chain_matrix \<Rightarrow> int \<Rightarrow> nat list \<Rightarrow> reduced \<Rightarrow> error + (chain_matrix \<times> nat list)"
where
  "insert_reduced s dim currentEssentialCycleIndices r =
     (case r of
        New_cycle chainsInH \<Rightarrow>
          (case build_from_H s [] chainsInH of
             Inl e \<Rightarrow> Inl e
           | Inr column \<Rightarrow>
               (case insert_chain column dim s of
                  Inl e \<Rightarrow> Inl e
                | Inr s' \<Rightarrow> Inr (s', currentEssentialCycleIndices)))
      | New_pair chainsInH chainsInF \<Rightarrow>
          (case chainsInF of
             [] \<Rightarrow> Inl Undefined_behaviour
           | chain_fp # others \<Rightarrow>
               (case update_largest_death_in_F chainsInF chain_fp s of
                  Inl e \<Rightarrow> Inl e
                | Inr s1 \<Rightarrow>
                    (case build_from_H s1 [] chainsInH of
                       Inl e \<Rightarrow> Inl e
                     | Inr column \<Rightarrow>
                         (case insert_chain_paired column dim chain_fp s1 of
                            Inl e \<Rightarrow> Inl e
                          | Inr s' \<Rightarrow> Inr (s', chainsInF))))))"

text \<open>
  \<open>_reduce_boundary(boundary, currentEssentialCycleIndices)\<close>. The temporary
  column is the \<open>std::set\<close> of the boundary.
\<close>

definition reduce_boundary ::
  "nat list \<Rightarrow> nat list \<Rightarrow> chain_matrix \<Rightarrow> (error + (chain_matrix \<times> nat list)) option"
where
  "reduce_boundary boundary currentEssentialCycleIndices s =
     (let column = fold set_insert boundary [];
          dim = (if boundary = [] then 0 else int (length boundary) - 1)
      in
      if boundary = [] then
        (case insert_chain (set_insert (nextInsertIndex s) column) dim s of
           Inl e \<Rightarrow> Some (Inl e)
         | Inr s' \<Rightarrow> Some (Inr (s', currentEssentialCycleIndices)))
      else
        (case reduce_column s column currentEssentialCycleIndices of
           None \<Rightarrow> None
         | Some (Inl e) \<Rightarrow> Some (Inl e)
         | Some (Inr r) \<Rightarrow> Some (insert_reduced s dim currentEssentialCycleIndices r)))"

text \<open>
  \<open>insert_boundary(boundary, currentEssentialCycleIndices)\<close>: the dimension
  counters are updated, then the boundary is reduced and inserted.
\<close>

definition count_dimension :: "nat list \<Rightarrow> chain_matrix \<Rightarrow> chain_matrix" where
  "count_dimension boundary s =
     (let dim = (if length boundary = 0 then 0 else length boundary - 1);
          dims = (if length (dimensions s) \<le> dim
                  then dimensions s @ replicate (Suc dim - length (dimensions s)) 0
                  else dimensions s)
      in s\<lparr>maxDim := (if maxDim s < int dim then int dim else maxDim s),
           dimensions := dims[dim := Suc (dims ! dim)]\<rparr>)"

definition insert_boundary_with ::
  "nat list \<Rightarrow> nat list \<Rightarrow> chain_matrix \<Rightarrow> (error + (chain_matrix \<times> nat list)) option"
where
  "insert_boundary_with boundary currentEssentialCycleIndices s =
     reduce_boundary boundary currentEssentialCycleIndices (count_dimension boundary s)"

text \<open>\<open>insert_boundary(boundary)\<close> starts from an empty vector and drops it.\<close>

definition insert_boundary :: "nat list \<Rightarrow> chain_matrix \<Rightarrow> (error + chain_matrix) option" where
  "insert_boundary boundary s =
     (case insert_boundary_with boundary [] s of
        None \<Rightarrow> None
      | Some (Inl e) \<Rightarrow> Some (Inl e)
      | Some (Inr r) \<Rightarrow> Some (Inr (fst r)))"

text \<open>
  The constructor from a vector of ordered boundaries starts from the empty matrix
  and calls \<open>insert_boundary\<close> for each boundary in turn.
\<close>

fun insert_boundaries ::
  "nat list list \<Rightarrow> chain_matrix \<Rightarrow> (error + chain_matrix) option"
where
  "insert_boundaries [] s = Some (Inr s)"
| "insert_boundaries (b # orderedBoundaries) s =
     (case insert_boundary b s of
        None \<Rightarrow> None
      | Some (Inl e) \<Rightarrow> Some (Inl e)
      | Some (Inr s') \<Rightarrow> insert_boundaries orderedBoundaries s')"

definition chain_matrix_of_boundaries :: "nat list list \<Rightarrow> (error + chain_matrix) option" where
  "chain_matrix_of_boundaries orderedBoundaries =
     insert_boundaries orderedBoundaries empty_chain_matrix"

subsection \<open>Representative cycles (chain\_rep\_cycles.h)\<close>

text \<open>
  \<open>update_representative_cycles\<close> walks the indices \<open>i\<close> below the number of
  columns, takes the column with pivot \<open>i\<close> and, when it is unpaired or \<open>i\<close> is
  below the index of its paired column, pushes the row indices of the column as a new
  cycle and records the position of the cycle in \<open>birthToCycle_[i]\<close>. The rows are
  read in the iteration order of the column and sorted when the column type is the
  heap column or the unordered set column (the flag \<open>unordered\<close>).
\<close>

fun collect_cycles ::
  "bool \<Rightarrow> chain_matrix \<Rightarrow> nat list \<Rightarrow> nat list list \<Rightarrow> int list \<Rightarrow>
   error + (nat list list \<times> int list)"
where
  "collect_cycles unordered s [] cycles b2c = Inr (cycles, b2c)"
| "collect_cycles unordered s (i # rest) cycles b2c =
     (case get_column_with_pivot s i of
        Inl e \<Rightarrow> Inl e
      | Inr c \<Rightarrow>
          (case get_column s c of
             Inl e \<Rightarrow> Inl e
           | Inr col \<Rightarrow>
               if \<not> is_paired col \<or> int i < get_paired_chain_index col then
                 (let cycle = (if unordered then sort (cc_column col) else cc_column col);
                      cycles' = cycles @ [cycle]
                  in collect_cycles unordered s rest cycles'
                       (b2c[i := int (length cycles') - 1]))
               else collect_cycles unordered s rest cycles b2c))"

definition update_representative_cycles :: "bool \<Rightarrow> chain_matrix \<Rightarrow> error + chain_matrix" where
  "update_representative_cycles unordered s =
     (case collect_cycles unordered s [0..<get_number_of_columns s] []
             (replicate (get_number_of_columns s) (- 1)) of
        Inl e \<Rightarrow> Inl e
      | Inr r \<Rightarrow> Inr (s\<lparr>representativeCycles := fst r, birthToCycle := snd r\<rparr>))"

section \<open>Chain matrix over another field (chain\_matrix\_0011.h)\<close>

text \<open>
  The branches of the chain matrix for a characteristic other than 2. A cell of a
  column, and of the temporary column of the reduction, is a pair of a row index and
  a coefficient. The class of the coefficients, \<open>Field_element_type\<close>, is not among
  the sources: its values are modelled by a type of class \<open>field\<close>, with
  \<open>get_inverse\<close> the inverse, \<open>operator*=\<close> with an unsigned argument the
  multiplication by the image of that number in the field, \<open>operator+=\<close> the
  addition and the default value the zero. The characteristic and the
  conversion of a coefficient to \<open>unsigned int\<close> are parameters of the model.
\<close>

record 'f Field_type =
  ft_characteristic :: nat
  ft_to_unsigned :: "'f \<Rightarrow> nat"

text \<open>The difference of two \<open>unsigned int\<close> values wraps below zero.\<close>

definition unsigned_minus :: "nat \<Rightarrow> nat \<Rightarrow> nat" where
  "unsigned_minus a b = (if b \<le> a then a - b else a + 2 ^ 32 - b)"

subsection \<open>Sets of cells\<close>

text \<open>
  The temporary column is a \<open>std::set\<close> of pairs compared by their row index:
  \<open>find\<close> looks a row up, \<open>erase\<close> removes it and \<open>insert\<close> leaves the set alone
  when the row is there already.
\<close>

definition cell_find :: "nat \<Rightarrow> (nat \<times> 'f) list \<Rightarrow> 'f option" where
  "cell_find r c = map_of c r"

fun cell_erase :: "nat \<Rightarrow> (nat \<times> 'f) list \<Rightarrow> (nat \<times> 'f) list" where
  "cell_erase r [] = []"
| "cell_erase r (a # c) = (if r = fst a then c else a # cell_erase r c)"

fun cell_insert :: "nat \<times> 'f \<Rightarrow> (nat \<times> 'f) list \<Rightarrow> (nat \<times> 'f) list" where
  "cell_insert p [] = [p]"
| "cell_insert p (a # c) =
     (if fst p < fst a then p # a # c else if fst p = fst a then a # c else a # cell_insert p c)"

subsection \<open>Chain columns with coefficients (chain\_intrusive\_list\_column.h)\<close>

text \<open>
  \<open>Intrusive_list_chain_column\<close> adds the pivot to its base class, the list column
  of the same version of the library, which is not among the sources. The cells are
  kept in the order of their rows.
\<close>

record 'f gchain_column =
  gc_column :: "(nat \<times> 'f) list"
  gc_dim :: int
  gc_pivot :: int
  gc_pairedColumn :: int

definition is_paired_gen :: "'f gchain_column \<Rightarrow> bool" where
  "is_paired_gen col = (gc_pairedColumn col \<noteq> - 1)"

definition is_empty_gen :: "'f gchain_column \<Rightarrow> bool" where
  "is_empty_gen col = (gc_column col = [])"

definition is_non_zero_gen :: "'f gchain_column \<Rightarrow> int \<Rightarrow> bool" where
  "is_non_zero_gen col rowIndex =
     (0 \<le> rowIndex \<and> cell_find (nat rowIndex) (gc_column col) \<noteq> None)"

text \<open>
  \<open>get_pivot_value\<close>: the coefficient of the cell in the pivot row, and the default
  value when there is no pivot or no such cell.
\<close>

definition get_pivot_value :: "'f::field gchain_column \<Rightarrow> 'f" where
  "get_pivot_value col =
     (if gc_pivot col = - 1 then 0
      else
        (case find (\<lambda>cell. int (fst cell) = gc_pivot col) (gc_column col) of
           None \<Rightarrow> 0
         | Some cell \<Rightarrow> snd cell))"

definition chain_column_new_gen :: "(nat \<times> 'f) list \<Rightarrow> int \<Rightarrow> 'f gchain_column" where
  "chain_column_new_gen chain dimension =
     \<lparr>gc_column = fold cell_insert chain [],
      gc_dim = dimension,
      gc_pivot = (if chain = [] then - 1 else int (fst (last chain))),
      gc_pairedColumn = - 1\<rparr>"

text \<open>
  The two operations of the base class that the matrix uses, after the set column of
  the same version (set\_column.h). \<open>operator*=(unsigned int)\<close> reduces the scalar
  modulo the characteristic, clears the column when that is zero and multiplies every
  coefficient otherwise. \<open>operator+=\<close> adds the coefficient of every cell of the
  source to the cell of the target in the same row, erases the cell when the sum is
  zero, and inserts the cell when the target has none in that row.
\<close>

definition column_times_assign ::
  "'f::field Field_type \<Rightarrow> 'f gchain_column \<Rightarrow> nat \<Rightarrow> error + 'f gchain_column"
where
  "column_times_assign F col v =
     (if ft_characteristic F = 0 then Inl Division_by_zero
      else
        (let v' = v mod ft_characteristic F in
         if v' = 0 then Inr (col\<lparr>gc_column := []\<rparr>)
         else Inr (col\<lparr>gc_column := map (\<lambda>cell. (fst cell, snd cell * of_nat v')) (gc_column col)\<rparr>)))"

definition add_cell_to_column :: "nat \<times> 'f::field \<Rightarrow> (nat \<times> 'f) list \<Rightarrow> (nat \<times> 'f) list" where
  "add_cell_to_column v c =
     (case cell_find (fst v) c of
        None \<Rightarrow> cell_insert v c
      | Some e \<Rightarrow>
          if e + snd v = 0 then cell_erase (fst v) c
          else map (\<lambda>cell. if fst cell = fst v then (fst cell, e + snd v) else cell) c)"

definition column_plus_assign :: "'f::field gchain_column \<Rightarrow> 'f gchain_column \<Rightarrow> 'f gchain_column" where
  "column_plus_assign this column =
     this\<lparr>gc_column := fold add_cell_to_column (gc_column column) (gc_column this)\<rparr>"

subsection \<open>The matrix\<close>

record 'f gchain_matrix =
  g_matrix :: "nat \<rightharpoonup> 'f gchain_column"
  g_pivotToColumnIndex :: "nat \<rightharpoonup> nat"
  g_nextInsertIndex :: nat
  g_dimensions :: "nat list"
  g_maxDim :: int
  g_barcode :: "bar list"
  g_indexToBar :: "nat \<rightharpoonup> nat"

definition empty_chain_matrix_gen :: "'f gchain_matrix" where
  "empty_chain_matrix_gen =
     \<lparr>g_matrix = Map.empty, g_pivotToColumnIndex = Map.empty, g_nextInsertIndex = 0,
      g_dimensions = [], g_maxDim = - 1, g_barcode = [], g_indexToBar = Map.empty\<rparr>"

text \<open>
  \<open>_add_to(column, set, coef)\<close> without Z2: the coefficient of every cell of the
  column is multiplied by \<open>coef\<close>; when the set has a cell in the same row, the
  coefficient of that cell is added, the cell is erased and the new one is inserted
  unless its coefficient is zero; otherwise the new cell is inserted.
\<close>

definition add_cell_to_tmp :: "nat \<Rightarrow> nat \<times> 'f::field \<Rightarrow> (nat \<times> 'f) list \<Rightarrow> (nat \<times> 'f) list" where
  "add_cell_to_tmp coef cell tmp =
     (case cell_find (fst cell) tmp of
        Some e \<Rightarrow>
          (let v = snd cell * of_nat coef + e;
               tmp' = cell_erase (fst cell) tmp
           in if v \<noteq> 0 then cell_insert (fst cell, v) tmp' else tmp')
      | None \<Rightarrow> cell_insert (fst cell, snd cell * of_nat coef) tmp)"

definition add_to_tmp_gen ::
  "'f::field gchain_column \<Rightarrow> (nat \<times> 'f) list \<Rightarrow> nat \<Rightarrow> (nat \<times> 'f) list"
where
  "add_to_tmp_gen column tmp coef = fold (add_cell_to_tmp coef) (gc_column column) tmp"

text \<open>
  \<open>add_to(sourceColumnIndex, targetColumnIndex)\<close>, the \<open>operator+=\<close> of the chain
  column: the addition of the base class, then the swap of the pivots and of the two
  entries of \<open>pivotToColumnIndex_\<close> when the pivot row of the target is gone.
\<close>

definition add_to_gen ::
  "nat \<Rightarrow> nat \<Rightarrow> 'f::field gchain_matrix \<Rightarrow> error + 'f gchain_matrix"
where
  "add_to_gen sourceColumnIndex targetColumnIndex s =
     (case map_at (g_matrix s) targetColumnIndex of
        Inl e \<Rightarrow> Inl e
      | Inr tgt \<Rightarrow>
          (case map_at (g_matrix s) sourceColumnIndex of
             Inl e \<Rightarrow> Inl e
           | Inr src \<Rightarrow>
               if sourceColumnIndex = targetColumnIndex then Inl Undefined_behaviour
               else
                 (let tgt' = column_plus_assign tgt src in
                  if \<not> is_non_zero_gen tgt' (gc_pivot tgt') then
                    (case map_at_int (g_pivotToColumnIndex s) (gc_pivot tgt') of
                       Inl e \<Rightarrow> Inl e
                     | Inr ct \<Rightarrow>
                         (case map_at_int (g_pivotToColumnIndex s) (gc_pivot src) of
                            Inl e \<Rightarrow> Inl e
                          | Inr cs \<Rightarrow>
                              Inr (s\<lparr>g_matrix := (g_matrix s)
                                       (targetColumnIndex \<mapsto> tgt'\<lparr>gc_pivot := gc_pivot src\<rparr>,
                                        sourceColumnIndex \<mapsto> src\<lparr>gc_pivot := gc_pivot tgt'\<rparr>),
                                     g_pivotToColumnIndex := (g_pivotToColumnIndex s)
                                       (nat (gc_pivot tgt') \<mapsto> cs,
                                        nat (gc_pivot src) \<mapsto> ct)\<rparr>)))
                  else Inr (s\<lparr>g_matrix := (g_matrix s)(targetColumnIndex \<mapsto> tgt')\<rparr>))))"

text \<open>\<open>matrix_.at(index) *= coefficient\<close>, the coefficient converted to unsigned.\<close>

definition scale_column ::
  "'f::field Field_type \<Rightarrow> nat \<Rightarrow> 'f \<Rightarrow> 'f gchain_matrix \<Rightarrow> error + 'f gchain_matrix"
where
  "scale_column F columnIndex coef s =
     (case map_at (g_matrix s) columnIndex of
        Inl e \<Rightarrow> Inl e
      | Inr col \<Rightarrow>
          (case column_times_assign F col (ft_to_unsigned F coef) of
             Inl e \<Rightarrow> Inl e
           | Inr col' \<Rightarrow> Inr (s\<lparr>g_matrix := (g_matrix s)(columnIndex \<mapsto> col')\<rparr>)))"

subsection \<open>Reduction of a boundary\<close>

text \<open>
  The coefficient of a reduction step: the inverse of the pivot value of the column,
  multiplied by the characteristic minus the coefficient of the last cell of the
  temporary column, as an unsigned number.
\<close>

definition reduction_coefficient ::
  "'f::field Field_type \<Rightarrow> 'f gchain_column \<Rightarrow> (nat \<times> 'f) list \<Rightarrow> 'f"
where
  "reduction_coefficient F col column =
     inverse (get_pivot_value col) *
     of_nat (unsigned_minus (ft_characteristic F) (ft_to_unsigned F (snd (last column))))"

definition reduce_by_G_gen ::
  "'f::field Field_type \<Rightarrow> 'f gchain_matrix \<Rightarrow> (nat \<times> 'f) list \<Rightarrow> (nat \<times> 'f) list \<Rightarrow> nat \<Rightarrow>
   error + ((nat \<times> 'f) list \<times> (nat \<times> 'f) list)"
where
  "reduce_by_G_gen F s column chainsInH currentPivot =
     (case map_at (g_matrix s) currentPivot of
        Inl e \<Rightarrow> Inl e
      | Inr col \<Rightarrow>
          if column = [] then Inl Undefined_behaviour
          else
            (let coef = reduction_coefficient F col column in
             Inr (add_to_tmp_gen col column (ft_to_unsigned F coef),
                  chainsInH @ [(index_of_int (gc_pairedColumn col), coef)])))"

text \<open>
  \<open>_reduce_by_F\<close> also records the column in \<open>currentEssentialCycleIndices\<close> and,
  with the characteristic minus the coefficient, in \<open>chainsInF\<close>.
\<close>

definition reduce_by_F_gen ::
  "'f::field Field_type \<Rightarrow> 'f gchain_matrix \<Rightarrow> (nat \<times> 'f) list \<Rightarrow> (nat \<times> 'f) list \<Rightarrow> nat \<Rightarrow>
   nat list \<Rightarrow> error + ((nat \<times> 'f) list \<times> (nat \<times> 'f) list \<times> nat list)"
where
  "reduce_by_F_gen F s column chainsInF currentPivot currentEssentialCycleIndices =
     (case map_at (g_matrix s) currentPivot of
        Inl e \<Rightarrow> Inl e
      | Inr col \<Rightarrow>
          if column = [] then Inl Undefined_behaviour
          else
            (let coef = reduction_coefficient F col column in
             Inr (add_to_tmp_gen col column (ft_to_unsigned F coef),
                  chainsInF @
                    [(currentPivot,
                      of_nat (unsigned_minus (ft_characteristic F) (ft_to_unsigned F coef)))],
                  currentEssentialCycleIndices @ [currentPivot])))"

datatype 'f reduction_gen =
  Reduced_to_zero_gen "(nat \<times> 'f) list"
| Remaining_gen "(nat \<times> 'f) list" "(nat \<times> 'f) list"

partial_function (option) reduce_while_paired_gen ::
  "'f::field Field_type \<Rightarrow> 'f gchain_matrix \<Rightarrow> (nat \<times> 'f) list \<Rightarrow> (nat \<times> 'f) list \<Rightarrow> nat \<Rightarrow>
   (error + 'f reduction_gen) option"
where
  "reduce_while_paired_gen F s column chainsInH currentPivot =
     (case map_at (g_matrix s) currentPivot of
        Inl e \<Rightarrow> Some (Inl e)
      | Inr col \<Rightarrow>
          if is_paired_gen col then
            (case reduce_by_G_gen F s column chainsInH currentPivot of
               Inl e \<Rightarrow> Some (Inl e)
             | Inr r \<Rightarrow>
                 if fst r = [] then Some (Inr (Reduced_to_zero_gen (snd r)))
                 else
                   (case map_at (g_pivotToColumnIndex s) (fst (last (fst r))) of
                      Inl e \<Rightarrow> Some (Inl e)
                    | Inr nextPivot \<Rightarrow> reduce_while_paired_gen F s (fst r) (snd r) nextPivot))
          else Some (Inr (Remaining_gen column chainsInH)))"

partial_function (option) reduce_until_empty_gen ::
  "'f::field Field_type \<Rightarrow> 'f gchain_matrix \<Rightarrow> (nat \<times> 'f) list \<Rightarrow> (nat \<times> 'f) list \<Rightarrow>
   (nat \<times> 'f) list \<Rightarrow> nat list \<Rightarrow>
   (error + ((nat \<times> 'f) list \<times> (nat \<times> 'f) list \<times> nat list)) option"
where
  "reduce_until_empty_gen F s column chainsInH chainsInF currentEssentialCycleIndices =
     (if column \<noteq> [] then
        (case map_at (g_pivotToColumnIndex s) (fst (last column)) of
           Inl e \<Rightarrow> Some (Inl e)
         | Inr currentPivot \<Rightarrow>
             (case map_at (g_matrix s) currentPivot of
                Inl e \<Rightarrow> Some (Inl e)
              | Inr col \<Rightarrow>
                  if \<not> is_paired_gen col then
                    (case reduce_by_F_gen F s column chainsInF currentPivot
                            currentEssentialCycleIndices of
                       Inl e \<Rightarrow> Some (Inl e)
                     | Inr r \<Rightarrow>
                         reduce_until_empty_gen F s (fst r) chainsInH (fst (snd r)) (snd (snd r)))
                  else
                    (case reduce_by_G_gen F s column chainsInH currentPivot of
                       Inl e \<Rightarrow> Some (Inl e)
                     | Inr r \<Rightarrow>
                         reduce_until_empty_gen F s (fst r) (snd r) chainsInF
                           currentEssentialCycleIndices)))
      else Some (Inr (chainsInH, chainsInF, currentEssentialCycleIndices)))"

text \<open>
  \<open>_build_from_H\<close>: the cell of the new face with coefficient 1 is put into the
  column, and every column of \<open>chainsInH\<close> is added with its coefficient.
\<close>

fun add_chains_in_H_gen ::
  "'f::field Field_type \<Rightarrow> 'f gchain_matrix \<Rightarrow> (nat \<times> 'f) list \<Rightarrow> (nat \<times> 'f) list \<Rightarrow>
   error + (nat \<times> 'f) list"
where
  "add_chains_in_H_gen F s [] column = Inr column"
| "add_chains_in_H_gen F s (idx_h # chainsInH) column =
     (case map_at (g_matrix s) (fst idx_h) of
        Inl e \<Rightarrow> Inl e
      | Inr col \<Rightarrow>
          add_chains_in_H_gen F s chainsInH
            (add_to_tmp_gen col column (ft_to_unsigned F (snd idx_h))))"

definition build_from_H_gen ::
  "'f::field Field_type \<Rightarrow> 'f gchain_matrix \<Rightarrow> (nat \<times> 'f) list \<Rightarrow> (nat \<times> 'f) list \<Rightarrow>
   error + (nat \<times> 'f) list"
where
  "build_from_H_gen F s column chainsInH =
     add_chains_in_H_gen F s chainsInH (cell_insert (g_nextInsertIndex s, 1) column)"

text \<open>
  \<open>_update_largest_death_in_F\<close> without Z2, as the list of its steps on the columns:
  the column \<open>toUpdate\<close> is scaled by the coefficient of the first entry of
  \<open>chainsInF\<close>; every other column of the list is scaled by its coefficient, added to
  \<open>toUpdate\<close> and scaled back by the inverse.
\<close>

datatype 'f column_step = Scale nat 'f | Add nat nat

definition update_steps :: "(nat \<times> 'f::field) list \<Rightarrow> nat \<Rightarrow> 'f column_step list" where
  "update_steps chainsInF toUpdate =
     Scale toUpdate (snd (hd chainsInF)) #
     concat (map (\<lambda>other. [Scale (fst other) (snd other), Add (fst other) toUpdate,
                           Scale (fst other) (inverse (snd other))])
               (tl chainsInF))"

fun apply_column_step ::
  "'f::field Field_type \<Rightarrow> 'f column_step \<Rightarrow> 'f gchain_matrix \<Rightarrow> error + 'f gchain_matrix"
where
  "apply_column_step F (Scale c coef) s = scale_column F c coef s"
| "apply_column_step F (Add src tgt) s = add_to_gen src tgt s"

fun apply_column_steps ::
  "'f::field Field_type \<Rightarrow> 'f column_step list \<Rightarrow> 'f gchain_matrix \<Rightarrow> error + 'f gchain_matrix"
where
  "apply_column_steps F [] s = Inr s"
| "apply_column_steps F (st # steps) s =
     (case apply_column_step F st s of
        Inl e \<Rightarrow> Inl e
      | Inr s' \<Rightarrow> apply_column_steps F steps s')"

definition update_largest_death_in_F_gen ::
  "'f::field Field_type \<Rightarrow> (nat \<times> 'f) list \<Rightarrow> nat \<Rightarrow> 'f gchain_matrix \<Rightarrow>
   error + 'f gchain_matrix"
where
  "update_largest_death_in_F_gen F chainsInF toUpdate s =
     (if chainsInF = [] then Inl Undefined_behaviour
      else apply_column_steps F (update_steps chainsInF toUpdate) s)"

definition insert_chain_gen ::
  "(nat \<times> 'f) list \<Rightarrow> int \<Rightarrow> 'f gchain_matrix \<Rightarrow> error + 'f gchain_matrix"
where
  "insert_chain_gen column dimension s =
     (if column = [] then Inl Undefined_behaviour
      else
        Inr (s\<lparr>g_pivotToColumnIndex :=
                 map_emplace (g_pivotToColumnIndex s) (fst (last column)) (g_nextInsertIndex s),
               g_matrix :=
                 map_emplace (g_matrix s) (g_nextInsertIndex s)
                   (chain_column_new_gen column dimension),
               g_barcode :=
                 g_barcode s @
                   [\<lparr>bar_dim = dimension, birth = int (g_nextInsertIndex s), death = - 1\<rparr>],
               g_indexToBar :=
                 map_emplace (g_indexToBar s) (g_nextInsertIndex s) (length (g_barcode s)),
               g_nextInsertIndex := Suc (g_nextInsertIndex s)\<rparr>))"

definition insert_chain_paired_gen ::
  "(nat \<times> 'f) list \<Rightarrow> int \<Rightarrow> nat \<Rightarrow> 'f gchain_matrix \<Rightarrow> error + 'f gchain_matrix"
where
  "insert_chain_paired_gen column dimension pair s =
     (if column = [] then Inl Undefined_behaviour
      else
        (let n = g_nextInsertIndex s;
             p2c = map_emplace (g_pivotToColumnIndex s) (fst (last column)) n;
             m1 = map_emplace (g_matrix s) n (chain_column_new_gen column dimension)
         in
         case map_at m1 n of
           Inl e \<Rightarrow> Inl e
         | Inr newCol \<Rightarrow>
             (let m2 = m1(n \<mapsto> newCol\<lparr>gc_pairedColumn := int pair\<rparr>) in
              case map_at m2 pair of
                Inl e \<Rightarrow> Inl e
              | Inr pairCol \<Rightarrow>
                  (let m3 = m2(pair \<mapsto> pairCol\<lparr>gc_pairedColumn := int n\<rparr>) in
                   case map_at_int (g_indexToBar s) (gc_pivot pairCol) of
                     Inl e \<Rightarrow> Inl e
                   | Inr pos \<Rightarrow>
                       Inr (s\<lparr>g_pivotToColumnIndex := p2c,
                              g_matrix := m3,
                              g_barcode :=
                                (g_barcode s)[pos := (g_barcode s ! pos)\<lparr>death := int n\<rparr>],
                              g_indexToBar := map_emplace (g_indexToBar s) n pos,
                              g_nextInsertIndex := Suc n\<rparr>)))))"

datatype 'f reduced_gen =
  New_cycle_gen "(nat \<times> 'f) list"
| New_pair_gen "(nat \<times> 'f) list" "(nat \<times> 'f) list" "nat list"

definition reduce_column_gen ::
  "'f::field Field_type \<Rightarrow> 'f gchain_matrix \<Rightarrow> (nat \<times> 'f) list \<Rightarrow> nat list \<Rightarrow>
   (error + 'f reduced_gen) option"
where
  "reduce_column_gen F s column currentEssentialCycleIndices =
     (case map_at (g_pivotToColumnIndex s) (fst (last column)) of
        Inl e \<Rightarrow> Some (Inl e)
      | Inr currentPivot \<Rightarrow>
          (case reduce_while_paired_gen F s column [] currentPivot of
             None \<Rightarrow> None
           | Some (Inl e) \<Rightarrow> Some (Inl e)
           | Some (Inr (Reduced_to_zero_gen chainsInH)) \<Rightarrow> Some (Inr (New_cycle_gen chainsInH))
           | Some (Inr (Remaining_gen column' chainsInH)) \<Rightarrow>
               (case reduce_until_empty_gen F s column' chainsInH []
                       currentEssentialCycleIndices of
                  None \<Rightarrow> None
                | Some (Inl e) \<Rightarrow> Some (Inl e)
                | Some (Inr r) \<Rightarrow>
                    Some (Inr (New_pair_gen (fst r) (fst (snd r)) (snd (snd r)))))))"

definition insert_reduced_gen ::
  "'f::field Field_type \<Rightarrow> 'f gchain_matrix \<Rightarrow> int \<Rightarrow> nat list \<Rightarrow> 'f reduced_gen \<Rightarrow>
   error + ('f gchain_matrix \<times> nat list)"
where
  "insert_reduced_gen F s dim currentEssentialCycleIndices r =
     (case r of
        New_cycle_gen chainsInH \<Rightarrow>
          (case build_from_H_gen F s [] chainsInH of
             Inl e \<Rightarrow> Inl e
           | Inr column \<Rightarrow>
               (case insert_chain_gen column dim s of
                  Inl e \<Rightarrow> Inl e
                | Inr s' \<Rightarrow> Inr (s', currentEssentialCycleIndices)))
      | New_pair_gen chainsInH chainsInF essentialCycleIndices \<Rightarrow>
          (case essentialCycleIndices of
             [] \<Rightarrow> Inl Undefined_behaviour
           | chain_fp # others \<Rightarrow>
               (case update_largest_death_in_F_gen F chainsInF chain_fp s of
                  Inl e \<Rightarrow> Inl e
                | Inr s1 \<Rightarrow>
                    (case build_from_H_gen F s1 [] chainsInH of
                       Inl e \<Rightarrow> Inl e
                     | Inr column \<Rightarrow>
                         (case insert_chain_paired_gen column dim chain_fp s1 of
                            Inl e \<Rightarrow> Inl e
                          | Inr s' \<Rightarrow> Inr (s', essentialCycleIndices))))))"

text \<open>
  \<open>_reduce_boundary\<close>: the temporary column is the set of the cells of the boundary,
  and an empty boundary gives the cell of the new face with coefficient 1.
\<close>

definition reduce_boundary_gen ::
  "'f::field Field_type \<Rightarrow> (nat \<times> 'f) list \<Rightarrow> nat list \<Rightarrow> 'f gchain_matrix \<Rightarrow>
   (error + ('f gchain_matrix \<times> nat list)) option"
where
  "reduce_boundary_gen F boundary currentEssentialCycleIndices s =
     (let column = fold cell_insert boundary [];
          dim = (if boundary = [] then 0 else int (length boundary) - 1)
      in
      if boundary = [] then
        (case insert_chain_gen (cell_insert (g_nextInsertIndex s, 1) column) dim s of
           Inl e \<Rightarrow> Some (Inl e)
         | Inr s' \<Rightarrow> Some (Inr (s', currentEssentialCycleIndices)))
      else
        (case reduce_column_gen F s column currentEssentialCycleIndices of
           None \<Rightarrow> None
         | Some (Inl e) \<Rightarrow> Some (Inl e)
         | Some (Inr r) \<Rightarrow> Some (insert_reduced_gen F s dim currentEssentialCycleIndices r)))"

definition count_dimension_gen :: "'c list \<Rightarrow> 'f gchain_matrix \<Rightarrow> 'f gchain_matrix" where
  "count_dimension_gen boundary s =
     (let dim = (if length boundary = 0 then 0 else length boundary - 1);
          dims = (if length (g_dimensions s) \<le> dim
                  then g_dimensions s @ replicate (Suc dim - length (g_dimensions s)) 0
                  else g_dimensions s)
      in s\<lparr>g_maxDim := (if g_maxDim s < int dim then int dim else g_maxDim s),
           g_dimensions := dims[dim := Suc (dims ! dim)]\<rparr>)"

definition insert_boundary_with_gen ::
  "'f::field Field_type \<Rightarrow> (nat \<times> 'f) list \<Rightarrow> nat list \<Rightarrow> 'f gchain_matrix \<Rightarrow>
   (error + ('f gchain_matrix \<times> nat list)) option"
where
  "insert_boundary_with_gen F boundary currentEssentialCycleIndices s =
     reduce_boundary_gen F boundary currentEssentialCycleIndices (count_dimension_gen boundary s)"

definition insert_boundary_gen ::
  "'f::field Field_type \<Rightarrow> (nat \<times> 'f) list \<Rightarrow> 'f gchain_matrix \<Rightarrow>
   (error + 'f gchain_matrix) option"
where
  "insert_boundary_gen F boundary s =
     (case insert_boundary_with_gen F boundary [] s of
        None \<Rightarrow> None
      | Some (Inl e) \<Rightarrow> Some (Inl e)
      | Some (Inr r) \<Rightarrow> Some (Inr (fst r)))"

subsection \<open>A field with three elements\<close>

text \<open>
  Modelled from the spec: the prime field with three elements, "standard modular
  arithmetic mod a prime p" for \<open>p = 3\<close>, as an instance of the coefficients.
\<close>

datatype Z3 = Z3_0 | Z3_1 | Z3_2

fun Z3_value :: "Z3 \<Rightarrow> nat" where
  "Z3_value Z3_0 = 0"
| "Z3_value Z3_1 = 1"
| "Z3_value Z3_2 = 2"

definition Z3_of :: "nat \<Rightarrow> Z3" where
  "Z3_of n = (if n mod 3 = 0 then Z3_0 else if n mod 3 = 1 then Z3_1 else Z3_2)"

instantiation Z3 :: field
begin

definition zero_Z3 :: Z3 where "zero_Z3 = Z3_0"

definition one_Z3 :: Z3 where "one_Z3 = Z3_1"

definition plus_Z3 :: "Z3 \<Rightarrow> Z3 \<Rightarrow> Z3" where
  "plus_Z3 a b = Z3_of (Z3_value a + Z3_value b)"

definition uminus_Z3 :: "Z3 \<Rightarrow> Z3" where
  "uminus_Z3 a = Z3_of (3 - Z3_value a)"

definition minus_Z3 :: "Z3 \<Rightarrow> Z3 \<Rightarrow> Z3" where
  "minus_Z3 a b = Z3_of (Z3_value a + (3 - Z3_value b))"

definition times_Z3 :: "Z3 \<Rightarrow> Z3 \<Rightarrow> Z3" where
  "times_Z3 a b = Z3_of (Z3_value a * Z3_value b)"

definition inverse_Z3 :: "Z3 \<Rightarrow> Z3" where
  "inverse_Z3 a = a"

definition divide_Z3 :: "Z3 \<Rightarrow> Z3 \<Rightarrow> Z3" where
  "divide_Z3 a b = Z3_of (Z3_value a * Z3_value b)"

instance
proof
  fix a b c :: Z3
  show "a + b + c = a + (b + c)"
    by (cases a; cases b; cases c) (simp_all add: plus_Z3_def Z3_of_def)
  show "a + b = b + a" by (simp add: plus_Z3_def add.commute)
  show "0 + a = a" by (cases a) (simp_all add: plus_Z3_def zero_Z3_def Z3_of_def)
  show "- a + a = 0" by (cases a) (simp_all add: plus_Z3_def uminus_Z3_def zero_Z3_def Z3_of_def)
  show "a - b = a + - b"
    by (cases a; cases b) (simp_all add: plus_Z3_def minus_Z3_def uminus_Z3_def Z3_of_def)
  show "a * b * c = a * (b * c)"
    by (cases a; cases b; cases c) (simp_all add: times_Z3_def Z3_of_def)
  show "a * b = b * a" by (simp add: times_Z3_def mult.commute)
  show "1 * a = a" by (cases a) (simp_all add: times_Z3_def one_Z3_def Z3_of_def)
  show "(a + b) * c = a * c + b * c"
    by (cases a; cases b; cases c) (simp_all add: times_Z3_def plus_Z3_def Z3_of_def)
  show "(0::Z3) \<noteq> 1" by (simp add: zero_Z3_def one_Z3_def)
  show "a \<noteq> 0 \<Longrightarrow> inverse a * a = 1"
    by (cases a) (simp_all add: times_Z3_def inverse_Z3_def zero_Z3_def one_Z3_def Z3_of_def)
  show "a div b = a * inverse b" by (simp add: divide_Z3_def times_Z3_def inverse_Z3_def)
  show "inverse (0::Z3) = 0" by (simp add: inverse_Z3_def)
qed

end

definition Z3_field :: "Z3 Field_type" where
  "Z3_field = \<lparr>ft_characteristic = 3, ft_to_unsigned = Z3_value\<rparr>"

section \<open>Specification vocabulary\<close>

subsection \<open>Reachable states of the chain matrix\<close>

text \<open>
  The states a chain matrix goes through when it is built by calls of
  \<open>insert_boundary\<close>: the empty matrix, the state after a call that returned, and
  the states in the middle of a call, after some of the column additions of
  \<open>_update_largest_death_in_F\<close> have been made.
\<close>

inductive reachable :: "chain_matrix \<Rightarrow> bool" where
  reachable_empty: "reachable empty_chain_matrix"
| reachable_insert:
    "reachable s \<Longrightarrow> insert_boundary boundary s = Some (Inr s') \<Longrightarrow> reachable s'"
| reachable_addition:
    "reachable s \<Longrightarrow> boundary \<noteq> [] \<Longrightarrow>
     reduce_column (count_dimension boundary s) (fold set_insert boundary []) [] =
       Some (Inr (New_pair chainsInH (chain_fp # others))) \<Longrightarrow>
     add_all_to (take k others) chain_fp (count_dimension boundary s) = Inr s' \<Longrightarrow>
     reachable s'"

text \<open>
  The pivot bijection: two columns that are not empty and report the same pivot are
  the same column; the pivot of a column that is not empty is a key of
  \<open>pivotToColumnIndex_\<close> and leads to that column; and every entry of
  \<open>pivotToColumnIndex_\<close> leads to a column that reports the key as its pivot.
\<close>

definition pivot_bijection :: "chain_matrix \<Rightarrow> bool" where
  "pivot_bijection s \<longleftrightarrow>
     (\<forall>c1 c2 col1 col2.
        matrix s c1 = Some col1 \<and> matrix s c2 = Some col2 \<and>
        \<not> is_empty col1 \<and> \<not> is_empty col2 \<and> get_pivot col1 = get_pivot col2
        \<longrightarrow> c1 = c2) \<and>
     (\<forall>c col. matrix s c = Some col \<and> \<not> is_empty col
        \<longrightarrow> map_at_int (pivotToColumnIndex s) (get_pivot col) = Inr c) \<and>
     (\<forall>p c. pivotToColumnIndex s p = Some c
        \<longrightarrow> (\<exists>col. matrix s c = Some col \<and> get_pivot col = int p))"

text \<open>
  The sum of a list of Z2 chains, each given by its set of rows: the sum of two
  chains is their symmetric difference.
\<close>

definition z2_sum :: "nat set list \<Rightarrow> nat set" where
  "z2_sum cs = fold sym_diff cs {}"

definition rows_of :: "chain_matrix \<Rightarrow> nat \<Rightarrow> nat set" where
  "rows_of s c = (case matrix s c of None \<Rightarrow> {} | Some col \<Rightarrow> set (cc_column col))"

text \<open>The column that owns pivot \<open>i\<close>, when there is one.\<close>

definition pivot_owner :: "chain_matrix \<Rightarrow> nat \<Rightarrow> chain_column option" where
  "pivot_owner s i =
     (case pivotToColumnIndex s i of None \<Rightarrow> None | Some c \<Rightarrow> matrix s c)"

subsection \<open>Well-formed states\<close>

text \<open>
  The properties that every state reached by insertions has, and on which the
  reduction relies: the columns and the keys of \<open>pivotToColumnIndex_\<close> are the
  indices below \<open>nextInsertIndex_\<close>; column \<open>c\<close> has pivot \<open>c\<close>, which is its
  largest row, and is reached from its pivot; a paired column points to an existing
  column that points back; and every index has a bar.
\<close>

definition well_formed :: "chain_matrix \<Rightarrow> bool" where
  "well_formed s \<longleftrightarrow>
     (\<forall>c. (matrix s c \<noteq> None) = (c < nextInsertIndex s)) \<and>
     (\<forall>p. pivotToColumnIndex s p = (if p < nextInsertIndex s then Some p else None)) \<and>
     (\<forall>c col. matrix s c = Some col \<longrightarrow>
        cc_pivot col = int c \<and> sorted_wrt (<) (cc_column col) \<and>
        cc_column col \<noteq> [] \<and> last (cc_column col) = c) \<and>
     (\<forall>c col. matrix s c = Some col \<longrightarrow>
        cc_pairedColumn col = - 1 \<or>
        (0 \<le> cc_pairedColumn col \<and>
         (\<exists>col'. matrix s (nat (cc_pairedColumn col)) = Some col' \<and>
                 cc_pairedColumn col' = int c))) \<and>
     (\<forall>k. case indexToBar s k of
             None \<Rightarrow> nextInsertIndex s \<le> k
           | Some pos \<Rightarrow> k < nextInsertIndex s \<and> pos < length (barcode s))"

text \<open>A list of indices of columns that exist and are paired.\<close>

definition valid_chains :: "chain_matrix \<Rightarrow> nat list \<Rightarrow> bool" where
  "valid_chains s H \<longleftrightarrow>
     (\<forall>h\<in>set H. h < nextInsertIndex s \<and> (\<exists>col. matrix s h = Some col \<and> is_paired col))"

text \<open>
  The list of unpaired columns used so far by the second loop: their indices
  decrease, and each is above every row still in the temporary column.
\<close>

definition essential_chains :: "chain_matrix \<Rightarrow> nat list \<Rightarrow> nat list \<Rightarrow> bool" where
  "essential_chains s ess column \<longleftrightarrow>
     sorted_wrt (>) ess \<and>
     (\<forall>e\<in>set ess.
        (\<exists>col. matrix s e = Some col \<and> \<not> is_paired col) \<and> (\<forall>r\<in>set column. r < e))"



subsection \<open>Results of calls and the two-point complex\<close>

text \<open>
  A call has succeeded when it has returned without a failure; \<open>result\<close> is what it
  returned.
\<close>

definition succeeded :: "(error + 'a) option \<Rightarrow> bool" where
  "succeeded r = (case r of Some (Inr v) \<Rightarrow> True | _ \<Rightarrow> False)"

definition result :: "(error + 'a) option \<Rightarrow> 'a" where
  "result r = projr (the r)"

text \<open>The matrix of two vertices, and the insertion of the edge between them.\<close>

definition two_vertices :: chain_matrix where
  "two_vertices = result (chain_matrix_of_boundaries [[], []])"


definition two_points :: chain_matrix where
  "two_points = result (chain_matrix_of_boundaries [[], [], [0, 1]])"


subsection \<open>The selection of representative cycles\<close>

text \<open>
  The rule for representative cycles in the spec's words: the column that owns pivot
  \<open>i\<close> is selected when it is unpaired or \<open>i\<close> is below the index of its paired
  column, and its cycle is the list of its rows, sorted for a column type that does not
  keep its rows in order.
\<close>

definition cycle_selected :: "chain_matrix \<Rightarrow> nat \<Rightarrow> bool" where
  "cycle_selected s i =
     (case pivot_owner s i of
        None \<Rightarrow> False
      | Some col \<Rightarrow> \<not> is_paired col \<or> int i < get_paired_chain_index col)"

definition cycle_of :: "bool \<Rightarrow> chain_matrix \<Rightarrow> nat \<Rightarrow> nat list" where
  "cycle_of unordered s i =
     (case pivot_owner s i of
        None \<Rightarrow> []
      | Some col \<Rightarrow> if unordered then sort (cc_column col) else cc_column col)"

subsection \<open>Sub-products of the characteristics and partial inverses\<close>

text \<open>
  A sub-product of the characteristics is a positive divisor of their product (the
  product of any selection of the primes is one). The invertible primes of an element
  for a sub-product are the primes of the sub-product that do not divide the element.
  A partial inverse is an element in the range of the product that is an inverse of the
  element modulo each invertible prime and zero modulo every other prime.
\<close>

definition sub_product :: "multi_field \<Rightarrow> int \<Rightarrow> bool" where
  "sub_product mf Q \<longleftrightarrow> 0 < Q \<and> Q dvd productOfAllCharacteristics mf"

definition invertible_primes ::
  "multi_field \<Rightarrow> Shared_multi_field_element \<Rightarrow> int \<Rightarrow> nat list" where
  "invertible_primes mf x Q =
     filter (\<lambda>p. int p dvd Q \<and> \<not> int p dvd mf_element x) (primes mf)"

definition partial_inverse_of ::
  "multi_field \<Rightarrow> Shared_multi_field_element \<Rightarrow> int \<Rightarrow> Shared_multi_field_element \<Rightarrow> bool"
where
  "partial_inverse_of mf x Q r \<longleftrightarrow>
     0 \<le> mf_element r \<and> mf_element r < productOfAllCharacteristics mf \<and>
     list_all
       (\<lambda>p. if p \<in> set (invertible_primes mf x Q)
            then (mf_element r * mf_element x) mod int p = 1
            else mf_element r mod int p = 0)
       (primes mf)"

subsection \<open>All the states of a chain matrix\<close>

text \<open>
  The states a chain matrix goes through when boundaries are inserted by either
  \<open>insert_boundary\<close>, with any vector passed as \<open>currentEssentialCycleIndices\<close>:
  the empty matrix, the state at the start of the reduction of a call (the dimension
  counters updated; this is also what a call that fails in the reduction leaves), the
  state after a call that returned, and the states between the column additions of
  \<open>_update_largest_death_in_F\<close>.
\<close>

inductive reached :: "chain_matrix \<Rightarrow> bool" where
  reached_empty: "reached empty_chain_matrix"
| reached_counted: "reached s \<Longrightarrow> reached (count_dimension boundary s)"
| reached_insert:
    "reached s \<Longrightarrow>
     insert_boundary_with boundary currentEssentialCycleIndices s = Some (Inr (s', ess)) \<Longrightarrow>
     reached s'"
| reached_addition:
    "reached s \<Longrightarrow> boundary \<noteq> [] \<Longrightarrow>
     reduce_column (count_dimension boundary s) (fold set_insert boundary [])
       currentEssentialCycleIndices =
       Some (Inr (New_pair chainsInH (chain_fp # others))) \<Longrightarrow>
     add_all_to (take k others) chain_fp (count_dimension boundary s) = Inr s' \<Longrightarrow>
     reached s'"

text \<open>The same for a matrix with coefficients in another field.\<close>

inductive reached_gen :: "'f::field Field_type \<Rightarrow> 'f gchain_matrix \<Rightarrow> bool" for F where
  reached_gen_empty: "reached_gen F empty_chain_matrix_gen"
| reached_gen_counted:
    "reached_gen F s \<Longrightarrow> reached_gen F (count_dimension_gen (boundary :: (nat \<times> 'f) list) s)"
| reached_gen_insert:
    "reached_gen F s \<Longrightarrow>
     insert_boundary_with_gen F boundary currentEssentialCycleIndices s = Some (Inr (s', ess)) \<Longrightarrow>
     reached_gen F s'"
| reached_gen_step:
    "reached_gen F s \<Longrightarrow> boundary \<noteq> [] \<Longrightarrow>
     reduce_column_gen F (count_dimension_gen boundary s) (fold cell_insert boundary [])
       currentEssentialCycleIndices =
       Some (Inr (New_pair_gen chainsInH chainsInF (chain_fp # others))) \<Longrightarrow>
     apply_column_steps F (take k (update_steps chainsInF chain_fp))
       (count_dimension_gen boundary s) = Inr s' \<Longrightarrow>
     reached_gen F s'"

text \<open>The pivot bijection of such a matrix.\<close>

definition pivot_bijection_gen :: "'f gchain_matrix \<Rightarrow> bool" where
  "pivot_bijection_gen s \<longleftrightarrow>
     (\<forall>c1 c2 col1 col2.
        g_matrix s c1 = Some col1 \<and> g_matrix s c2 = Some col2 \<and>
        \<not> is_empty_gen col1 \<and> \<not> is_empty_gen col2 \<and> gc_pivot col1 = gc_pivot col2
        \<longrightarrow> c1 = c2) \<and>
     (\<forall>c col. g_matrix s c = Some col \<and> \<not> is_empty_gen col
        \<longrightarrow> map_at_int (g_pivotToColumnIndex s) (gc_pivot col) = Inr c) \<and>
     (\<forall>p c. g_pivotToColumnIndex s p = Some c
        \<longrightarrow> (\<exists>col. g_matrix s c = Some col \<and> gc_pivot col = int p))"

text \<open>
  What the insertions keep whatever the caller passes: the columns and the keys of
  \<open>pivotToColumnIndex_\<close> are the indices below \<open>nextInsertIndex_\<close>, the rows of
  a column are below \<open>nextInsertIndex_\<close> and in order, the pivot of a column is a
  key that leads to the column, and a key leads to a column with that pivot.
\<close>

definition pivots_consistent :: "chain_matrix \<Rightarrow> bool" where
  "pivots_consistent s \<longleftrightarrow>
     (\<forall>c. (matrix s c \<noteq> None) = (c < nextInsertIndex s)) \<and>
     (\<forall>p. (pivotToColumnIndex s p \<noteq> None) = (p < nextInsertIndex s)) \<and>
     (\<forall>c col. matrix s c = Some col \<longrightarrow>
        sorted_wrt (<) (cc_column col) \<and> (\<forall>r\<in>set (cc_column col). r < nextInsertIndex s) \<and>
        0 \<le> cc_pivot col \<and> pivotToColumnIndex s (nat (cc_pivot col)) = Some c) \<and>
     (\<forall>p c. pivotToColumnIndex s p = Some c \<longrightarrow>
        (\<exists>col. matrix s c = Some col \<and> cc_pivot col = int p))"

definition cell_rows :: "(nat \<times> 'f) list \<Rightarrow> nat set" where
  "cell_rows c = fst ` set c"

definition sorted_cells :: "(nat \<times> 'f) list \<Rightarrow> bool" where
  "sorted_cells c = sorted_wrt (<) (map fst c)"

definition pivots_consistent_gen :: "'f gchain_matrix \<Rightarrow> bool" where
  "pivots_consistent_gen s \<longleftrightarrow>
     (\<forall>c. (g_matrix s c \<noteq> None) = (c < g_nextInsertIndex s)) \<and>
     (\<forall>p. (g_pivotToColumnIndex s p \<noteq> None) = (p < g_nextInsertIndex s)) \<and>
     (\<forall>c col. g_matrix s c = Some col \<longrightarrow>
        sorted_cells (gc_column col) \<and> (\<forall>r\<in>cell_rows (gc_column col). r < g_nextInsertIndex s) \<and>
        0 \<le> gc_pivot col \<and> g_pivotToColumnIndex s (nat (gc_pivot col)) = Some c) \<and>
     (\<forall>p c. g_pivotToColumnIndex s p = Some c \<longrightarrow>
        (\<exists>col. g_matrix s c = Some col \<and> gc_pivot col = int p))"

text \<open>Three vertices, and two vertices over the field with three elements.\<close>

definition three_vertices :: chain_matrix where
  "three_vertices = result (chain_matrix_of_boundaries [[], [], []])"

definition two_vertices_gen :: "Z3 gchain_matrix" where
  "two_vertices_gen =
     fst (result (insert_boundary_with_gen Z3_field [] []
       (fst (result (insert_boundary_with_gen Z3_field [] [] empty_chain_matrix_gen)))))"

section \<open>Properties of the Z2 field element\<close>

lemma Z2_of_int_1: "z2_element (Z2_field_element_of_int 1) = True"
  by (simp add: Z2_field_element_of_int_def)

text \<open>
  C4. The claim: \<open>x.get_inverse()\<close> is the multiplicative inverse, so for the
  element of value 1 the product \<open>x * x.get_inverse()\<close> is the multiplicative
  identity. The code returns the default element (value 0) for the element of
  value 1, so the product is the additive identity and differs from the
  multiplicative identity.
\<close>

theorem Z2_get_inverse_of_one:
  "Z2_get_value (Z2_get_inverse (Z2_field_element_of_int 1)) = 0 \<and>
   Z2_times (Z2_field_element_of_int 1) (Z2_get_inverse (Z2_field_element_of_int 1))
     = Z2_get_additive_identity \<and>
   Z2_times (Z2_field_element_of_int 1) (Z2_get_inverse (Z2_field_element_of_int 1))
     \<noteq> Z2_get_multiplicative_identity"
  by (simp add: Z2_get_inverse_def Z2_times_def Z2_times_assign_def Z2_get_value_def
      Z2_get_additive_identity_def Z2_get_multiplicative_identity_def
      Z2_field_element_default_def Z2_field_element_of_int_def)

section \<open>Z2 column addition\<close>

text \<open>
  On lists that are strictly increasing, insertion, erasure and the toggling of one
  row behave like the corresponding operations on sets.
\<close>

lemma set_set_insert: "set (set_insert v c) = insert v (set c)"
  by (induction c) auto

lemma sorted_set_insert: "sorted_wrt (<) c \<Longrightarrow> sorted_wrt (<) (set_insert v c)"
  by (induction c) (auto simp: set_set_insert)

lemma set_set_erase: "sorted_wrt (<) c \<Longrightarrow> set (set_erase v c) = set c - {v}"
  by (induction c) auto

lemma sorted_set_erase: "sorted_wrt (<) c \<Longrightarrow> sorted_wrt (<) (set_erase v c)"
  by (induction c) (auto simp: set_set_erase)

lemma sorted_set_toggle: "sorted_wrt (<) c \<Longrightarrow> sorted_wrt (<) (set_toggle v c)"
  by (simp add: set_toggle_def sorted_set_insert sorted_set_erase)

lemma set_set_toggle:
  "sorted_wrt (<) c \<Longrightarrow> set (set_toggle v c) = sym_diff (set c) {v}"
  by (auto simp: set_toggle_def set_find_def set_set_insert set_set_erase)

lemma sorted_fold_toggle:
  "sorted_wrt (<) c \<Longrightarrow> sorted_wrt (<) (fold set_toggle b c)"
  by (induction b arbitrary: c) (simp_all add: sorted_set_toggle)

lemma set_fold_toggle:
  "sorted_wrt (<) c \<Longrightarrow> distinct b \<Longrightarrow> set (fold set_toggle b c) = sym_diff (set c) (set b)"
proof (induction b arbitrary: c)
  case Nil
  then show ?case by simp
next
  case (Cons v b)
  have "set (fold set_toggle b (set_toggle v c)) = sym_diff (set (set_toggle v c)) (set b)"
    using Cons by (simp add: sorted_set_toggle)
  also have "\<dots> = sym_diff (sym_diff (set c) {v}) (set b)"
    using Cons.prems by (simp add: set_set_toggle)
  also have "\<dots> = sym_diff (set c) (set (v # b))"
    using Cons.prems by auto
  finally show ?case by simp
qed

lemma sym_diff_twice: "sym_diff (sym_diff A B) B = A"
  by auto

lemma strict_sorted_unique:
  "sorted_wrt (<) (xs :: nat list) \<Longrightarrow> sorted_wrt (<) ys \<Longrightarrow> set xs = set ys \<Longrightarrow> xs = ys"
  by (simp add: strict_sorted_iff sorted_distinct_set_unique)

lemma fold_toggle_twice:
  assumes "sorted_wrt (<) a" and "distinct b"
  shows "fold set_toggle b (fold set_toggle b a) = a"
proof (rule strict_sorted_unique)
  show "sorted_wrt (<) (fold set_toggle b (fold set_toggle b a))"
    using assms by (simp add: sorted_fold_toggle)
  show "sorted_wrt (<) a" by fact
  show "set (fold set_toggle b (fold set_toggle b a)) = set a"
    using assms by (simp add: set_fold_toggle sorted_fold_toggle sym_diff_twice)
qed

lemma set_add_z2_cells:
  "sorted_wrt (<) a \<Longrightarrow> sorted_wrt (<) b \<Longrightarrow>
   set (fst (add_z2_cells opts pv a b)) = sym_diff (set a) (set b)"
proof (induction opts pv a b rule: add_z2_cells.induct)
  case (1 opts pv src)
  then show ?case by simp
next
  case (2 opts pv t tgt)
  then show ?case by simp
next
  case (3 opts pv t tgt s src)
  have ts: "\<forall>x\<in>set tgt. t < x" and ss: "\<forall>x\<in>set src. s < x"
    and st: "sorted_wrt (<) tgt" and sr: "sorted_wrt (<) src"
    using 3(4,5) by simp_all
  show ?case
  proof (cases "t < s")
    case True
    have "set (fst (add_z2_cells opts pv tgt (s # src))) = sym_diff (set tgt) (set (s # src))"
      using 3(1)[OF True st 3(5)] .
    moreover have "t \<notin> set (s # src)" using True ss by auto
    moreover have "t \<notin> set tgt" using ts by auto
    ultimately show ?thesis using True by (auto simp: case_prod_beta)
  next
    case nlt: False
    show ?thesis
    proof (cases "s < t")
      case True
      have "set (fst (add_z2_cells opts pv (t # tgt) src)) = sym_diff (set (t # tgt)) (set src)"
        using 3(2)[OF nlt True 3(4) sr] .
      moreover have "s \<notin> set (t # tgt)" using True ts by auto
      moreover have "s \<notin> set src" using ss by auto
      ultimately show ?thesis using True nlt by (auto simp: case_prod_beta)
    next
      case False
      then have eq: "t = s" using nlt by simp
      have "set (fst (add_z2_cells opts pv tgt src)) = sym_diff (set tgt) (set src)"
        using 3(3)[OF nlt False st sr] .
      moreover have "s \<notin> set tgt" "s \<notin> set src" using ts ss eq by auto
      ultimately show ?thesis using eq by (auto simp: case_prod_beta)
    qed
  qed
qed

lemma sorted_add_z2_cells:
  "sorted_wrt (<) a \<Longrightarrow> sorted_wrt (<) b \<Longrightarrow>
   sorted_wrt (<) (fst (add_z2_cells opts pv a b))"
proof (induction opts pv a b rule: add_z2_cells.induct)
  case (1 opts pv src)
  then show ?case by simp
next
  case (2 opts pv t tgt)
  then show ?case by simp
next
  case (3 opts pv t tgt s src)
  have ts: "\<forall>x\<in>set tgt. t < x" and ss: "\<forall>x\<in>set src. s < x"
    and st: "sorted_wrt (<) tgt" and sr: "sorted_wrt (<) src"
    using 3(4,5) by simp_all
  show ?case
  proof (cases "t < s")
    case True
    have "sorted_wrt (<) (fst (add_z2_cells opts pv tgt (s # src)))"
      using 3(1)[OF True st 3(5)] .
    moreover have "set (fst (add_z2_cells opts pv tgt (s # src))) = sym_diff (set tgt) (set (s # src))"
      using st 3(5) by (rule set_add_z2_cells)
    moreover have "\<forall>x\<in>set (s # src). t < x" using True ss by auto
    ultimately show ?thesis using True ts by (auto simp: case_prod_beta)
  next
    case nlt: False
    show ?thesis
    proof (cases "s < t")
      case True
      have "sorted_wrt (<) (fst (add_z2_cells opts pv (t # tgt) src))"
        using 3(2)[OF nlt True 3(4) sr] .
      moreover have "set (fst (add_z2_cells opts pv (t # tgt) src)) = sym_diff (set (t # tgt)) (set src)"
        using 3(4) sr by (rule set_add_z2_cells)
      moreover have "\<forall>x\<in>set (t # tgt). s < x" using True ts by auto
      ultimately show ?thesis using True nlt ss by (auto simp: case_prod_beta)
    next
      case False
      have "sorted_wrt (<) (fst (add_z2_cells opts pv tgt src))"
        using 3(3)[OF nlt False st sr] .
      then show ?thesis using nlt False by (simp add: case_prod_beta)
    qed
  qed
qed

lemma add_z2_cells_twice:
  assumes "sorted_wrt (<) a" and "sorted_wrt (<) b"
  shows "fst (add_z2_cells opts pv' (fst (add_z2_cells opts pv a b)) b) = a"
proof (rule strict_sorted_unique)
  show "sorted_wrt (<) (fst (add_z2_cells opts pv' (fst (add_z2_cells opts pv a b)) b))"
    using assms by (simp add: sorted_add_z2_cells)
  show "sorted_wrt (<) a" by fact
  show "set (fst (add_z2_cells opts pv' (fst (add_z2_cells opts pv a b)) b)) = set a"
    using assms by (simp add: set_add_z2_cells sorted_add_z2_cells sym_diff_twice)
qed

lemma il_plus_assign_z2_columns:
  "il_column (fst (il_plus_assign_z2 opts c d)) =
     fst (add_z2_cells opts (il_pivot c) (il_column c) (il_column d))"
  "il_column (snd (il_plus_assign_z2 opts c d)) = il_column d"
  by (simp_all add: il_plus_assign_z2_def il_add_z2_def case_prod_beta)

text \<open>
  C6. Adding a Z2 column \<open>b\<close> into a column \<open>a\<close> twice in a row gives back \<open>a\<close>:
  for \<open>Z2_set_column::add\<close> the whole column object is restored; for the
  intrusive list column the cells are restored, by \<open>_add\<close> and by \<open>operator+=\<close>
  (which may exchange pivots between the two columns). The columns are ordered by row
  index, as the containers keep them.
\<close>

theorem z2_column_addition_involution:
  assumes "sorted_wrt (<) (zs_column a)" and "sorted_wrt (<) (zs_column b)"
    and "sorted_wrt (<) (il_column c)" and "sorted_wrt (<) (il_column d)"
  shows "Z2_set_column_add (Z2_set_column_add a b) b = a \<and>
         il_column (fst (il_add_z2 opts (fst (il_add_z2 opts c (il_column d))) (il_column d)))
           = il_column c \<and>
         il_column (fst (il_plus_assign_z2 opts (fst (il_plus_assign_z2 opts c d))
                                                (snd (il_plus_assign_z2 opts c d))))
           = il_column c"
proof -
  have "distinct (zs_column b)" using assms(2) by (simp add: strict_sorted_iff)
  then have 1: "Z2_set_column_add (Z2_set_column_add a b) b = a"
    using assms(1) by (simp add: Z2_set_column_add_def fold_toggle_twice)
  have 2: "il_column (fst (il_add_z2 opts (fst (il_add_z2 opts c (il_column d))) (il_column d)))
             = il_column c"
    using add_z2_cells_twice[OF assms(3,4), of opts "il_pivot c" "il_pivot c"]
    by (simp add: il_add_z2_def case_prod_beta)
  have 3: "il_column (fst (il_plus_assign_z2 opts (fst (il_plus_assign_z2 opts c d))
                                                (snd (il_plus_assign_z2 opts c d))))
             = il_column c"
    using add_z2_cells_twice[OF assms(3,4), of opts _ "il_pivot c"]
    by (simp add: il_plus_assign_z2_columns)
  from 1 2 3 show ?thesis by simp
qed

theorem z2_column_addition_involution_witness:
  "sorted_wrt (<) (zs_column \<lparr>zs_dim = 1, zs_column = [0, 2]\<rparr>) \<and>
   sorted_wrt (<) (zs_column \<lparr>zs_dim = 1, zs_column = [1, 2]\<rparr>) \<and>
   sorted_wrt (<) (il_column \<lparr>il_column = [0, 2 :: nat], il_dim = 1, il_pivot = 2\<rparr>) \<and>
   sorted_wrt (<) (il_column \<lparr>il_column = [1, 2 :: nat], il_dim = 1, il_pivot = 1\<rparr>) \<and>
   Z2_set_column_add \<lparr>zs_dim = 1, zs_column = [0, 2]\<rparr> \<lparr>zs_dim = 1, zs_column = [1, 2]\<rparr>
     = \<lparr>zs_dim = 1, zs_column = [0, 1]\<rparr> \<and>
   Z2_set_column_add \<lparr>zs_dim = 1, zs_column = [0, 1]\<rparr> \<lparr>zs_dim = 1, zs_column = [1, 2]\<rparr>
     = \<lparr>zs_dim = 1, zs_column = [0, 2]\<rparr> \<and>
   il_column (fst (il_plus_assign_z2 \<lparr>isNonBasic = True, is_of_boundary_type = False\<rparr>
        (fst (il_plus_assign_z2 \<lparr>isNonBasic = True, is_of_boundary_type = False\<rparr>
           \<lparr>il_column = [0, 2], il_dim = 1, il_pivot = 2\<rparr>
           \<lparr>il_column = [1, 2], il_dim = 1, il_pivot = 1\<rparr>))
        (snd (il_plus_assign_z2 \<lparr>isNonBasic = True, is_of_boundary_type = False\<rparr>
           \<lparr>il_column = [0, 2], il_dim = 1, il_pivot = 2\<rparr>
           \<lparr>il_column = [1, 2], il_dim = 1, il_pivot = 1\<rparr>)))) = [0, 2]"
proof -
  have h: "sorted_wrt (<) (zs_column \<lparr>zs_dim = 1, zs_column = [0, 2]\<rparr>)"
      "sorted_wrt (<) (zs_column \<lparr>zs_dim = 1, zs_column = [1, 2]\<rparr>)"
      "sorted_wrt (<) (il_column \<lparr>il_column = [0, 2 :: nat], il_dim = 1, il_pivot = 2\<rparr>)"
      "sorted_wrt (<) (il_column \<lparr>il_column = [1, 2 :: nat], il_dim = 1, il_pivot = 1\<rparr>)"
    by simp_all
  have step: "Z2_set_column_add \<lparr>zs_dim = 1, zs_column = [0, 2]\<rparr>
       \<lparr>zs_dim = 1, zs_column = [1, 2]\<rparr> = \<lparr>zs_dim = 1, zs_column = [0, 1]\<rparr>"
    by (simp add: Z2_set_column_add_def set_toggle_def set_find_def)
  from z2_column_addition_involution[OF h, of "\<lparr>isNonBasic = True, is_of_boundary_type = False\<rparr>"]
    h step show ?thesis by simp
qed

section \<open>Scaling a chain column\<close>

text \<open>
  What the guards refuse. For a chain column (a column of a matrix that is not basic
  and not of boundary type) \<open>operator*=\<close> fails with \<open>std::invalid_argument\<close> on
  every scalar that the field operators reduce to zero (for Z2: every even scalar), and
  the \<open>multiply_and_add\<close> that scales the target fails on the scalar 0 itself.
\<close>

lemma scaling_by_zero_refused:
  assumes "is_chain_column opts"
  shows "(val mod 2 = 0 \<longrightarrow> il_times_assign_z2 opts zcol val = Inl Invalid_argument) \<and>
         il_multiply_target_and_add_z2 opts 0 zcol zsrc = Inl Invalid_argument \<and>
         (fo_get_value ops fval = fo_additive_identity ops \<longrightarrow>
            il_times_assign ops opts col fval = Inl Invalid_argument) \<and>
         il_multiply_target_and_add ops opts 0 col src = Inl Invalid_argument"
  using assms
  by (simp add: il_times_assign_z2_def il_multiply_target_and_add_z2_def il_times_assign_def
      il_multiply_target_and_add_def il_multiply_target_and_add_cells_def)

text \<open>
  C7. The \<open>multiply_and_add\<close> that scales the target chain column does not refuse
  every field value equal to zero: its guard is \<open>val == 0u\<close> on the scalar as it is
  given, where \<open>operator*=\<close> reduces the scalar first. With the operators of Z/5 the
  scalar 5 is the zero of the field. \<open>operator*=\<close> refuses it. \<open>multiply_and_add\<close>
  accepts it and returns the chain column with rows 0 and 2 and pivot 2 scaled to
  cells of value zero, the pivot among them, with the cell of the source in between.
\<close>

theorem chain_column_multiply_and_add_by_zero:
  "is_chain_column \<lparr>isNonBasic = True, is_of_boundary_type = False\<rparr> \<and>
   fo_get_value (Zp_field_operators 5) 5 = fo_additive_identity (Zp_field_operators 5) \<and>
   il_times_assign (Zp_field_operators 5) \<lparr>isNonBasic = True, is_of_boundary_type = False\<rparr>
     \<lparr>il_column = [(0, 1), (2, 3)], il_dim = 1, il_pivot = 2\<rparr> 5 = Inl Invalid_argument \<and>
   il_multiply_target_and_add (Zp_field_operators 5)
     \<lparr>isNonBasic = True, is_of_boundary_type = False\<rparr> 5
     \<lparr>il_column = [(0, 1), (2, 3)], il_dim = 1, il_pivot = 2\<rparr>
     \<lparr>il_column = [(1, 4)], il_dim = 0, il_pivot = 1\<rparr> =
   Inr (\<lparr>il_column = [(0, 0), (1, 4), (2, 0)], il_dim = 1, il_pivot = 2\<rparr>,
        \<lparr>il_column = [(1, 4)], il_dim = 0, il_pivot = 1\<rparr>)"
  by (simp add: is_chain_column_def Zp_field_operators_def il_times_assign_def
      il_multiply_target_and_add_def il_multiply_target_and_add_cells_def)

section \<open>Removing the last column through the overlay\<close>

text \<open>
  The guard of \<open>remove_last\<close>: on an empty identifier dictionary the call returns
  at once, and the overlay and the wrapped matrix are what they were.
\<close>

lemma remove_last_empty_dictionary:
  assumes "dictionary_empty (the_idToIndex opts pivotToColumnIndex_of ov)"
  shows "ov_remove_last opts pivotToColumnIndex_of matrix_remove_last ov = Inr ov"
  using assms by (simp add: ov_remove_last_def)

lemma reset_last_used_unused:
  "k \<le> length v \<Longrightarrow> \<forall>i<k. v ! i = None \<Longrightarrow> reset_last_used k v = Inl Undefined_behaviour"
  by (induction k) simp_all

text \<open>
  C10. The guard tests the dictionary, not the matrix, and a vector dictionary of a
  matrix of boundary type is not empty when the matrix has no column: the constructor
  with a number of columns fills it with entries \<open>-1\<close>, and the removal of the only
  column leaves the entry \<open>-1\<close> behind. On such an overlay \<open>remove_last\<close> is no
  no-op: it calls \<open>remove_last\<close> of the wrapped matrix, \<open>nextIndex_\<close> wraps below
  zero and the search for the last used identifier runs below index 0.
\<close>

theorem remove_last_on_matrix_without_columns:
  "ov_remove_last \<lparr>ov_is_of_boundary_type = True, has_map_column_container = False\<rparr>
     pivotToColumnIndex_of matrix_remove_last
     (Id_to_index_overlay_of_size
        \<lparr>ov_is_of_boundary_type = True, has_map_column_container = False\<rparr> m (Suc k)) =
     (case matrix_remove_last m of Inl e \<Rightarrow> Inl e | Inr m' \<Rightarrow> Inl Undefined_behaviour) \<and>
   ov_insert_boundary \<lparr>ov_is_of_boundary_type = True, has_map_column_container = False\<rparr>
     matrix_insert_boundary
     (Id_to_index_overlay_of_size
        \<lparr>ov_is_of_boundary_type = True, has_map_column_container = False\<rparr> m 0) =
     (case matrix_insert_boundary m of
        Inl e \<Rightarrow> Inl e
      | Inr m1 \<Rightarrow>
          Inr \<lparr>ov_matrix = m1, ov_idToIndex = Vector_dictionary [Some 0], ov_nextIndex = 1\<rparr>) \<and>
   ov_remove_last \<lparr>ov_is_of_boundary_type = True, has_map_column_container = False\<rparr>
     pivotToColumnIndex_of matrix_remove_last
     \<lparr>ov_matrix = m1, ov_idToIndex = Vector_dictionary [Some 0], ov_nextIndex = 1\<rparr> =
     (case matrix_remove_last m1 of
        Inl e \<Rightarrow> Inl e
      | Inr m2 \<Rightarrow>
          Inr \<lparr>ov_matrix = m2, ov_idToIndex = Vector_dictionary [None], ov_nextIndex = 0\<rparr>) \<and>
   ov_remove_last \<lparr>ov_is_of_boundary_type = True, has_map_column_container = False\<rparr>
     pivotToColumnIndex_of matrix_remove_last
     \<lparr>ov_matrix = m2, ov_idToIndex = Vector_dictionary [None], ov_nextIndex = 0\<rparr> =
     (case matrix_remove_last m2 of Inl e \<Rightarrow> Inl e | Inr m3 \<Rightarrow> Inl Undefined_behaviour)"
proof -
  have "reset_last_used (length (replicate (Suc k) (None :: nat option)))
          (replicate (Suc k) None) = Inl Undefined_behaviour"
    by (rule reset_last_used_unused) (simp_all del: replicate.simps)
  then have r: "reset_last_used (Suc k) (None # replicate k (None :: nat option)) =
      Inl Undefined_behaviour"
    by simp
  show ?thesis
    using r
    by (simp add: ov_remove_last_def the_idToIndex_def Id_to_index_overlay_of_size_def
        initialize_map_def ov_insert_boundary_def index_decrement_def split: sum.splits)
qed

section \<open>Inverses in the multi-field\<close>

text \<open>
  \<open>mpz_invert\<close> finds the inverse whenever the element is coprime to a positive
  modulus.
\<close>

lemma mpz_invert_coprime:
  assumes "0 < m" and "coprime x m"
  shows "\<exists>y. mpz_invert x m = Inr y \<and> 0 \<le> y \<and> y < m \<and> (x * y) mod m = 1 mod m"
proof -
  let ?P = "\<lambda>y. (x * y) mod \<bar>m\<bar> = 1 mod \<bar>m\<bar>"
  let ?ys = "map int [0..<nat \<bar>m\<bar>]"
  obtain u v where uv: "u * x + v * m = gcd x m"
    using bezout_int by blast
  then have uv1: "u * x + v * m = 1" using assms(2) by simp
  have "x * (u mod m) mod m = (x * u) mod m"
    by (simp add: mod_mult_right_eq)
  also have "x * u = 1 - v * m" using uv1 by (simp add: algebra_simps)
  also have "(1 - v * m) mod m = 1 mod m"
    by (metis diff_conv_add_uminus mod_mult_self1 mult_minus_left)
  finally have P0: "?P (u mod m)" using assms(1) by simp
  have "u mod m \<in> set ?ys"
  proof -
    have "0 \<le> u mod m" "u mod m < m" using assms(1) by simp_all
    then have "nat (u mod m) \<in> set [0..<nat \<bar>m\<bar>]" using assms(1) by simp
    then have "int (nat (u mod m)) \<in> set ?ys" unfolding set_map by (rule imageI)
    then show ?thesis using \<open>0 \<le> u mod m\<close> by simp
  qed
  then have "find ?P ?ys \<noteq> None" using P0 by (auto simp: find_None_iff)
  then obtain y where fy: "find ?P ?ys = Some y" by blast
  then have "?P y" and "y \<in> set ?ys"
    by (auto simp: find_Some_iff)
  then have "0 \<le> y" "y < m" "(x * y) mod m = 1 mod m" using assms(1) by auto
  moreover have "mpz_invert x m = Inr y"
    using fy assms(1) by (simp add: mpz_invert_def)
  ultimately show ?thesis by blast
qed

lemma initialize_2_7:
  "initialize 2 7 =
     Inr \<lparr>primes = [2, 3, 5, 7], productOfAllCharacteristics = 210,
          partials = [105, 70, 126, 120]\<rparr>"
  by (simp add: initialize_def is_prime_def gmp_prime_def upt_rec mpz_powm_ui_def mpz_mod_def)

text \<open>
  C3. After \<open>initialize(2, 7)\<close> every element whose value is not zero and is coprime
  to 210 has an inverse, and the product of the element and its inverse is the
  element of value 1.
\<close>

theorem multi_field_inverse_2_7:
  assumes "initialize 2 7 = Inr mf" and "mf_of_mpz mf v = Inr x"
    and "mf_get_value x \<noteq> 0" and "coprime (mf_get_value x) 210"
  shows "\<exists>y p. get_inverse mf x = Inr y \<and> mf_times mf x y = Inr p \<and> mf_get_value p = 1"
proof -
  have mf: "mf = \<lparr>primes = [2, 3, 5, 7], productOfAllCharacteristics = 210,
          partials = [105, 70, 126, 120]\<rparr>"
    using assms(1) by (simp add: initialize_2_7)
  define e where "e = mf_element x"
  have cop: "coprime e 210" using assms(4) by (simp add: e_def mf_get_value_def)
  then have g: "gcd e 210 = 1" by simp
  obtain y where y: "mpz_invert e 210 = Inr y" "0 \<le> y" "y < 210" "(e * y) mod 210 = 1 mod 210"
    using mpz_invert_coprime[of 210 e] cop by auto
  have pid: "get_partial_multiplicative_identity mf 210 = Inr \<lparr>mf_element = 1\<rparr>"
    by (simp add: mf get_partial_multiplicative_identity_def mf_plus_assign_mpz_def
        mpz_mod_def mf_default_def)
  have inv: "get_partial_inverse mf x 210 = Inr (\<lparr>mf_element = y\<rparr>, 210)"
    using y(1-3) g pid
    by (simp add: get_partial_inverse_def mpz_gcd_def e_def[symmetric] Let_def
        mf_times_assign_mpz_def mpz_mod_def mf)
  then have "get_inverse mf x = Inr \<lparr>mf_element = y\<rparr>"
    by (simp add: get_inverse_def mf)
  moreover have "mf_times mf x \<lparr>mf_element = y\<rparr> = Inr (x\<lparr>mf_element := 1\<rparr>)"
    using y(4) by (simp add: mf_times_def mf_times_assign_mpz_def mpz_mod_def mf e_def)
  ultimately show ?thesis by (simp add: mf_get_value_def)
qed

theorem multi_field_inverse_2_7_witness:
  "\<exists>mf x y p. initialize 2 7 = Inr mf \<and> mf_of_mpz mf 221 = Inr x \<and> mf_get_value x = 11 \<and>
     coprime (mf_get_value x) 210 \<and>
     get_inverse mf x = Inr y \<and> mf_times mf x y = Inr p \<and> mf_get_value p = 1"
proof -
  let ?mf = "\<lparr>primes = [2, 3, 5, 7], productOfAllCharacteristics = 210,
          partials = [105, 70, 126, 120 :: int]\<rparr>"
  let ?x = "\<lparr>mf_element = 11\<rparr>"
  have a: "initialize 2 7 = Inr ?mf" by (rule initialize_2_7)
  have b: "mf_of_mpz ?mf 221 = Inr ?x" by (simp add: mf_of_mpz_def mpz_mod_def)
  have c: "mf_get_value ?x \<noteq> 0" by (simp add: mf_get_value_def)
  have "gcd (11::int) 210 = 1" by (simp add: gcd_red_int[of 11 210] gcd_red_int[of 210 11])
  then have d: "coprime (mf_get_value ?x) 210" by (simp add: mf_get_value_def coprime_iff_gcd_eq_1)
  from multi_field_inverse_2_7[OF a b c d] a b d show ?thesis
    by (auto simp: mf_get_value_def)
qed

section \<open>The chain matrix: reduction of a boundary\<close>

subsection \<open>Facts about well-formed states\<close>

lemma strict_sorted_le_last:
  "sorted_wrt (<) (xs :: nat list) \<Longrightarrow> x \<in> set xs \<Longrightarrow> x \<le> last xs"
proof (induction xs)
  case Nil
  then show ?case by simp
next
  case (Cons a xs)
  show ?case
  proof (cases "xs = []")
    case True
    then show ?thesis using Cons.prems by simp
  next
    case False
    then have "last xs \<in> set xs" by simp
    then have "a < last xs" using Cons.prems(1) by simp
    then have a: "a \<le> last (a # xs)" using False by simp
    have "x \<in> set xs \<Longrightarrow> x \<le> last (a # xs)"
      using Cons.IH Cons.prems(1) False by simp
    then show ?thesis using a Cons.prems(2) by (cases "x = a") simp_all
  qed
qed

lemma sorted_add_to_tmp:
  "sorted_wrt (<) column \<Longrightarrow> sorted_wrt (<) (add_to_tmp col column)"
  by (simp add: add_to_tmp_def sorted_fold_toggle)

lemma set_add_to_tmp:
  "sorted_wrt (<) column \<Longrightarrow> sorted_wrt (<) (cc_column col) \<Longrightarrow>
   set (add_to_tmp col column) = sym_diff (set column) (set (cc_column col))"
  by (simp add: add_to_tmp_def set_fold_toggle strict_sorted_iff)

lemma add_to_tmp_progress:
  assumes "sorted_wrt (<) column" and "column \<noteq> []"
    and "sorted_wrt (<) (cc_column col)" and "cc_column col \<noteq> []"
    and "last (cc_column col) = last column"
  shows "add_to_tmp col column = [] \<or> last (add_to_tmp col column) < last column"
proof (cases "add_to_tmp col column = []")
  case True
  then show ?thesis by simp
next
  case False
  let ?c = "add_to_tmp col column"
  have mem: "last ?c \<in> set ?c" using False by simp
  have set: "set ?c = sym_diff (set column) (set (cc_column col))"
    using assms(1,3) by (rule set_add_to_tmp)
  have "last column \<in> set column" "last column \<in> set (cc_column col)"
    using assms(2,4,5) last_in_set by (simp, metis)
  then have "last column \<notin> set ?c" using set by auto
  moreover have "last ?c \<le> last column"
    using mem set strict_sorted_le_last[OF assms(1)] strict_sorted_le_last[OF assms(3)] assms(5)
    by auto
  ultimately have "last ?c < last column" using mem
    by (metis le_neq_implies_less)
  then show ?thesis by simp
qed

lemma wf_column:
  assumes "well_formed s" and "c < nextInsertIndex s"
  shows "\<exists>col. matrix s c = Some col \<and> cc_pivot col = int c \<and> sorted_wrt (<) (cc_column col) \<and>
         cc_column col \<noteq> [] \<and> last (cc_column col) = c"
proof -
  have "matrix s c \<noteq> None" using assms by (simp add: well_formed_def)
  then obtain col where "matrix s c = Some col" by blast
  then show ?thesis using assms(1) by (auto simp: well_formed_def)
qed

lemma wf_pivot_lookup:
  "well_formed s \<Longrightarrow> p < nextInsertIndex s \<Longrightarrow> map_at (pivotToColumnIndex s) p = Inr p"
  by (simp add: well_formed_def map_at_def)

lemma wf_pivot_lookup_fail:
  "well_formed s \<Longrightarrow> \<not> p < nextInsertIndex s \<Longrightarrow> map_at (pivotToColumnIndex s) p = Inl Out_of_range"
  by (simp add: well_formed_def map_at_def)

lemma wf_paired_index:
  assumes "well_formed s" and "matrix s c = Some col" and "is_paired col"
  shows "index_of_int (get_paired_chain_index col) < nextInsertIndex s \<and>
         (\<exists>col'. matrix s (index_of_int (get_paired_chain_index col)) = Some col' \<and>
                 is_paired col')"
proof -
  have "cc_pairedColumn col \<noteq> - 1" using assms(3) by (simp add: is_paired_def)
  then have "0 \<le> cc_pairedColumn col \<and>
      (\<exists>col'. matrix s (nat (cc_pairedColumn col)) = Some col' \<and> cc_pairedColumn col' = int c)"
    using assms(1,2) unfolding well_formed_def by blast
  then obtain col' where p: "0 \<le> cc_pairedColumn col"
    "matrix s (nat (cc_pairedColumn col)) = Some col'" "cc_pairedColumn col' = int c"
    by blast
  have "\<And>k. matrix s k \<noteq> None \<Longrightarrow> k < nextInsertIndex s"
    using assms(1) by (simp add: well_formed_def)
  then have "nat (cc_pairedColumn col) < nextInsertIndex s" using p(2) by simp
  moreover have "is_paired col'" using p(3) by (simp add: is_paired_def)
  ultimately show ?thesis
    using p(1,2) by (simp add: index_of_int_def get_paired_chain_index_def)
qed

lemma rows_below:
  assumes "well_formed s" and "matrix s c = Some col" and "r \<in> set (cc_column col)"
  shows "r \<le> c"
proof -
  have "sorted_wrt (<) (cc_column col)" "last (cc_column col) = c"
    using assms(1,2) by (auto simp: well_formed_def)
  then show ?thesis using strict_sorted_le_last assms(3) by blast
qed

text \<open>
  The first loop of the reduction ends in every well-formed state: each round removes
  the largest row of the temporary column and adds smaller rows only.
\<close>

lemma reduce_while_paired_total:
  assumes "well_formed s" and "sorted_wrt (<) column" and "column \<noteq> []"
    and "last column < nextInsertIndex s" and "valid_chains s H"
  shows "\<exists>r. reduce_while_paired s column H (last column) = Some (Inr r) \<and>
           (case r of
              Reduced_to_zero H' \<Rightarrow> valid_chains s H'
            | Remaining column' H' \<Rightarrow>
                valid_chains s H' \<and> sorted_wrt (<) column' \<and> column' \<noteq> [] \<and>
                last column' \<le> last column \<and>
                (\<exists>col. matrix s (last column') = Some col \<and> \<not> is_paired col))"
  using assms
proof (induction "last column" arbitrary: column H rule: less_induct)
  case less
  obtain col where col: "matrix s (last column) = Some col" "cc_pivot col = int (last column)"
      "sorted_wrt (<) (cc_column col)" "cc_column col \<noteq> []" "last (cc_column col) = last column"
    using wf_column[OF less.prems(1,4)] by blast
  show ?case
  proof (cases "is_paired col")
    case False
    then show ?thesis
      using col less.prems
      by (subst reduce_while_paired.simps) (simp add: map_at_def)
  next
    case True
    let ?c = "add_to_tmp col column"
    let ?H = "H @ [index_of_int (get_paired_chain_index col)]"
    have G: "reduce_by_G s column H (last column) = Inr (?c, ?H)"
      using col(1) by (simp add: reduce_by_G_def map_at_def)
    have vH: "valid_chains s ?H"
      using less.prems(5) wf_paired_index[OF less.prems(1) col(1) True]
      by (simp add: valid_chains_def)
    have sc: "sorted_wrt (<) ?c" using less.prems(2) by (rule sorted_add_to_tmp)
    show ?thesis
    proof (cases "?c = []")
      case True
      then show ?thesis
        using col(1) \<open>is_paired col\<close> G vH
        by (subst reduce_while_paired.simps) (simp add: map_at_def)
    next
      case False
      then have lt: "last ?c < last column"
        using add_to_tmp_progress[OF less.prems(2,3) col(3,4,5)] by simp
      then have ltn: "last ?c < nextInsertIndex s" using less.prems(4) by simp
      obtain r where r: "reduce_while_paired s ?c ?H (last ?c) = Some (Inr r)"
        "(case r of
              Reduced_to_zero H' \<Rightarrow> valid_chains s H'
            | Remaining column' H' \<Rightarrow>
                valid_chains s H' \<and> sorted_wrt (<) column' \<and> column' \<noteq> [] \<and>
                last column' \<le> last ?c \<and>
                (\<exists>col. matrix s (last column') = Some col \<and> \<not> is_paired col))"
        using less.hyps[OF lt less.prems(1) sc False ltn vH] by blast
      have "reduce_while_paired s column H (last column) = Some (Inr r)"
        using col(1) \<open>is_paired col\<close> G False r(1) wf_pivot_lookup[OF less.prems(1) ltn]
        by (subst reduce_while_paired.simps) (simp add: map_at_def)
      moreover have "(case r of
              Reduced_to_zero H' \<Rightarrow> valid_chains s H'
            | Remaining column' H' \<Rightarrow>
                valid_chains s H' \<and> sorted_wrt (<) column' \<and> column' \<noteq> [] \<and>
                last column' \<le> last column \<and>
                (\<exists>col. matrix s (last column') = Some col \<and> \<not> is_paired col))"
        using r(2) lt by (cases r) auto
      ultimately show ?thesis by blast
    qed
  qed
qed

lemma strict_sorted_last_eq:
  assumes "sorted_wrt (<) (xs :: nat list)" and "x \<in> set xs" and "\<forall>y\<in>set xs. y \<le> x"
  shows "last xs = x"
proof -
  have "xs \<noteq> []" using assms(2) by auto
  then have "last xs \<in> set xs" by simp
  then have "last xs \<le> x" using assms(3) by simp
  moreover have "x \<le> last xs" using assms(1,2) by (rule strict_sorted_le_last)
  ultimately show ?thesis by simp
qed

lemma essential_chains_weaken:
  "essential_chains s ess column \<Longrightarrow> essential_chains s ess []"
  by (simp add: essential_chains_def)

lemma essential_chains_step:
  assumes "essential_chains s ess column" and "\<forall>r\<in>set column'. r \<le> k"
    and "\<forall>r\<in>set column. r \<le> k" and "k \<in> set column"
  shows "essential_chains s ess column'"
proof -
  have "\<forall>e\<in>set ess. k < e" using assms(1,4) by (auto simp: essential_chains_def)
  then have "\<forall>e\<in>set ess. \<forall>r\<in>set column'. r < e" using assms(2) by fastforce
  then show ?thesis using assms(1) by (simp add: essential_chains_def)
qed

lemma essential_chains_snoc:
  assumes "essential_chains s ess column" and "k \<in> set column"
    and "matrix s k = Some col" and "\<not> is_paired col"
    and "\<forall>r\<in>set column'. r < k"
  shows "essential_chains s (ess @ [k]) column'"
proof -
  have gt: "\<forall>e\<in>set ess. k < e" using assms(1,2) by (auto simp: essential_chains_def)
  then have "sorted_wrt (>) (ess @ [k])"
    using assms(1) by (simp add: essential_chains_def sorted_wrt_append)
  moreover have "\<forall>e\<in>set ess. \<forall>r\<in>set column'. r < e"
    using gt assms(5) by fastforce
  ultimately show ?thesis
    using assms(1,3,4,5) by (auto simp: essential_chains_def)
qed

lemma add_to_tmp_rows_le:
  assumes "sorted_wrt (<) column" and "column \<noteq> []"
    and "sorted_wrt (<) (cc_column col)" and "last (cc_column col) = last column"
  shows "\<forall>r\<in>set (add_to_tmp col column). r \<le> last column"
proof
  fix r assume "r \<in> set (add_to_tmp col column)"
  then have "r \<in> set column \<or> r \<in> set (cc_column col)"
    using set_add_to_tmp[OF assms(1,3)] by auto
  then show "r \<le> last column"
    using strict_sorted_le_last[OF assms(1)] strict_sorted_le_last[OF assms(3)] assms(4) by auto
qed

lemma add_to_tmp_rows_less:
  assumes "sorted_wrt (<) column" and "column \<noteq> []"
    and "sorted_wrt (<) (cc_column col)" and "cc_column col \<noteq> []"
    and "last (cc_column col) = last column"
  shows "\<forall>r\<in>set (add_to_tmp col column). r < last column"
proof
  fix r assume r: "r \<in> set (add_to_tmp col column)"
  then have ne: "add_to_tmp col column \<noteq> []" by auto
  have "r \<le> last (add_to_tmp col column)"
    using sorted_add_to_tmp[OF assms(1)] r by (rule strict_sorted_le_last)
  moreover have "last (add_to_tmp col column) < last column"
    using add_to_tmp_progress[OF assms] ne by simp
  ultimately show "r < last column" by simp
qed

text \<open>The second loop ends, and the first unpaired column it uses heads the list.\<close>

lemma reduce_until_empty_total:
  assumes "well_formed s" and "sorted_wrt (<) column"
    and "column = [] \<or> last column < nextInsertIndex s"
    and "valid_chains s H" and "essential_chains s ess column"
  shows "\<exists>H' rest. reduce_until_empty s column H ess = Some (Inr (H', ess @ rest)) \<and>
           valid_chains s H' \<and> essential_chains s (ess @ rest) [] \<and>
           (column \<noteq> [] \<and> (\<exists>col. matrix s (last column) = Some col \<and> \<not> is_paired col)
              \<longrightarrow> rest \<noteq> [] \<and> hd rest = last column)"
  using assms
proof (induction "if column = [] then 0 else Suc (last column)" arbitrary: column H ess
    rule: less_induct)
  case less
  show ?case
  proof (cases "column = []")
    case True
    have "reduce_until_empty s column H ess = Some (Inr (H, ess @ []))"
      using True by (subst reduce_until_empty.simps) simp
    then show ?thesis
      using True less.prems(4) essential_chains_weaken[OF less.prems(5)] by (metis append_Nil2)
  next
    case False
    then have ltn: "last column < nextInsertIndex s" using less.prems(3) by simp
    obtain col where col: "matrix s (last column) = Some col" "cc_pivot col = int (last column)"
      "sorted_wrt (<) (cc_column col)" "cc_column col \<noteq> []" "last (cc_column col) = last column"
      using wf_column[OF less.prems(1) ltn] by blast
    let ?c = "add_to_tmp col column"
    have sc: "sorted_wrt (<) ?c" using less.prems(2) by (rule sorted_add_to_tmp)
    have prog: "?c = [] \<or> last ?c < last column"
      using add_to_tmp_progress[OF less.prems(2) False col(3,4,5)] .
    then have bound: "?c = [] \<or> last ?c < nextInsertIndex s" using ltn by auto
    have meas: "(if ?c = [] then 0 else Suc (last ?c)) < (if column = [] then 0 else Suc (last column))"
      using prog False by auto
    have lt_rows: "\<forall>r\<in>set ?c. r < last column"
      using add_to_tmp_rows_less[OF less.prems(2) False col(3,4,5)] .
    have lastin: "last column \<in> set column" using False by simp
    show ?thesis
    proof (cases "is_paired col")
      case unp: False
      let ?ess = "ess @ [last column]"
      have F: "reduce_by_F s column (last column) ess = Inr (?c, ?ess)"
        using col(1) by (simp add: reduce_by_F_def map_at_def)
      have ec: "essential_chains s ?ess ?c"
        using essential_chains_snoc[OF less.prems(5) lastin col(1) unp lt_rows] .
      obtain H' rest where r: "reduce_until_empty s ?c H ?ess = Some (Inr (H', ?ess @ rest))"
        "valid_chains s H'" "essential_chains s (?ess @ rest) []"
        using less.hyps[OF meas less.prems(1) sc bound less.prems(4) ec] by blast
      have "reduce_until_empty s column H ess = Some (Inr (H', ess @ (last column # rest)))"
        using False col(1) unp F r(1) wf_pivot_lookup[OF less.prems(1) ltn]
        by (subst reduce_until_empty.simps) (simp add: map_at_def)
      moreover have "essential_chains s (ess @ (last column # rest)) []" using r(3) by simp
      ultimately show ?thesis using r(2) by (metis list.sel(1) list.distinct(1))
    next
      case True
      let ?H = "H @ [index_of_int (get_paired_chain_index col)]"
      have G: "reduce_by_G s column H (last column) = Inr (?c, ?H)"
        using col(1) by (simp add: reduce_by_G_def map_at_def)
      have vH: "valid_chains s ?H"
        using less.prems(4) wf_paired_index[OF less.prems(1) col(1) True]
        by (simp add: valid_chains_def)
      have le_rows: "\<forall>r\<in>set ?c. r \<le> last column" using lt_rows by auto
      have le_col: "\<forall>r\<in>set column. r \<le> last column"
        using strict_sorted_le_last[OF less.prems(2)] by blast
      have ec: "essential_chains s ess ?c"
        using essential_chains_step[OF less.prems(5) le_rows le_col lastin] .
      obtain H' rest where r: "reduce_until_empty s ?c ?H ess = Some (Inr (H', ess @ rest))"
        "valid_chains s H'" "essential_chains s (ess @ rest) []"
        using less.hyps[OF meas less.prems(1) sc bound vH ec] by blast
      have "reduce_until_empty s column H ess = Some (Inr (H', ess @ rest))"
        using False col(1) True G r(1) wf_pivot_lookup[OF less.prems(1) ltn]
        by (subst reduce_until_empty.simps) (simp add: map_at_def)
      then show ?thesis using r(2,3) col(1) True by auto
    qed
  qed
qed

lemma reduce_column_total:
  assumes "well_formed s" and "sorted_wrt (<) column" and "column \<noteq> []"
    and "last column < nextInsertIndex s"
  shows "\<exists>r. reduce_column s column [] = Some (Inr r) \<and>
           (case r of
              New_cycle H \<Rightarrow> valid_chains s H
            | New_pair H ess \<Rightarrow> valid_chains s H \<and> ess \<noteq> [] \<and> essential_chains s ess [])"
proof -
  have v0: "valid_chains s []" by (simp add: valid_chains_def)
  obtain r where r: "reduce_while_paired s column [] (last column) = Some (Inr r)"
    "(case r of
        Reduced_to_zero H' \<Rightarrow> valid_chains s H'
      | Remaining column' H' \<Rightarrow>
          valid_chains s H' \<and> sorted_wrt (<) column' \<and> column' \<noteq> [] \<and>
          last column' \<le> last column \<and>
          (\<exists>col. matrix s (last column') = Some col \<and> \<not> is_paired col))"
    using reduce_while_paired_total[OF assms v0] by blast
  have look: "map_at (pivotToColumnIndex s) (last column) = Inr (last column)"
    using assms(1,4) by (rule wf_pivot_lookup)
  show ?thesis
  proof (cases r)
    case (Reduced_to_zero H')
    then show ?thesis using r look by (simp add: reduce_column_def)
  next
    case (Remaining column' H')
    then have p: "valid_chains s H'" "sorted_wrt (<) column'" "column' \<noteq> []"
      "last column' \<le> last column" "\<exists>col. matrix s (last column') = Some col \<and> \<not> is_paired col"
      using r(2) by simp_all
    have b: "column' = [] \<or> last column' < nextInsertIndex s" using p(4) assms(4) by simp
    have e0: "essential_chains s [] column'" by (simp add: essential_chains_def)
    obtain H'' rest where u: "reduce_until_empty s column' H' [] = Some (Inr (H'', [] @ rest))"
      "valid_chains s H''" "essential_chains s ([] @ rest) []"
      "column' \<noteq> [] \<and> (\<exists>col. matrix s (last column') = Some col \<and> \<not> is_paired col)
              \<longrightarrow> rest \<noteq> [] \<and> hd rest = last column'"
      using reduce_until_empty_total[OF assms(1) p(2) b p(1) e0] by blast
    then have "rest \<noteq> []" using p(3,5) by blast
    then show ?thesis using Remaining r(1) look u(1,2,3) by (simp add: reduce_column_def)
  qed
qed

lemma reduce_column_out_of_range:
  assumes "well_formed s" and "\<not> last column < nextInsertIndex s"
  shows "reduce_column s column ess = Some (Inl Out_of_range)"
  using wf_pivot_lookup_fail[OF assms] by (simp add: reduce_column_def)

subsection \<open>Insertion keeps the state well-formed\<close>

lemma well_formedI:
  assumes "\<And>c. (matrix s c \<noteq> None) = (c < nextInsertIndex s)"
    and "\<And>p. pivotToColumnIndex s p = (if p < nextInsertIndex s then Some p else None)"
    and "\<And>c col. matrix s c = Some col \<Longrightarrow>
        cc_pivot col = int c \<and> sorted_wrt (<) (cc_column col) \<and>
        cc_column col \<noteq> [] \<and> last (cc_column col) = c"
    and "\<And>c col. matrix s c = Some col \<Longrightarrow>
        cc_pairedColumn col = - 1 \<or>
        (0 \<le> cc_pairedColumn col \<and>
         (\<exists>col'. matrix s (nat (cc_pairedColumn col)) = Some col' \<and>
                 cc_pairedColumn col' = int c))"
    and "\<And>k. case indexToBar s k of
             None \<Rightarrow> nextInsertIndex s \<le> k
           | Some pos \<Rightarrow> k < nextInsertIndex s \<and> pos < length (barcode s)"
  shows "well_formed s"
  unfolding well_formed_def using assms by blast

lemma wf_dom: "well_formed s \<Longrightarrow> (matrix s c \<noteq> None) = (c < nextInsertIndex s)"
  by (simp add: well_formed_def)

lemma wf_pivots:
  "well_formed s \<Longrightarrow> pivotToColumnIndex s p = (if p < nextInsertIndex s then Some p else None)"
  by (simp add: well_formed_def)

lemma wf_cols:
  "well_formed s \<Longrightarrow> matrix s c = Some col \<Longrightarrow>
     cc_pivot col = int c \<and> sorted_wrt (<) (cc_column col) \<and>
     cc_column col \<noteq> [] \<and> last (cc_column col) = c"
  unfolding well_formed_def by blast

lemma wf_pairs:
  "well_formed s \<Longrightarrow> matrix s c = Some col \<Longrightarrow>
     cc_pairedColumn col = - 1 \<or>
     (0 \<le> cc_pairedColumn col \<and>
      (\<exists>col'. matrix s (nat (cc_pairedColumn col)) = Some col' \<and>
              cc_pairedColumn col' = int c))"
  unfolding well_formed_def by blast

lemma wf_bars:
  "well_formed s \<Longrightarrow>
     (case indexToBar s k of
        None \<Rightarrow> nextInsertIndex s \<le> k
      | Some pos \<Rightarrow> k < nextInsertIndex s \<and> pos < length (barcode s))"
  unfolding well_formed_def by blast

lemma well_formed_empty: "well_formed empty_chain_matrix"
  by (simp add: well_formed_def empty_chain_matrix_def)

lemma count_dimension_frame:
  "matrix (count_dimension b s) = matrix s"
  "pivotToColumnIndex (count_dimension b s) = pivotToColumnIndex s"
  "nextInsertIndex (count_dimension b s) = nextInsertIndex s"
  "barcode (count_dimension b s) = barcode s"
  "indexToBar (count_dimension b s) = indexToBar s"
  by (simp_all add: count_dimension_def Let_def)

lemma well_formed_count_dimension:
  "well_formed s \<Longrightarrow> well_formed (count_dimension boundary s)"
  unfolding well_formed_def count_dimension_frame by assumption

text \<open>Replacing the rows of a column by rows with the same largest element.\<close>

lemma well_formed_update_rows:
  assumes "well_formed s" and "matrix s c = Some col"
    and "sorted_wrt (<) rows" and "rows \<noteq> []" and "last rows = c"
  shows "well_formed (s\<lparr>matrix := (matrix s)(c \<mapsto> col\<lparr>cc_column := rows\<rparr>)\<rparr>)"
proof (rule well_formedI)
  let ?s = "s\<lparr>matrix := (matrix s)(c \<mapsto> col\<lparr>cc_column := rows\<rparr>)\<rparr>"
  have cn: "c < nextInsertIndex s" using wf_dom[OF assms(1), of c] assms(2) by simp
  show "(matrix ?s k \<noteq> None) = (k < nextInsertIndex ?s)" for k
    using wf_dom[OF assms(1), of k] cn by simp
  show "pivotToColumnIndex ?s p = (if p < nextInsertIndex ?s then Some p else None)" for p
    using wf_pivots[OF assms(1), of p] by simp
  show "cc_pivot col' = int k \<and> sorted_wrt (<) (cc_column col') \<and>
        cc_column col' \<noteq> [] \<and> last (cc_column col') = k"
    if m: "matrix ?s k = Some col'" for k col'
  proof (cases "k = c")
    case True
    then have "col' = col\<lparr>cc_column := rows\<rparr>" using m by simp
    then show ?thesis using True assms(3,4,5) wf_cols[OF assms(1,2)] by simp
  next
    case False
    then have "matrix s k = Some col'" using m by simp
    then show ?thesis using wf_cols[OF assms(1)] by blast
  qed
  show "cc_pairedColumn col' = - 1 \<or>
        (0 \<le> cc_pairedColumn col' \<and>
         (\<exists>col''. matrix ?s (nat (cc_pairedColumn col')) = Some col'' \<and>
                 cc_pairedColumn col'' = int k))"
    if m: "matrix ?s k = Some col'" for k col'
  proof -
    obtain old where old: "matrix s k = Some old" "cc_pairedColumn old = cc_pairedColumn col'"
      using m assms(2) by (cases "k = c") auto
    have keep: "matrix s j = Some cj \<Longrightarrow>
        \<exists>cj'. matrix ?s j = Some cj' \<and> cc_pairedColumn cj' = cc_pairedColumn cj" for j cj
      using assms(2) by (cases "j = c") auto
    from wf_pairs[OF assms(1) old(1)] show ?thesis
    proof
      assume "cc_pairedColumn old = - 1"
      then show ?thesis using old(2) by simp
    next
      assume "0 \<le> cc_pairedColumn old \<and>
        (\<exists>col'. matrix s (nat (cc_pairedColumn old)) = Some col' \<and> cc_pairedColumn col' = int k)"
      then obtain cj where "0 \<le> cc_pairedColumn old"
        "matrix s (nat (cc_pairedColumn old)) = Some cj" "cc_pairedColumn cj = int k"
        by blast
      then show ?thesis using keep[of "nat (cc_pairedColumn old)" cj] old(2) by auto
    qed
  qed
  show "case indexToBar ?s k of
             None \<Rightarrow> nextInsertIndex ?s \<le> k
           | Some pos \<Rightarrow> k < nextInsertIndex ?s \<and> pos < length (barcode ?s)" for k
    using wf_bars[OF assms(1), of k] by (simp split: option.splits)
qed

text \<open>
  Adding a column with a smaller index: the pivot row of the target stays, so no
  pivots are swapped and only the rows of the target change.
\<close>

lemma add_to_smaller:
  assumes "well_formed s" and "src < tgt" and "matrix s tgt = Some ct"
  shows "\<exists>rows. add_to src tgt s = Inr (s\<lparr>matrix := (matrix s)(tgt \<mapsto> ct\<lparr>cc_column := rows\<rparr>)\<rparr>) \<and>
           well_formed (s\<lparr>matrix := (matrix s)(tgt \<mapsto> ct\<lparr>cc_column := rows\<rparr>)\<rparr>)"
proof -
  have tn: "tgt < nextInsertIndex s" using wf_dom[OF assms(1), of tgt] assms(3) by simp
  then have "src < nextInsertIndex s" using assms(2) by simp
  then obtain cs where cs: "matrix s src = Some cs" "sorted_wrt (<) (cc_column cs)"
    "last (cc_column cs) = src"
    using wf_column[OF assms(1)] by blast
  have ct: "cc_pivot ct = int tgt" "sorted_wrt (<) (cc_column ct)" "cc_column ct \<noteq> []"
    "last (cc_column ct) = tgt"
    using wf_cols[OF assms(1,3)] by simp_all
  let ?rows = "fold set_toggle (cc_column cs) (cc_column ct)"
  have srt: "sorted_wrt (<) ?rows" using ct(2) by (rule sorted_fold_toggle)
  have set: "set ?rows = sym_diff (set (cc_column ct)) (set (cc_column cs))"
    using ct(2) cs(2) by (simp add: set_fold_toggle strict_sorted_iff)
  have "tgt \<in> set (cc_column ct)" using ct(3,4) last_in_set by metis
  moreover have "tgt \<notin> set (cc_column cs)"
    using strict_sorted_le_last[OF cs(2), of tgt] cs(3) assms(2) by auto
  ultimately have mem: "tgt \<in> set ?rows" using set by simp
  have "\<forall>y\<in>set ?rows. y \<le> tgt"
    using set strict_sorted_le_last[OF cs(2)] strict_sorted_le_last[OF ct(2)] cs(3) ct(4) assms(2)
    by fastforce
  then have lst: "last ?rows = tgt" using srt mem by (rule strict_sorted_last_eq[rotated 2])
  have ne: "?rows \<noteq> []" using mem by auto
  have nz: "is_non_zero (ct\<lparr>cc_column := ?rows\<rparr>) (cc_pivot (ct\<lparr>cc_column := ?rows\<rparr>))"
    using mem ct(1) by (simp add: is_non_zero_def set_find_def)
  have "add_to src tgt s = Inr (s\<lparr>matrix := (matrix s)(tgt \<mapsto> ct\<lparr>cc_column := ?rows\<rparr>)\<rparr>)"
    using assms(2,3) cs(1) nz by (simp add: add_to_def map_at_def Let_def)
  moreover have "well_formed (s\<lparr>matrix := (matrix s)(tgt \<mapsto> ct\<lparr>cc_column := ?rows\<rparr>)\<rparr>)"
    using assms(1,3) srt ne lst by (rule well_formed_update_rows)
  ultimately show ?thesis by blast
qed

lemma add_all_to_smaller:
  assumes "well_formed s" and "\<forall>c\<in>set others. c < tgt" and "matrix s tgt = Some ct"
  shows "\<exists>rows. add_all_to others tgt s =
             Inr (s\<lparr>matrix := (matrix s)(tgt \<mapsto> ct\<lparr>cc_column := rows\<rparr>)\<rparr>) \<and>
           well_formed (s\<lparr>matrix := (matrix s)(tgt \<mapsto> ct\<lparr>cc_column := rows\<rparr>)\<rparr>)"
  using assms
proof (induction others arbitrary: s ct)
  case Nil
  have "s\<lparr>matrix := (matrix s)(tgt \<mapsto> ct\<lparr>cc_column := cc_column ct\<rparr>)\<rparr> = s"
    using Nil.prems(3) by (simp add: fun_upd_idem)
  then show ?case using Nil.prems(1) by (metis add_all_to.simps(1))
next
  case (Cons c others)
  have lt: "c < tgt" using Cons.prems(2) by simp
  obtain rows where r: "add_to c tgt s = Inr (s\<lparr>matrix := (matrix s)(tgt \<mapsto> ct\<lparr>cc_column := rows\<rparr>)\<rparr>)"
    "well_formed (s\<lparr>matrix := (matrix s)(tgt \<mapsto> ct\<lparr>cc_column := rows\<rparr>)\<rparr>)"
    using add_to_smaller[OF Cons.prems(1) lt Cons.prems(3)] by blast
  let ?s1 = "s\<lparr>matrix := (matrix s)(tgt \<mapsto> ct\<lparr>cc_column := rows\<rparr>)\<rparr>"
  have m1: "matrix ?s1 tgt = Some (ct\<lparr>cc_column := rows\<rparr>)" by simp
  have o: "\<forall>c\<in>set others. c < tgt" using Cons.prems(2) by simp
  obtain rows' where r': "add_all_to others tgt ?s1 =
      Inr (?s1\<lparr>matrix := (matrix ?s1)(tgt \<mapsto> (ct\<lparr>cc_column := rows\<rparr>)\<lparr>cc_column := rows'\<rparr>)\<rparr>)"
    "well_formed (?s1\<lparr>matrix := (matrix ?s1)(tgt \<mapsto> (ct\<lparr>cc_column := rows\<rparr>)\<lparr>cc_column := rows'\<rparr>)\<rparr>)"
    using Cons.IH[OF r(2) o m1] by blast
  have eq: "?s1\<lparr>matrix := (matrix ?s1)(tgt \<mapsto> (ct\<lparr>cc_column := rows\<rparr>)\<lparr>cc_column := rows'\<rparr>)\<rparr>
      = s\<lparr>matrix := (matrix s)(tgt \<mapsto> ct\<lparr>cc_column := rows'\<rparr>)\<rparr>"
    by simp
  show ?case using r(1) r' eq by (metis add_all_to.simps(2) sum.case(2))
qed

lemma sorted_fold_set_insert:
  "sorted_wrt (<) ys \<Longrightarrow> sorted_wrt (<) (fold set_insert xs ys)"
  by (induction xs arbitrary: ys) (simp_all add: sorted_set_insert)

lemma set_fold_set_insert: "set (fold set_insert xs ys) = set xs \<union> set ys"
  by (induction xs arbitrary: ys) (auto simp: set_set_insert)

lemma fold_set_insert_sorted:
  assumes "sorted_wrt (<) xs"
  shows "fold set_insert xs [] = xs"
proof (rule strict_sorted_unique)
  show "sorted_wrt (<) (fold set_insert xs [])" by (simp add: sorted_fold_set_insert)
  show "sorted_wrt (<) xs" by fact
  show "set (fold set_insert xs []) = set xs" by (simp add: set_fold_set_insert)
qed

lemma rows_of_below:
  assumes "well_formed s" and "h < nextInsertIndex s"
  shows "\<forall>r\<in>rows_of s h. r < nextInsertIndex s"
proof -
  obtain col where col: "matrix s h = Some col" using wf_column[OF assms] by blast
  then have "\<forall>r\<in>set (cc_column col). r \<le> h" using rows_below[OF assms(1)] by blast
  then show ?thesis using col assms(2) by (auto simp: rows_of_def)
qed

lemma add_chains_in_H_ok:
  assumes "well_formed s" and "valid_chains s H" and "sorted_wrt (<) column"
    and "nextInsertIndex s \<in> set column" and "\<forall>r\<in>set column. r \<le> nextInsertIndex s"
  shows "\<exists>column'. add_chains_in_H s H column = Inr column' \<and> sorted_wrt (<) column' \<and>
           nextInsertIndex s \<in> set column' \<and> (\<forall>r\<in>set column'. r \<le> nextInsertIndex s) \<and>
           set column' = fold sym_diff (map (rows_of s) H) (set column)"
  using assms(2-)
proof (induction H arbitrary: column)
  case Nil
  then show ?case by simp
next
  case (Cons h H)
  have hn: "h < nextInsertIndex s" using Cons.prems(1) by (simp add: valid_chains_def)
  have vH: "valid_chains s H" using Cons.prems(1) by (simp add: valid_chains_def)
  obtain col where col: "matrix s h = Some col" "sorted_wrt (<) (cc_column col)"
    using wf_column[OF assms(1) hn] by blast
  have rows: "rows_of s h = set (cc_column col)" using col(1) by (simp add: rows_of_def)
  have below: "\<forall>r\<in>set (cc_column col). r < nextInsertIndex s"
    using rows_of_below[OF assms(1) hn] rows by simp
  let ?c = "add_to_tmp col column"
  have sc: "sorted_wrt (<) ?c" using Cons.prems(2) by (rule sorted_add_to_tmp)
  have set: "set ?c = sym_diff (set column) (set (cc_column col))"
    using Cons.prems(2) col(2) by (rule set_add_to_tmp)
  have mem: "nextInsertIndex s \<in> set ?c" using set Cons.prems(3) below by auto
  have le: "\<forall>r\<in>set ?c. r \<le> nextInsertIndex s" using set Cons.prems(4) below by fastforce
  obtain column' where c': "add_chains_in_H s H ?c = Inr column'" "sorted_wrt (<) column'"
    "nextInsertIndex s \<in> set column'" "\<forall>r\<in>set column'. r \<le> nextInsertIndex s"
    "set column' = fold sym_diff (map (rows_of s) H) (set ?c)"
    using Cons.IH[OF vH sc mem le] by blast
  have "set ?c = sym_diff (rows_of s h) (set column)" using set rows by auto
  then have "set column' = fold sym_diff (map (rows_of s) (h # H)) (set column)"
    using c'(5) by simp
  moreover have "add_chains_in_H s (h # H) column = Inr column'"
    using col(1) c'(1) by (simp add: map_at_def)
  ultimately show ?case using c'(2,3,4) by blast
qed

lemma build_from_H_ok:
  assumes "well_formed s" and "valid_chains s H"
  shows "\<exists>column. build_from_H s [] H = Inr column \<and> sorted_wrt (<) column \<and> column \<noteq> [] \<and>
           last column = nextInsertIndex s \<and>
           set column = z2_sum ({nextInsertIndex s} # map (rows_of s) H)"
proof -
  obtain column where c: "add_chains_in_H s H [nextInsertIndex s] = Inr column"
    "sorted_wrt (<) column" "nextInsertIndex s \<in> set column"
    "\<forall>r\<in>set column. r \<le> nextInsertIndex s"
    "set column = fold sym_diff (map (rows_of s) H) (set [nextInsertIndex s])"
    using add_chains_in_H_ok[OF assms, of "[nextInsertIndex s]"] by auto
  have "last column = nextInsertIndex s" using c(2,3,4) by (rule strict_sorted_last_eq)
  moreover have "column \<noteq> []" using c(3) by auto
  moreover have "set column = z2_sum ({nextInsertIndex s} # map (rows_of s) H)"
    using c(5) by (simp add: z2_sum_def)
  ultimately show ?thesis using c(1,2) by (simp add: build_from_H_def)
qed

text \<open>A new unpaired column at the next index, with its bar bookkeeping.\<close>

lemma well_formed_new_column:
  assumes "well_formed s" and "sorted_wrt (<) column" and "column \<noteq> []"
    and "last column = nextInsertIndex s"
    and bars: "\<And>k. case I k of
             None \<Rightarrow> Suc (nextInsertIndex s) \<le> k
           | Some pos \<Rightarrow> k < Suc (nextInsertIndex s) \<and> pos < length B"
  shows "well_formed (s\<lparr>pivotToColumnIndex := (pivotToColumnIndex s)(nextInsertIndex s \<mapsto> nextInsertIndex s),
           matrix := (matrix s)(nextInsertIndex s \<mapsto>
              \<lparr>cc_column = column, cc_dim = dim, cc_pivot = int (nextInsertIndex s),
               cc_pairedColumn = - 1\<rparr>),
           barcode := B, indexToBar := I,
           nextInsertIndex := Suc (nextInsertIndex s)\<rparr>)" (is "well_formed ?s")
proof (rule well_formedI)
  let ?n = "nextInsertIndex s"
  have none: "matrix s ?n = None" using wf_dom[OF assms(1), of ?n] by simp
  show "(matrix ?s c \<noteq> None) = (c < nextInsertIndex ?s)" for c
    using wf_dom[OF assms(1), of c] by (auto simp: less_Suc_eq)
  show "pivotToColumnIndex ?s p = (if p < nextInsertIndex ?s then Some p else None)" for p
    using wf_pivots[OF assms(1), of p] by (auto simp: less_Suc_eq)
  show "cc_pivot col = int c \<and> sorted_wrt (<) (cc_column col) \<and>
        cc_column col \<noteq> [] \<and> last (cc_column col) = c"
    if m: "matrix ?s c = Some col" for c col
  proof (cases "c = ?n")
    case True
    then show ?thesis using m assms(2,3,4) by auto
  next
    case False
    then have "matrix s c = Some col" using m by simp
    then show ?thesis using wf_cols[OF assms(1)] by blast
  qed
  show "cc_pairedColumn col = - 1 \<or>
        (0 \<le> cc_pairedColumn col \<and>
         (\<exists>col'. matrix ?s (nat (cc_pairedColumn col)) = Some col' \<and>
                 cc_pairedColumn col' = int c))"
    if m: "matrix ?s c = Some col" for c col
  proof (cases "c = ?n")
    case True
    then show ?thesis using m by auto
  next
    case False
    then have old: "matrix s c = Some col" using m by simp
    from wf_pairs[OF assms(1) old] show ?thesis
    proof
      assume "cc_pairedColumn col = - 1"
      then show ?thesis by simp
    next
      assume "0 \<le> cc_pairedColumn col \<and>
        (\<exists>col'. matrix s (nat (cc_pairedColumn col)) = Some col' \<and> cc_pairedColumn col' = int c)"
      then obtain col' where p: "0 \<le> cc_pairedColumn col"
        "matrix s (nat (cc_pairedColumn col)) = Some col'" "cc_pairedColumn col' = int c"
        by blast
      then have "nat (cc_pairedColumn col) \<noteq> ?n" using none by auto
      then show ?thesis using p by auto
    qed
  qed
  show "case indexToBar ?s k of
             None \<Rightarrow> nextInsertIndex ?s \<le> k
           | Some pos \<Rightarrow> k < nextInsertIndex ?s \<and> pos < length (barcode ?s)" for k
    using bars[of k] by (simp split: option.splits)
qed

text \<open>Pairing two different unpaired columns with each other.\<close>

lemma well_formed_pairing:
  assumes "well_formed s" and "matrix s a = Some ca" and "matrix s b = Some cb" and "a \<noteq> b"
    and "cc_pairedColumn ca = - 1" and "cc_pairedColumn cb = - 1"
  shows "well_formed (s\<lparr>matrix := (matrix s)(a \<mapsto> ca\<lparr>cc_pairedColumn := int b\<rparr>,
                                              b \<mapsto> cb\<lparr>cc_pairedColumn := int a\<rparr>)\<rparr>)"
    (is "well_formed ?s")
proof (rule well_formedI)
  have an: "a < nextInsertIndex s" and bn: "b < nextInsertIndex s"
    using wf_dom[OF assms(1), of a] wf_dom[OF assms(1), of b] assms(2,3) by simp_all
  show "(matrix ?s c \<noteq> None) = (c < nextInsertIndex ?s)" for c
    using wf_dom[OF assms(1), of c] an bn by simp
  show "pivotToColumnIndex ?s p = (if p < nextInsertIndex ?s then Some p else None)" for p
    using wf_pivots[OF assms(1), of p] by simp
  show "cc_pivot col = int c \<and> sorted_wrt (<) (cc_column col) \<and>
        cc_column col \<noteq> [] \<and> last (cc_column col) = c"
    if m: "matrix ?s c = Some col" for c col
  proof -
    obtain old where "matrix s c = Some old" "cc_pivot old = cc_pivot col"
      "cc_column old = cc_column col"
      using m assms(2,3) by (cases "c = a"; cases "c = b") auto
    then show ?thesis using wf_cols[OF assms(1), of c old] by simp
  qed
  show "cc_pairedColumn col = - 1 \<or>
        (0 \<le> cc_pairedColumn col \<and>
         (\<exists>col'. matrix ?s (nat (cc_pairedColumn col)) = Some col' \<and>
                 cc_pairedColumn col' = int c))"
    if m: "matrix ?s c = Some col" for c col
  proof (cases "c = a \<or> c = b")
    case True
    then show ?thesis
    proof
      assume "c = a"
      then have "col = ca\<lparr>cc_pairedColumn := int b\<rparr>" using m assms(4) by simp
      then have "cc_pairedColumn col = int b" by simp
      moreover have "matrix ?s b = Some (cb\<lparr>cc_pairedColumn := int a\<rparr>)" by simp
      ultimately show ?thesis using \<open>c = a\<close> by simp
    next
      assume "c = b"
      then have "col = cb\<lparr>cc_pairedColumn := int a\<rparr>" using m by simp
      then have "cc_pairedColumn col = int a" by simp
      moreover have "matrix ?s a = Some (ca\<lparr>cc_pairedColumn := int b\<rparr>)"
        using assms(4) by simp
      ultimately show ?thesis using \<open>c = b\<close> by simp
    qed
  next
    case False
    then have old: "matrix s c = Some col" using m by simp
    from wf_pairs[OF assms(1) old] show ?thesis
    proof
      assume "cc_pairedColumn col = - 1"
      then show ?thesis by simp
    next
      assume "0 \<le> cc_pairedColumn col \<and>
        (\<exists>col'. matrix s (nat (cc_pairedColumn col)) = Some col' \<and> cc_pairedColumn col' = int c)"
      then obtain col' where p: "0 \<le> cc_pairedColumn col"
        "matrix s (nat (cc_pairedColumn col)) = Some col'" "cc_pairedColumn col' = int c"
        by blast
      then have "nat (cc_pairedColumn col) \<noteq> a" "nat (cc_pairedColumn col) \<noteq> b"
        using assms(2,3,5,6) by auto
      then show ?thesis using p by auto
    qed
  qed
  show "case indexToBar ?s k of
             None \<Rightarrow> nextInsertIndex ?s \<le> k
           | Some pos \<Rightarrow> k < nextInsertIndex ?s \<and> pos < length (barcode ?s)" for k
    using wf_bars[OF assms(1), of k] by (simp split: option.splits)
qed

lemma wf_fresh:
  assumes "well_formed s"
  shows "matrix s (nextInsertIndex s) = None"
    and "pivotToColumnIndex s (nextInsertIndex s) = None"
    and "indexToBar s (nextInsertIndex s) = None"
proof -
  show "matrix s (nextInsertIndex s) = None"
    using wf_dom[OF assms, of "nextInsertIndex s"] by simp
  show "pivotToColumnIndex s (nextInsertIndex s) = None"
    using wf_pivots[OF assms, of "nextInsertIndex s"] by simp
  show "indexToBar s (nextInsertIndex s) = None"
    using wf_bars[OF assms, of "nextInsertIndex s"] by (simp split: option.splits)
qed

lemma wf_bar_position:
  assumes "well_formed s" and "k < nextInsertIndex s"
  shows "\<exists>pos. indexToBar s k = Some pos \<and> pos < length (barcode s)"
  using wf_bars[OF assms(1), of k] assms(2) by (simp split: option.splits)

lemma chain_column_new_sorted:
  assumes "sorted_wrt (<) column" and "column \<noteq> []"
  shows "chain_column_new column dim =
           \<lparr>cc_column = column, cc_dim = dim, cc_pivot = int (last column), cc_pairedColumn = - 1\<rparr>"
  using assms by (simp add: chain_column_new_def fold_set_insert_sorted)

text \<open>The state after \<open>_insert_chain(column, dimension)\<close>.\<close>

lemma insert_chain_ok:
  assumes "well_formed s" and "sorted_wrt (<) column" and "column \<noteq> []"
    and "last column = nextInsertIndex s"
  shows "insert_chain column dim s =
      Inr (s\<lparr>pivotToColumnIndex := (pivotToColumnIndex s)(nextInsertIndex s \<mapsto> nextInsertIndex s),
           matrix := (matrix s)(nextInsertIndex s \<mapsto>
              \<lparr>cc_column = column, cc_dim = dim, cc_pivot = int (nextInsertIndex s),
               cc_pairedColumn = - 1\<rparr>),
           barcode := barcode s @ [\<lparr>bar_dim = dim, birth = int (nextInsertIndex s), death = - 1\<rparr>],
           indexToBar := (indexToBar s)(nextInsertIndex s \<mapsto> length (barcode s)),
           nextInsertIndex := Suc (nextInsertIndex s)\<rparr>)" (is "_ = Inr ?s")
    and "well_formed (s\<lparr>pivotToColumnIndex := (pivotToColumnIndex s)(nextInsertIndex s \<mapsto> nextInsertIndex s),
           matrix := (matrix s)(nextInsertIndex s \<mapsto>
              \<lparr>cc_column = column, cc_dim = dim, cc_pivot = int (nextInsertIndex s),
               cc_pairedColumn = - 1\<rparr>),
           barcode := barcode s @ [\<lparr>bar_dim = dim, birth = int (nextInsertIndex s), death = - 1\<rparr>],
           indexToBar := (indexToBar s)(nextInsertIndex s \<mapsto> length (barcode s)),
           nextInsertIndex := Suc (nextInsertIndex s)\<rparr>)"
proof -
  show "insert_chain column dim s = Inr ?s"
    using assms(3,4) wf_fresh[OF assms(1)] chain_column_new_sorted[OF assms(2,3), of dim]
    by (simp add: insert_chain_def map_emplace_def)
  have bars: "case ((indexToBar s)(nextInsertIndex s \<mapsto> length (barcode s))) k of
             None \<Rightarrow> Suc (nextInsertIndex s) \<le> k
           | Some pos \<Rightarrow> k < Suc (nextInsertIndex s) \<and>
               pos < length (barcode s @ [\<lparr>bar_dim = dim, birth = int (nextInsertIndex s), death = - 1\<rparr>])"
    for k
    using wf_bars[OF assms(1), of k] by (auto split: option.splits)
  show "well_formed ?s"
    using well_formed_new_column[OF assms,
        where I = "(indexToBar s)(nextInsertIndex s \<mapsto> length (barcode s))"
        and B = "barcode s @ [\<lparr>bar_dim = dim, birth = int (nextInsertIndex s), death = - 1\<rparr>]"
        and dim = dim] bars
    by simp
qed

text \<open>The state after \<open>_insert_chain(column, dimension, pair)\<close>.\<close>

lemma insert_chain_paired_ok:
  assumes "well_formed s" and "sorted_wrt (<) column" and "column \<noteq> []"
    and "last column = nextInsertIndex s"
    and "matrix s fp = Some cf" and "\<not> is_paired cf" and "indexToBar s fp = Some pos"
  shows "insert_chain_paired column dim fp s =
      Inr (s\<lparr>pivotToColumnIndex := (pivotToColumnIndex s)(nextInsertIndex s \<mapsto> nextInsertIndex s),
           matrix := (matrix s)(nextInsertIndex s \<mapsto>
              \<lparr>cc_column = column, cc_dim = dim, cc_pivot = int (nextInsertIndex s),
               cc_pairedColumn = int fp\<rparr>,
              fp \<mapsto> cf\<lparr>cc_pairedColumn := int (nextInsertIndex s)\<rparr>),
           barcode := (barcode s)[pos := (barcode s ! pos)\<lparr>death := int (nextInsertIndex s)\<rparr>],
           indexToBar := (indexToBar s)(nextInsertIndex s \<mapsto> pos),
           nextInsertIndex := Suc (nextInsertIndex s)\<rparr>)" (is "_ = Inr ?s")
    and "well_formed (s\<lparr>pivotToColumnIndex := (pivotToColumnIndex s)(nextInsertIndex s \<mapsto> nextInsertIndex s),
           matrix := (matrix s)(nextInsertIndex s \<mapsto>
              \<lparr>cc_column = column, cc_dim = dim, cc_pivot = int (nextInsertIndex s),
               cc_pairedColumn = int fp\<rparr>,
              fp \<mapsto> cf\<lparr>cc_pairedColumn := int (nextInsertIndex s)\<rparr>),
           barcode := (barcode s)[pos := (barcode s ! pos)\<lparr>death := int (nextInsertIndex s)\<rparr>],
           indexToBar := (indexToBar s)(nextInsertIndex s \<mapsto> pos),
           nextInsertIndex := Suc (nextInsertIndex s)\<rparr>)"
proof -
  let ?n = "nextInsertIndex s"
  have fpn: "fp < ?n" using wf_dom[OF assms(1), of fp] assms(5) by simp
  then have ne: "fp \<noteq> ?n" by simp
  have piv: "cc_pivot cf = int fp" using wf_cols[OF assms(1,5)] by simp
  have posl: "pos < length (barcode s)"
    using wf_bar_position[OF assms(1) fpn] assms(7) by simp
  show "insert_chain_paired column dim fp s = Inr ?s"
    using assms(3,4,5,7) ne piv wf_fresh[OF assms(1)]
      chain_column_new_sorted[OF assms(2,3), of dim]
    by (simp add: insert_chain_paired_def map_emplace_def map_at_def map_at_int_def Let_def
        assign_paired_chain_def get_pivot_def)
  let ?B = "(barcode s)[pos := (barcode s ! pos)\<lparr>death := int ?n\<rparr>]"
  let ?I = "(indexToBar s)(?n \<mapsto> pos)"
  have bars: "case ?I k of None \<Rightarrow> Suc ?n \<le> k
           | Some p \<Rightarrow> k < Suc ?n \<and> p < length ?B" for k
    using wf_bars[OF assms(1), of k] posl by (auto split: option.splits)
  let ?s1 = "s\<lparr>pivotToColumnIndex := (pivotToColumnIndex s)(?n \<mapsto> ?n),
           matrix := (matrix s)(?n \<mapsto>
              \<lparr>cc_column = column, cc_dim = dim, cc_pivot = int ?n, cc_pairedColumn = - 1\<rparr>),
           barcode := ?B, indexToBar := ?I, nextInsertIndex := Suc ?n\<rparr>"
  have wf1: "well_formed ?s1"
    using well_formed_new_column[OF assms(1-4), where I = ?I and B = ?B and dim = dim] bars
    by simp
  have a: "matrix ?s1 ?n =
      Some \<lparr>cc_column = column, cc_dim = dim, cc_pivot = int ?n, cc_pairedColumn = - 1\<rparr>"
    by simp
  have b: "matrix ?s1 fp = Some cf" using ne assms(5) by simp
  have unp: "cc_pairedColumn cf = - 1" using assms(6) by (simp add: is_paired_def)
  have wf2: "well_formed (?s1\<lparr>matrix := (matrix ?s1)
      (?n \<mapsto> \<lparr>cc_column = column, cc_dim = dim, cc_pivot = int ?n, cc_pairedColumn = - 1\<rparr>
                  \<lparr>cc_pairedColumn := int fp\<rparr>,
       fp \<mapsto> cf\<lparr>cc_pairedColumn := int ?n\<rparr>)\<rparr>)"
    using well_formed_pairing[OF wf1 a b ne[symmetric] _ unp] by simp
  have eq: "?s1\<lparr>matrix := (matrix ?s1)
      (?n \<mapsto> \<lparr>cc_column = column, cc_dim = dim, cc_pivot = int ?n, cc_pairedColumn = - 1\<rparr>
                  \<lparr>cc_pairedColumn := int fp\<rparr>,
       fp \<mapsto> cf\<lparr>cc_pairedColumn := int ?n\<rparr>)\<rparr> = ?s"
    by (rule chain_matrix.equality) simp_all
  from wf2 show "well_formed ?s" by (simp only: eq)
qed


lemma valid_chains_count_dimension:
  "valid_chains (count_dimension b s) H = valid_chains s H"
  by (simp add: valid_chains_def count_dimension_frame)

text \<open>
  A column reduced to zero by paired columns: the new column is unpaired and a bar
  without death is appended.
\<close>

lemma insert_new_cycle:
  assumes "well_formed s" and "valid_chains s H"
  shows "\<exists>s' col.
     insert_reduced s dim ess0 (New_cycle H) = Inr (s', ess0) \<and> well_formed s' \<and>
     nextInsertIndex s' = Suc (nextInsertIndex s) \<and>
     matrix s' (nextInsertIndex s) = Some col \<and> \<not> is_paired col \<and> cc_dim col = dim \<and>
     get_pivot col = int (nextInsertIndex s) \<and>
     set (cc_column col) = z2_sum ({nextInsertIndex s} # map (rows_of s) H) \<and>
     barcode s' = barcode s @ [\<lparr>bar_dim = dim, birth = int (nextInsertIndex s), death = - 1\<rparr>] \<and>
     indexToBar s' = (indexToBar s)(nextInsertIndex s \<mapsto> length (barcode s)) \<and>
     (\<forall>c. c \<noteq> nextInsertIndex s \<longrightarrow> matrix s' c = matrix s c)"
proof -
  obtain column where c: "build_from_H s [] H = Inr column" "sorted_wrt (<) column"
    "column \<noteq> []" "last column = nextInsertIndex s"
    "set column = z2_sum ({nextInsertIndex s} # map (rows_of s) H)"
    using build_from_H_ok[OF assms] by blast
  note ok = insert_chain_ok[OF assms(1) c(2,3,4), of dim]
  show ?thesis
    using c(1,5) ok
    by (simp add: insert_reduced_def is_paired_def get_pivot_def)
qed

text \<open>
  A column reduced with the help of unpaired columns: the new column is paired with
  the first of them, whose bar gets the new index as its death.
\<close>

lemma insert_new_pair:
  assumes "well_formed s" and "valid_chains s H" and "essential_chains s (fp # others) []"
  shows "\<exists>s' col cf0 cf pos.
     insert_reduced s dim ess0 (New_pair H (fp # others)) = Inr (s', fp # others) \<and>
     well_formed s' \<and> nextInsertIndex s' = Suc (nextInsertIndex s) \<and>
     matrix s fp = Some cf0 \<and> \<not> is_paired cf0 \<and>
     matrix s' (nextInsertIndex s) = Some col \<and>
     get_paired_chain_index col = int fp \<and> cc_dim col = dim \<and>
     get_pivot col = int (nextInsertIndex s) \<and>
     set (cc_column col) = z2_sum ({nextInsertIndex s} # map (rows_of s) H) \<and>
     matrix s' fp = Some cf \<and> get_paired_chain_index cf = int (nextInsertIndex s) \<and>
     indexToBar s fp = Some pos \<and> pos < length (barcode s) \<and>
     barcode s' = (barcode s)[pos := (barcode s ! pos)\<lparr>death := int (nextInsertIndex s)\<rparr>] \<and>
     indexToBar s' = (indexToBar s)(nextInsertIndex s \<mapsto> pos) \<and>
     (\<forall>c. c \<noteq> nextInsertIndex s \<longrightarrow> c \<noteq> fp \<longrightarrow> matrix s' c = matrix s c)"
proof -
  let ?n = "nextInsertIndex s"
  have small: "\<forall>c\<in>set others. c < fp"
    using assms(3) by (simp add: essential_chains_def)
  obtain cf0 where cf0: "matrix s fp = Some cf0" "\<not> is_paired cf0"
    using assms(3) by (auto simp: essential_chains_def)
  have fpn: "fp < ?n" using wf_dom[OF assms(1), of fp] cf0(1) by simp
  obtain rows where r:
    "add_all_to others fp s = Inr (s\<lparr>matrix := (matrix s)(fp \<mapsto> cf0\<lparr>cc_column := rows\<rparr>)\<rparr>)"
    "well_formed (s\<lparr>matrix := (matrix s)(fp \<mapsto> cf0\<lparr>cc_column := rows\<rparr>)\<rparr>)"
    using add_all_to_smaller[OF assms(1) small cf0(1)] by blast
  let ?s1 = "s\<lparr>matrix := (matrix s)(fp \<mapsto> cf0\<lparr>cc_column := rows\<rparr>)\<rparr>"
  have upd: "update_largest_death_in_F (fp # others) fp s = Inr ?s1"
    using r(1) by (simp add: update_largest_death_in_F_def)
  have notfp: "\<forall>h\<in>set H. h \<noteq> fp"
    using assms(2) cf0 by (auto simp: valid_chains_def)
  then have v1: "valid_chains ?s1 H" using assms(2) by (auto simp: valid_chains_def)
  have rows1: "map (rows_of ?s1) H = map (rows_of s) H"
    using notfp by (simp add: rows_of_def)
  obtain column where c: "build_from_H ?s1 [] H = Inr column" "sorted_wrt (<) column"
    "column \<noteq> []" "last column = nextInsertIndex ?s1"
    "set column = z2_sum ({nextInsertIndex ?s1} # map (rows_of ?s1) H)"
    using build_from_H_ok[OF r(2) v1] by blast
  obtain pos where pos: "indexToBar s fp = Some pos" "pos < length (barcode s)"
    using wf_bar_position[OF assms(1) fpn] by blast
  have m1: "matrix ?s1 fp = Some (cf0\<lparr>cc_column := rows\<rparr>)" by simp
  have u1: "\<not> is_paired (cf0\<lparr>cc_column := rows\<rparr>)" using cf0(2) by (simp add: is_paired_def)
  have i1: "indexToBar ?s1 fp = Some pos" using pos(1) by simp
  note ok = insert_chain_paired_ok[OF r(2) c(2,3,4) m1 u1 i1, of dim]
  have ne: "fp \<noteq> ?n" using fpn by simp
  show ?thesis
    using upd c(1,5) ok cf0 pos rows1 ne
    by (simp add: insert_reduced_def get_paired_chain_index_def get_pivot_def)
qed

lemma tmp_column_of_boundary:
  assumes "boundary \<noteq> []"
  shows "sorted_wrt (<) (fold set_insert boundary [])" and "fold set_insert boundary [] \<noteq> []"
    and "set (fold set_insert boundary []) = set boundary"
proof -
  show "sorted_wrt (<) (fold set_insert boundary [])" by (simp add: sorted_fold_set_insert)
  show s: "set (fold set_insert boundary []) = set boundary" by (simp add: set_fold_set_insert)
  show "fold set_insert boundary [] \<noteq> []" using s assms by (metis set_empty)
qed

lemma tmp_column_last:
  assumes "boundary \<noteq> []"
  shows "(last (fold set_insert boundary []) < n) = (\<forall>x\<in>set boundary. x < n)"
proof -
  let ?c = "fold set_insert boundary []"
  note t = tmp_column_of_boundary[OF assms]
  have "last ?c \<in> set boundary" using t(2,3) last_in_set by blast
  moreover have "\<forall>x\<in>set boundary. x \<le> last ?c"
    using strict_sorted_le_last[OF t(1)] t(3) by simp
  ultimately show ?thesis by (meson le_less_trans)
qed

text \<open>
  An insertion ends: with a failure when the boundary names a face that is not in the
  matrix, and with a well-formed state otherwise.
\<close>

lemma insert_boundary_with_total:
  assumes "well_formed s" and "\<forall>x\<in>set boundary. x < nextInsertIndex s"
  shows "\<exists>s' ess. insert_boundary_with boundary [] s = Some (Inr (s', ess)) \<and>
           well_formed s' \<and> nextInsertIndex s' = Suc (nextInsertIndex s)"
proof (cases "boundary = []")
  case True
  let ?s = "count_dimension boundary s"
  have wf: "well_formed ?s" using assms(1) by (rule well_formed_count_dimension)
  have n: "nextInsertIndex ?s = nextInsertIndex s" by (simp add: count_dimension_frame)
  have "sorted_wrt (<) [nextInsertIndex ?s]" "[nextInsertIndex ?s] \<noteq> []"
    "last [nextInsertIndex ?s] = nextInsertIndex ?s" by simp_all
  note ok = insert_chain_ok[OF wf this, of 0]
  show ?thesis
    using True ok n by (simp add: insert_boundary_with_def reduce_boundary_def)
next
  case False
  let ?s = "count_dimension boundary s"
  let ?c = "fold set_insert boundary []"
  have wf: "well_formed ?s" using assms(1) by (rule well_formed_count_dimension)
  have n: "nextInsertIndex ?s = nextInsertIndex s" by (simp add: count_dimension_frame)
  note t = tmp_column_of_boundary[OF False]
  have lt: "last ?c < nextInsertIndex ?s"
    using assms(2) tmp_column_last[OF False] n by simp
  obtain r where r: "reduce_column ?s ?c [] = Some (Inr r)"
    "(case r of
        New_cycle H \<Rightarrow> valid_chains ?s H
      | New_pair H ess \<Rightarrow> valid_chains ?s H \<and> ess \<noteq> [] \<and> essential_chains ?s ess [])"
    using reduce_column_total[OF wf t(1,2) lt] by blast
  show ?thesis
  proof (cases r)
    case (New_cycle H)
    then have "valid_chains ?s H" using r(2) by simp
    from insert_new_cycle[OF wf this] show ?thesis
      using False r(1) New_cycle n
      by (fastforce simp: insert_boundary_with_def reduce_boundary_def)
  next
    case (New_pair H ess)
    then have v: "valid_chains ?s H" and "ess \<noteq> []" and e: "essential_chains ?s ess []"
      using r(2) by simp_all
    then obtain fp others where ess: "ess = fp # others" by (cases ess) auto
    from insert_new_pair[OF wf v e[unfolded ess]] show ?thesis
      using False r(1) New_pair n ess
      by (fastforce simp: insert_boundary_with_def reduce_boundary_def)
  qed
qed

lemma insert_boundary_with_out_of_range:
  assumes "well_formed s" and "\<not> (\<forall>x\<in>set boundary. x < nextInsertIndex s)"
  shows "insert_boundary_with boundary ess s = Some (Inl Out_of_range)"
proof -
  let ?s = "count_dimension boundary s"
  have ne: "boundary \<noteq> []" using assms(2) by auto
  have wf: "well_formed ?s" using assms(1) by (rule well_formed_count_dimension)
  have "\<not> last (fold set_insert boundary []) < nextInsertIndex ?s"
    using assms(2) tmp_column_last[OF ne] by (simp add: count_dimension_frame)
  from reduce_column_out_of_range[OF wf this] show ?thesis
    using ne by (simp add: insert_boundary_with_def reduce_boundary_def)
qed

lemma insert_boundary_well_formed:
  assumes "well_formed s" and "insert_boundary boundary s = Some (Inr s')"
  shows "well_formed s' \<and> nextInsertIndex s' = Suc (nextInsertIndex s) \<and>
         (\<forall>x\<in>set boundary. x < nextInsertIndex s)"
proof (cases "\<forall>x\<in>set boundary. x < nextInsertIndex s")
  case True
  from insert_boundary_with_total[OF assms(1) True] show ?thesis
    using assms(2) True by (auto simp: insert_boundary_def)
next
  case False
  from insert_boundary_with_out_of_range[OF assms(1) False, of "[]"] show ?thesis
    using assms(2) by (simp add: insert_boundary_def)
qed

lemma reachable_well_formed: "reachable s \<Longrightarrow> well_formed s"
proof (induction rule: reachable.induct)
  case reachable_empty
  show ?case by (rule well_formed_empty)
next
  case (reachable_insert s boundary s')
  then show ?case using insert_boundary_well_formed by blast
next
  case (reachable_addition s boundary chainsInH chain_fp others k s')
  let ?s = "count_dimension boundary s"
  let ?c = "fold set_insert boundary []"
  have wf: "well_formed ?s" using reachable_addition.IH by (rule well_formed_count_dimension)
  note t = tmp_column_of_boundary[OF reachable_addition.hyps(2)]
  have lt: "last ?c < nextInsertIndex ?s"
  proof (rule ccontr)
    assume "\<not> last ?c < nextInsertIndex ?s"
    from reduce_column_out_of_range[OF wf this, of "[]"] show False
      using reachable_addition.hyps(3) by simp
  qed
  obtain r where r: "reduce_column ?s ?c [] = Some (Inr r)"
    "(case r of
        New_cycle H \<Rightarrow> valid_chains ?s H
      | New_pair H ess \<Rightarrow> valid_chains ?s H \<and> ess \<noteq> [] \<and> essential_chains ?s ess [])"
    using reduce_column_total[OF wf t(1,2) lt] by blast
  then have "r = New_pair chainsInH (chain_fp # others)"
    using reachable_addition.hyps(3) by simp
  then have e: "essential_chains ?s (chain_fp # others) []" using r(2) by simp
  then have small: "\<forall>c\<in>set (take k others). c < chain_fp"
    by (auto simp: essential_chains_def dest: in_set_takeD)
  obtain cf0 where cf0: "matrix ?s chain_fp = Some cf0"
    using e by (auto simp: essential_chains_def)
  from add_all_to_smaller[OF wf small cf0] show ?case
    using reachable_addition.hyps(4) by auto
qed

lemma well_formed_pivot_bijection:
  assumes "well_formed s"
  shows "pivot_bijection s"
  unfolding pivot_bijection_def
proof (intro conjI allI impI)
  fix c1 c2 col1 col2
  assume a: "matrix s c1 = Some col1 \<and> matrix s c2 = Some col2 \<and>
        \<not> is_empty col1 \<and> \<not> is_empty col2 \<and> get_pivot col1 = get_pivot col2"
  then have "cc_pivot col1 = int c1" "cc_pivot col2 = int c2"
    using wf_cols[OF assms] by blast+
  then show "c1 = c2" using a by (simp add: get_pivot_def)
next
  fix c col
  assume a: "matrix s c = Some col \<and> \<not> is_empty col"
  then have "cc_pivot col = int c" using wf_cols[OF assms] by blast
  moreover have "c < nextInsertIndex s" using wf_dom[OF assms, of c] a by simp
  ultimately show "map_at_int (pivotToColumnIndex s) (get_pivot col) = Inr c"
    using wf_pivot_lookup[OF assms] by (simp add: map_at_int_def get_pivot_def)
next
  fix p c
  assume a: "pivotToColumnIndex s p = Some c"
  then have pc: "p < nextInsertIndex s" "c = p"
    using wf_pivots[OF assms, of p] by (auto split: if_splits)
  then obtain col where "matrix s c = Some col" "cc_pivot col = int c"
    using wf_column[OF assms, of c] by blast
  then show "\<exists>col. matrix s c = Some col \<and> get_pivot col = int p"
    using pc by (simp add: get_pivot_def)
qed

subsection \<open>The pivot bijection and the two-point complex\<close>

text \<open>The definitions that a concrete run of the chain matrix unfolds.\<close>

lemmas chain_eval =
  chain_matrix_of_boundaries_def insert_boundary_def insert_boundary_with_def
  reduce_boundary_def count_dimension_def reduce_column_def insert_reduced_def
  reduce_while_paired.simps reduce_until_empty.simps reduce_by_G_def reduce_by_F_def
  build_from_H_def update_largest_death_in_F_def insert_chain_def insert_chain_paired_def
  add_to_def add_to_tmp_def map_at_def map_at_int_def map_emplace_def chain_column_new_def
  set_toggle_def set_find_def is_paired_def is_non_zero_def get_pivot_def
  get_paired_chain_index_def assign_paired_chain_def index_of_int_def empty_chain_matrix_def

lemma reachable_insert_boundaries:
  "reachable s \<Longrightarrow> insert_boundaries bs s = Some (Inr s') \<Longrightarrow> reachable s'"
proof (induction bs arbitrary: s)
  case Nil
  then show ?case by simp
next
  case (Cons b bs)
  from Cons.prems(2) obtain s1 where s1: "insert_boundary b s = Some (Inr s1)"
    "insert_boundaries bs s1 = Some (Inr s')"
    by (auto split: option.splits sum.splits)
  have "reachable s1" using Cons.prems(1) s1(1) by (rule reachable_insert)
  then show ?case using s1(2) by (rule Cons.IH)
qed

lemma two_vertices_built:
  "chain_matrix_of_boundaries [[], []] = Some (Inr two_vertices)"
  by (simp add: two_vertices_def result_def chain_eval)

lemma reachable_two_vertices: "reachable two_vertices"
  using reachable_insert_boundaries[OF reachable_empty]
    two_vertices_built[unfolded chain_matrix_of_boundaries_def] by blast

lemma two_vertices_fields:
  "nextInsertIndex two_vertices = 2"
  "matrix two_vertices 0 = Some \<lparr>cc_column = [0], cc_dim = 0, cc_pivot = 0, cc_pairedColumn = - 1\<rparr>"
  "matrix two_vertices 1 = Some \<lparr>cc_column = [1], cc_dim = 0, cc_pivot = 1, cc_pairedColumn = - 1\<rparr>"
  "barcode two_vertices =
     [\<lparr>bar_dim = 0, birth = 0, death = - 1\<rparr>, \<lparr>bar_dim = 0, birth = 1, death = - 1\<rparr>]"
  by (simp_all add: two_vertices_def result_def chain_eval)

subsection \<open>The pivots in every state, whatever the caller passes\<close>

lemma pcI:
  assumes "\<And>c. (matrix s c \<noteq> None) = (c < nextInsertIndex s)"
    and "\<And>p. (pivotToColumnIndex s p \<noteq> None) = (p < nextInsertIndex s)"
    and "\<And>c col. matrix s c = Some col \<Longrightarrow>
        sorted_wrt (<) (cc_column col) \<and> (\<forall>r\<in>set (cc_column col). r < nextInsertIndex s) \<and>
        0 \<le> cc_pivot col \<and> pivotToColumnIndex s (nat (cc_pivot col)) = Some c"
    and "\<And>p c. pivotToColumnIndex s p = Some c \<Longrightarrow>
        \<exists>col. matrix s c = Some col \<and> cc_pivot col = int p"
  shows "pivots_consistent s"
  unfolding pivots_consistent_def using assms by blast

lemma pc_dom: "pivots_consistent s \<Longrightarrow> (matrix s c \<noteq> None) = (c < nextInsertIndex s)"
  by (simp add: pivots_consistent_def)

lemma pc_keys:
  "pivots_consistent s \<Longrightarrow> (pivotToColumnIndex s p \<noteq> None) = (p < nextInsertIndex s)"
  by (simp add: pivots_consistent_def)

lemma pc_col:
  "pivots_consistent s \<Longrightarrow> matrix s c = Some col \<Longrightarrow>
   sorted_wrt (<) (cc_column col) \<and> (\<forall>r\<in>set (cc_column col). r < nextInsertIndex s) \<and>
   0 \<le> cc_pivot col \<and> pivotToColumnIndex s (nat (cc_pivot col)) = Some c"
  unfolding pivots_consistent_def by blast

lemma pc_key:
  "pivots_consistent s \<Longrightarrow> pivotToColumnIndex s p = Some c \<Longrightarrow>
   \<exists>col. matrix s c = Some col \<and> cc_pivot col = int p"
  unfolding pivots_consistent_def by blast

lemma pivots_consistent_empty: "pivots_consistent empty_chain_matrix"
  by (simp add: pivots_consistent_def empty_chain_matrix_def)

lemma pivots_consistent_count_dimension:
  "pivots_consistent s \<Longrightarrow> pivots_consistent (count_dimension b s)"
  unfolding pivots_consistent_def count_dimension_frame by assumption

lemma pivots_consistent_pivot_bijection:
  assumes "pivots_consistent s"
  shows "pivot_bijection s"
  unfolding pivot_bijection_def
proof (intro conjI allI impI)
  fix c1 c2 col1 col2
  assume a: "matrix s c1 = Some col1 \<and> matrix s c2 = Some col2 \<and>
        \<not> is_empty col1 \<and> \<not> is_empty col2 \<and> get_pivot col1 = get_pivot col2"
  have "pivotToColumnIndex s (nat (cc_pivot col1)) = Some c1"
    "pivotToColumnIndex s (nat (cc_pivot col2)) = Some c2"
    using pc_col[OF assms] a by blast+
  then show "c1 = c2" using a by (simp add: get_pivot_def)
next
  fix c col
  assume a: "matrix s c = Some col \<and> \<not> is_empty col"
  then have "0 \<le> cc_pivot col" "pivotToColumnIndex s (nat (cc_pivot col)) = Some c"
    using pc_col[OF assms] by blast+
  then show "map_at_int (pivotToColumnIndex s) (get_pivot col) = Inr c"
    by (simp add: map_at_int_def map_at_def get_pivot_def)
next
  fix p c
  assume "pivotToColumnIndex s p = Some c"
  then show "\<exists>col. matrix s c = Some col \<and> get_pivot col = int p"
    using pc_key[OF assms] by (simp add: get_pivot_def)
qed

text \<open>Rows of a temporary column after the rows of a stored column were toggled.\<close>

lemma fold_toggle_bounded:
  assumes "sorted_wrt (<) c" and "\<forall>r\<in>set c. P r" and "\<forall>r\<in>set b. P r"
  shows "\<forall>r\<in>set (fold set_toggle b c). P r"
  using assms
proof (induction b arbitrary: c)
  case Nil
  then show ?case by simp
next
  case (Cons v b)
  have s: "sorted_wrt (<) (set_toggle v c)" using Cons.prems(1) by (rule sorted_set_toggle)
  have "\<forall>r\<in>set (set_toggle v c). P r"
    using Cons.prems set_set_toggle[OF Cons.prems(1), of v] by auto
  then show ?case using Cons.IH[OF s] Cons.prems(3) by simp
qed

lemma fold_toggle_keeps:
  assumes "sorted_wrt (<) c" and "x \<in> set c" and "x \<notin> set b"
  shows "x \<in> set (fold set_toggle b c)"
  using assms
proof (induction b arbitrary: c)
  case Nil
  then show ?case by simp
next
  case (Cons v b)
  have s: "sorted_wrt (<) (set_toggle v c)" using Cons.prems(1) by (rule sorted_set_toggle)
  have "x \<in> set (set_toggle v c)"
    using Cons.prems set_set_toggle[OF Cons.prems(1), of v] by auto
  then show ?case using Cons.IH[OF s] Cons.prems(3) by simp
qed

lemma pc_add_to:
  assumes "pivots_consistent s" and "add_to src tgt s = Inr s'"
  shows "pivots_consistent s' \<and> nextInsertIndex s' = nextInsertIndex s"
proof -
  let ?n = "nextInsertIndex s"
  from assms(2) obtain ct cs where ct: "matrix s tgt = Some ct" and cs: "matrix s src = Some cs"
    and ne: "src \<noteq> tgt"
    by (auto simp: add_to_def map_at_def split: option.splits if_splits)
  let ?rows = "fold set_toggle (cc_column cs) (cc_column ct)"
  let ?t = "ct\<lparr>cc_column := ?rows\<rparr>"
  note pt = pc_col[OF assms(1) ct]
  note ps = pc_col[OF assms(1) cs]
  have srt: "sorted_wrt (<) ?rows" using pt by (simp add: sorted_fold_toggle)
  have bnd: "\<forall>r\<in>set ?rows. r < ?n"
    using fold_toggle_bounded[of "cc_column ct" "\<lambda>r. r < ?n" "cc_column cs"] pt ps by blast
  have pne: "nat (cc_pivot ct) \<noteq> nat (cc_pivot cs)"
    using pt ps ne by auto
  show ?thesis
  proof (cases "is_non_zero ?t (cc_pivot ?t)")
    case True
    then have s': "s' = s\<lparr>matrix := (matrix s)(tgt \<mapsto> ?t)\<rparr>"
      using assms(2) ct cs ne by (simp add: add_to_def map_at_def Let_def)
    have "pivots_consistent (s\<lparr>matrix := (matrix s)(tgt \<mapsto> ?t)\<rparr>)"
    proof (rule pcI)
      show "(matrix (s\<lparr>matrix := (matrix s)(tgt \<mapsto> ?t)\<rparr>) c \<noteq> None) =
            (c < nextInsertIndex (s\<lparr>matrix := (matrix s)(tgt \<mapsto> ?t)\<rparr>))" for c
        using pc_dom[OF assms(1), of c] pc_dom[OF assms(1), of tgt] ct by simp
      show "(pivotToColumnIndex (s\<lparr>matrix := (matrix s)(tgt \<mapsto> ?t)\<rparr>) p \<noteq> None) =
            (p < nextInsertIndex (s\<lparr>matrix := (matrix s)(tgt \<mapsto> ?t)\<rparr>))" for p
        using pc_keys[OF assms(1), of p] by simp
      show "sorted_wrt (<) (cc_column col) \<and>
            (\<forall>r\<in>set (cc_column col). r < nextInsertIndex (s\<lparr>matrix := (matrix s)(tgt \<mapsto> ?t)\<rparr>)) \<and>
            0 \<le> cc_pivot col \<and>
            pivotToColumnIndex (s\<lparr>matrix := (matrix s)(tgt \<mapsto> ?t)\<rparr>) (nat (cc_pivot col)) = Some c"
        if "matrix (s\<lparr>matrix := (matrix s)(tgt \<mapsto> ?t)\<rparr>) c = Some col" for c col
      proof (cases "c = tgt")
        case True
        then have "col = ?t" using that by simp
        then show ?thesis using srt bnd pt True by simp
      next
        case False
        then have "matrix s c = Some col" using that by simp
        then show ?thesis using pc_col[OF assms(1)] by simp
      qed
      show "\<exists>col. matrix (s\<lparr>matrix := (matrix s)(tgt \<mapsto> ?t)\<rparr>) c = Some col \<and>
              cc_pivot col = int p"
        if "pivotToColumnIndex (s\<lparr>matrix := (matrix s)(tgt \<mapsto> ?t)\<rparr>) p = Some c" for p c
      proof -
        from that have k: "pivotToColumnIndex s p = Some c" by simp
        then obtain col where col: "matrix s c = Some col" "cc_pivot col = int p"
          using pc_key[OF assms(1)] by blast
        show ?thesis
        proof (cases "c = tgt")
          case True
          then show ?thesis using col ct by simp
        next
          case False
          then show ?thesis using col by simp
        qed
      qed
    qed
    then show ?thesis using s' by simp
  next
    case False
    have kt: "map_at_int (pivotToColumnIndex s) (cc_pivot ?t) = Inr tgt"
      using pt by (simp add: map_at_int_def map_at_def)
    have ks: "map_at_int (pivotToColumnIndex s) (get_pivot cs) = Inr src"
      using ps by (simp add: map_at_int_def map_at_def get_pivot_def)
    let ?m = "(matrix s)(tgt \<mapsto> ?t\<lparr>cc_pivot := cc_pivot cs\<rparr>, src \<mapsto> cs\<lparr>cc_pivot := cc_pivot ?t\<rparr>)"
    let ?d = "(pivotToColumnIndex s)(nat (cc_pivot ?t) \<mapsto> src, nat (cc_pivot cs) \<mapsto> tgt)"
    let ?s = "s\<lparr>matrix := ?m, pivotToColumnIndex := ?d\<rparr>"
    have s': "s' = ?s"
      using assms(2) ct cs ne False kt ks by (simp add: add_to_def map_at_def Let_def)
    have tn: "tgt < ?n" and sn: "src < ?n"
      using pc_dom[OF assms(1), of tgt] pc_dom[OF assms(1), of src] ct cs by simp_all
    have ptn: "nat (cc_pivot ct) < ?n" and psn: "nat (cc_pivot cs) < ?n"
      using pc_keys[OF assms(1), of "nat (cc_pivot ct)"] pc_keys[OF assms(1), of "nat (cc_pivot cs)"]
        pt ps by simp_all
    have "pivots_consistent ?s"
    proof (rule pcI)
      show "(matrix ?s c \<noteq> None) = (c < nextInsertIndex ?s)" for c
        using pc_dom[OF assms(1), of c] tn sn by simp
      show "(pivotToColumnIndex ?s p \<noteq> None) = (p < nextInsertIndex ?s)" for p
        using pc_keys[OF assms(1), of p] ptn psn by simp
      show "sorted_wrt (<) (cc_column col) \<and> (\<forall>r\<in>set (cc_column col). r < nextInsertIndex ?s) \<and>
            0 \<le> cc_pivot col \<and> pivotToColumnIndex ?s (nat (cc_pivot col)) = Some c"
        if m: "matrix ?s c = Some col" for c col
      proof -
        consider "c = src" | "c = tgt" "c \<noteq> src" | "c \<noteq> src" "c \<noteq> tgt" by blast
        then show ?thesis
        proof cases
          case 1
          then have "col = cs\<lparr>cc_pivot := cc_pivot ?t\<rparr>" using m by simp
          then show ?thesis using ps pt 1 pne by simp
        next
          case 2
          then have "col = ?t\<lparr>cc_pivot := cc_pivot cs\<rparr>" using m by simp
          then show ?thesis using srt bnd ps 2 by simp
        next
          case 3
          then have c: "matrix s c = Some col" using m by simp
          note pc = pc_col[OF assms(1) c]
          have "nat (cc_pivot col) \<noteq> nat (cc_pivot ct)" "nat (cc_pivot col) \<noteq> nat (cc_pivot cs)"
            using pc pt ps 3 by auto
          then show ?thesis using pc by simp
        qed
      qed
      show "\<exists>col. matrix ?s c = Some col \<and> cc_pivot col = int p"
        if k: "pivotToColumnIndex ?s p = Some c" for p c
      proof -
        consider "p = nat (cc_pivot cs)" | "p = nat (cc_pivot ct)" "p \<noteq> nat (cc_pivot cs)"
          | "p \<noteq> nat (cc_pivot cs)" "p \<noteq> nat (cc_pivot ct)" by blast
        then show ?thesis
        proof cases
          case 1
          then have "c = tgt" using k by simp
          then show ?thesis using ne 1 ps by simp
        next
          case 2
          then have "c = src" using k by simp
          then show ?thesis using 2 pt by simp
        next
          case 3
          then have k0: "pivotToColumnIndex s p = Some c" using k by simp
          then obtain col where col: "matrix s c = Some col" "cc_pivot col = int p"
            using pc_key[OF assms(1)] by blast
          have "c \<noteq> tgt" "c \<noteq> src" using col ct cs 3 by auto
          then show ?thesis using col by simp
        qed
      qed
    qed
    then show ?thesis using s' by simp
  qed
qed

lemma pc_add_all_to:
  assumes "pivots_consistent s" and "add_all_to others tgt s = Inr s'"
  shows "pivots_consistent s' \<and> nextInsertIndex s' = nextInsertIndex s"
  using assms
proof (induction others arbitrary: s)
  case Nil
  then show ?case by simp
next
  case (Cons c others)
  from Cons.prems(2) obtain s1 where s1: "add_to c tgt s = Inr s1"
    "add_all_to others tgt s1 = Inr s'"
    by (auto split: sum.splits)
  note a = pc_add_to[OF Cons.prems(1) s1(1)]
  show ?case using Cons.IH[OF _ s1(2)] a by simp
qed

lemma pc_add_chains_in_H:
  assumes "pivots_consistent s" and "sorted_wrt (<) column"
    and "nextInsertIndex s \<in> set column" and "\<forall>r\<in>set column. r \<le> nextInsertIndex s"
    and "add_chains_in_H s H column = Inr c"
  shows "sorted_wrt (<) c \<and> nextInsertIndex s \<in> set c \<and> (\<forall>r\<in>set c. r \<le> nextInsertIndex s)"
  using assms(2-)
proof (induction H arbitrary: column)
  case Nil
  then show ?case by simp
next
  case (Cons h H)
  from Cons.prems(4) obtain col where col: "matrix s h = Some col"
    and rest: "add_chains_in_H s H (add_to_tmp col column) = Inr c"
    by (auto simp: map_at_def split: option.splits)
  note pc = pc_col[OF assms(1) col]
  let ?c = "add_to_tmp col column"
  have 1: "sorted_wrt (<) ?c" using Cons.prems(1) by (rule sorted_add_to_tmp)
  have "nextInsertIndex s \<notin> set (cc_column col)" using pc by auto
  then have 2: "nextInsertIndex s \<in> set ?c"
    unfolding add_to_tmp_def using Cons.prems(1,2) by (simp add: fold_toggle_keeps)
  have "\<forall>r\<in>set (cc_column col). r \<le> nextInsertIndex s" using pc by auto
  then have 3: "\<forall>r\<in>set ?c. r \<le> nextInsertIndex s"
    unfolding add_to_tmp_def
    using fold_toggle_bounded[of column "\<lambda>r. r \<le> nextInsertIndex s" "cc_column col"]
      Cons.prems(1,3) by blast
  show ?case using Cons.IH[OF 1 2 3 rest] .
qed

lemma pc_build_from_H:
  assumes "pivots_consistent s" and "build_from_H s [] H = Inr c"
  shows "sorted_wrt (<) c \<and> c \<noteq> [] \<and> last c = nextInsertIndex s \<and>
         (\<forall>r\<in>set c. r \<le> nextInsertIndex s)"
proof -
  have "sorted_wrt (<) c \<and> nextInsertIndex s \<in> set c \<and> (\<forall>r\<in>set c. r \<le> nextInsertIndex s)"
    using pc_add_chains_in_H[OF assms(1), of "set_insert (nextInsertIndex s) []" H c]
      assms(2) by (simp add: build_from_H_def)
  then show ?thesis using strict_sorted_last_eq[of c "nextInsertIndex s"] by auto
qed

lemma pc_new_column:
  assumes "pivots_consistent s" and "sorted_wrt (<) c" and "c \<noteq> []"
    and "last c = nextInsertIndex s" and "\<forall>r\<in>set c. r \<le> nextInsertIndex s"
    and "matrix s' = (matrix s)(nextInsertIndex s \<mapsto> col)"
    and "cc_column col = c" and "cc_pivot col = int (nextInsertIndex s)"
    and "pivotToColumnIndex s' = (pivotToColumnIndex s)(nextInsertIndex s \<mapsto> nextInsertIndex s)"
    and "nextInsertIndex s' = Suc (nextInsertIndex s)"
  shows "pivots_consistent s'"
proof (rule pcI)
  let ?n = "nextInsertIndex s"
  show "(matrix s' k \<noteq> None) = (k < nextInsertIndex s')" for k
    using pc_dom[OF assms(1), of k] assms(6,10) by auto
  show "(pivotToColumnIndex s' p \<noteq> None) = (p < nextInsertIndex s')" for p
    using pc_keys[OF assms(1), of p] assms(9,10) by auto
  show "sorted_wrt (<) (cc_column col') \<and> (\<forall>r\<in>set (cc_column col'). r < nextInsertIndex s') \<and>
        0 \<le> cc_pivot col' \<and> pivotToColumnIndex s' (nat (cc_pivot col')) = Some k"
    if m: "matrix s' k = Some col'" for k col'
  proof (cases "k = ?n")
    case True
    then have "col' = col" using m assms(6) by simp
    then show ?thesis using assms(2,5,7,8,9,10) True by auto
  next
    case False
    then have k: "matrix s k = Some col'" using m assms(6) by simp
    note pc = pc_col[OF assms(1) k]
    have "nat (cc_pivot col') < ?n"
      using pc pc_keys[OF assms(1), of "nat (cc_pivot col')"] by simp
    then show ?thesis using pc assms(9,10) by auto
  qed
  show "\<exists>col'. matrix s' k = Some col' \<and> cc_pivot col' = int p"
    if d: "pivotToColumnIndex s' p = Some k" for p k
  proof (cases "p = ?n")
    case True
    then have "k = ?n" using d assms(9) by simp
    then show ?thesis using True assms(6,8) by simp
  next
    case False
    then have k: "pivotToColumnIndex s p = Some k" using d assms(9) by simp
    then obtain col' where c: "matrix s k = Some col'" "cc_pivot col' = int p"
      using pc_key[OF assms(1)] by blast
    have "k \<noteq> ?n" using c(1) pc_dom[OF assms(1), of k] by auto
    then show ?thesis using c assms(6) by simp
  qed
qed

lemma pc_fresh:
  assumes "pivots_consistent s"
  shows "matrix s (nextInsertIndex s) = None" "pivotToColumnIndex s (nextInsertIndex s) = None"
  using pc_dom[OF assms, of "nextInsertIndex s"] pc_keys[OF assms, of "nextInsertIndex s"]
  by simp_all

lemma pc_pairing:
  assumes "pivots_consistent s" and "matrix s c = Some col"
  shows "pivots_consistent (s\<lparr>matrix := (matrix s)(c \<mapsto> col\<lparr>cc_pairedColumn := v\<rparr>)\<rparr>)"
proof (rule pcI)
  let ?s = "s\<lparr>matrix := (matrix s)(c \<mapsto> col\<lparr>cc_pairedColumn := v\<rparr>)\<rparr>"
  show "(matrix ?s k \<noteq> None) = (k < nextInsertIndex ?s)" for k
    using pc_dom[OF assms(1), of k] pc_dom[OF assms(1), of c] assms(2) by simp
  show "(pivotToColumnIndex ?s p \<noteq> None) = (p < nextInsertIndex ?s)" for p
    using pc_keys[OF assms(1), of p] by simp
  show "sorted_wrt (<) (cc_column col') \<and> (\<forall>r\<in>set (cc_column col'). r < nextInsertIndex ?s) \<and>
        0 \<le> cc_pivot col' \<and> pivotToColumnIndex ?s (nat (cc_pivot col')) = Some k"
    if m: "matrix ?s k = Some col'" for k col'
  proof (cases "k = c")
    case True
    then have "col' = col\<lparr>cc_pairedColumn := v\<rparr>" using m by simp
    then show ?thesis using pc_col[OF assms] True by simp
  next
    case False
    then have "matrix s k = Some col'" using m by simp
    then show ?thesis using pc_col[OF assms(1)] by simp
  qed
  show "\<exists>col'. matrix ?s k = Some col' \<and> cc_pivot col' = int p"
    if d: "pivotToColumnIndex ?s p = Some k" for p k
  proof -
    from d have "pivotToColumnIndex s p = Some k" by simp
    then obtain col' where c: "matrix s k = Some col'" "cc_pivot col' = int p"
      using pc_key[OF assms(1)] by blast
    show ?thesis
    proof (cases "k = c")
      case True
      then show ?thesis using c assms(2) by simp
    next
      case False
      then show ?thesis using c by simp
    qed
  qed
qed

lemma pc_frame:
  assumes "pivots_consistent s" and "matrix s' = matrix s"
    and "pivotToColumnIndex s' = pivotToColumnIndex s" and "nextInsertIndex s' = nextInsertIndex s"
  shows "pivots_consistent s'"
  using assms unfolding pivots_consistent_def by simp

lemma pc_insert_chain:
  assumes "pivots_consistent s" and "sorted_wrt (<) c" and "c \<noteq> []"
    and "last c = nextInsertIndex s" and "\<forall>r\<in>set c. r \<le> nextInsertIndex s"
    and "insert_chain c dim s = Inr s'"
  shows "pivots_consistent s'"
proof (rule pc_new_column[OF assms(1-5)])
  note fr = pc_fresh[OF assms(1)]
  have s': "s' = s\<lparr>pivotToColumnIndex :=
                 map_emplace (pivotToColumnIndex s) (last c) (nextInsertIndex s),
               matrix :=
                 map_emplace (matrix s) (nextInsertIndex s) (chain_column_new c dim),
               barcode :=
                 barcode s @ [\<lparr>bar_dim = dim, birth = int (nextInsertIndex s), death = - 1\<rparr>],
               indexToBar :=
                 map_emplace (indexToBar s) (nextInsertIndex s) (length (barcode s)),
               nextInsertIndex := Suc (nextInsertIndex s)\<rparr>"
    using assms(3,6) by (simp add: insert_chain_def)
  show "matrix s' = (matrix s)(nextInsertIndex s \<mapsto> chain_column_new c dim)"
    using fr by (simp add: s' map_emplace_def)
  show "cc_column (chain_column_new c dim) = c"
    using assms(2) by (simp add: chain_column_new_def fold_set_insert_sorted)
  show "cc_pivot (chain_column_new c dim) = int (nextInsertIndex s)"
    using assms(3,4) by (simp add: chain_column_new_def)
  show "pivotToColumnIndex s' = (pivotToColumnIndex s)(nextInsertIndex s \<mapsto> nextInsertIndex s)"
    using fr assms(4) by (simp add: s' map_emplace_def)
  show "nextInsertIndex s' = Suc (nextInsertIndex s)" by (simp add: s')
qed

lemma pc_insert_chain_paired:
  assumes "pivots_consistent s" and "sorted_wrt (<) c" and "c \<noteq> []"
    and "last c = nextInsertIndex s" and "\<forall>r\<in>set c. r \<le> nextInsertIndex s"
    and "insert_chain_paired c dim pair s = Inr s'"
  shows "pivots_consistent s'"
proof -
  let ?n = "nextInsertIndex s"
  note fr = pc_fresh[OF assms(1)]
  let ?new = "chain_column_new c dim"
  let ?m1 = "(matrix s)(?n \<mapsto> ?new)"
  let ?m2 = "?m1(?n \<mapsto> assign_paired_chain ?new (int pair))"
  have m1: "map_emplace (matrix s) ?n ?new = ?m1" using fr by (simp add: map_emplace_def)
  have d1: "map_emplace (pivotToColumnIndex s) (last c) ?n = (pivotToColumnIndex s)(?n \<mapsto> ?n)"
    using fr assms(4) by (simp add: map_emplace_def)
  from assms(6) obtain pairCol pos where pc: "?m2 pair = Some pairCol"
    and s': "s' = s\<lparr>pivotToColumnIndex := (pivotToColumnIndex s)(?n \<mapsto> ?n),
                    matrix := ?m2(pair \<mapsto> assign_paired_chain pairCol (int ?n)),
                    barcode := (barcode s)[pos := (barcode s ! pos)\<lparr>death := int ?n\<rparr>],
                    indexToBar := map_emplace (indexToBar s) ?n pos,
                    nextInsertIndex := Suc ?n\<rparr>"
    using assms(3)
    by (auto simp: insert_chain_paired_def Let_def m1 d1 map_at_def
        split: option.splits sum.splits if_splits)
  let ?s1 = "s\<lparr>pivotToColumnIndex := (pivotToColumnIndex s)(?n \<mapsto> ?n),
               matrix := ?m2,
               barcode := (barcode s)[pos := (barcode s ! pos)\<lparr>death := int ?n\<rparr>],
               indexToBar := map_emplace (indexToBar s) ?n pos,
               nextInsertIndex := Suc ?n\<rparr>"
  have p1: "pivots_consistent ?s1"
  proof (rule pc_new_column[OF assms(1-5)])
    show "matrix ?s1 = (matrix s)(?n \<mapsto> assign_paired_chain ?new (int pair))" by simp
    show "cc_column (assign_paired_chain ?new (int pair)) = c"
      using assms(2) by (simp add: chain_column_new_def assign_paired_chain_def
          fold_set_insert_sorted)
    show "cc_pivot (assign_paired_chain ?new (int pair)) = int ?n"
      using assms(3,4) by (simp add: chain_column_new_def assign_paired_chain_def)
    show "pivotToColumnIndex ?s1 = (pivotToColumnIndex s)(?n \<mapsto> ?n)" by simp
    show "nextInsertIndex ?s1 = Suc ?n" by simp
  qed
  have m: "matrix ?s1 pair = Some pairCol" using pc by simp
  have "pivots_consistent (?s1\<lparr>matrix := (matrix ?s1)(pair \<mapsto> pairCol\<lparr>cc_pairedColumn := int ?n\<rparr>)\<rparr>)"
    using p1 m by (rule pc_pairing)
  moreover have "s' = ?s1\<lparr>matrix := (matrix ?s1)(pair \<mapsto> pairCol\<lparr>cc_pairedColumn := int ?n\<rparr>)\<rparr>"
    by (simp add: s' assign_paired_chain_def)
  ultimately show ?thesis by simp
qed

lemma pc_insert_reduced:
  assumes "pivots_consistent s" and "insert_reduced s dim ess r = Inr (s', ess')"
  shows "pivots_consistent s'"
proof (cases r)
  case (New_cycle H)
  from assms(2) obtain c where c: "build_from_H s [] H = Inr c" and i: "insert_chain c dim s = Inr s'"
    by (auto simp: insert_reduced_def New_cycle split: sum.splits)
  note b = pc_build_from_H[OF assms(1) c]
  show ?thesis using pc_insert_chain[OF assms(1) _ _ _ _ i] b by blast
next
  case (New_pair H F)
  from assms(2) obtain fp others s1 c where F: "F = fp # others"
    and u: "add_all_to others fp s = Inr s1"
    and c: "build_from_H s1 [] H = Inr c"
    and i: "insert_chain_paired c dim fp s1 = Inr s'"
    by (auto simp: insert_reduced_def New_pair update_largest_death_in_F_def
        split: sum.splits list.splits)
  note p1 = pc_add_all_to[OF assms(1) u]
  note b = pc_build_from_H[OF conjunct1[OF p1] c]
  show ?thesis using pc_insert_chain_paired[OF conjunct1[OF p1] _ _ _ _ i] b by blast
qed

lemma pc_insert_boundary_with:
  assumes "pivots_consistent s" and "insert_boundary_with boundary ess0 s = Some (Inr (s', ess))"
  shows "pivots_consistent s'"
proof -
  let ?s = "count_dimension boundary s"
  have p: "pivots_consistent ?s" using assms(1) by (rule pivots_consistent_count_dimension)
  show ?thesis
  proof (cases "boundary = []")
    case True
    then have i: "insert_chain [nextInsertIndex ?s] 0 ?s = Inr s'"
      using assms(2)
      by (auto simp: insert_boundary_with_def reduce_boundary_def split: sum.splits)
    show ?thesis by (rule pc_insert_chain[OF p _ _ _ _ i]) simp_all
  next
    case False
    then obtain r where
      i: "insert_reduced ?s (int (length boundary) - 1) ess0 r = Inr (s', ess)"
      using assms(2)
      by (auto simp: insert_boundary_with_def reduce_boundary_def
          split: option.splits sum.splits)
    show ?thesis using p i by (rule pc_insert_reduced)
  qed
qed

lemma reached_pivots_consistent: "reached s \<Longrightarrow> pivots_consistent s"
proof (induction rule: reached.induct)
  case reached_empty
  show ?case by (rule pivots_consistent_empty)
next
  case (reached_counted s boundary)
  then show ?case by (simp add: pivots_consistent_count_dimension)
next
  case (reached_insert s boundary ess0 s' ess)
  then show ?case using pc_insert_boundary_with by blast
next
  case (reached_addition s boundary ess0 chainsInH chain_fp others k s')
  have "pivots_consistent (count_dimension boundary s)"
    using reached_addition.IH by (rule pivots_consistent_count_dimension)
  then show ?case using pc_add_all_to reached_addition.hyps(4) by blast
qed

lemma reachable_reached: "reachable s \<Longrightarrow> reached s"
proof (induction rule: reachable.induct)
  case reachable_empty
  show ?case by (rule reached_empty)
next
  case (reachable_insert s boundary s')
  then obtain ess where "insert_boundary_with boundary [] s = Some (Inr (s', ess))"
    by (auto simp: insert_boundary_def split: option.splits sum.splits)
  then show ?case using reachable_insert.IH reached_insert by blast
next
  case (reachable_addition s boundary chainsInH chain_fp others k s')
  then show ?case using reached_addition by blast
qed

subsection \<open>The pivots in every state, with coefficients in another field\<close>

lemma cell_rows_simps [simp]:
  "cell_rows [] = {}" "cell_rows (a # c) = insert (fst a) (cell_rows c)"
  by (simp_all add: cell_rows_def)

lemma sorted_cells_simps [simp]:
  "sorted_cells []" "sorted_cells (a # c) = ((\<forall>r\<in>cell_rows c. fst a < r) \<and> sorted_cells c)"
  by (auto simp: sorted_cells_def cell_rows_def)

lemma cell_rows_insert: "cell_rows (cell_insert p c) = insert (fst p) (cell_rows c)"
  by (induction c) auto

lemma sorted_cell_insert: "sorted_cells c \<Longrightarrow> sorted_cells (cell_insert p c)"
  by (induction c) (auto simp: cell_rows_insert)

lemma cell_rows_erase: "sorted_cells c \<Longrightarrow> cell_rows (cell_erase r c) = cell_rows c - {r}"
  by (induction c) auto

lemma sorted_cell_erase: "sorted_cells c \<Longrightarrow> sorted_cells (cell_erase r c)"
  by (induction c) (auto simp: cell_rows_erase)

lemma cell_find_rows: "(cell_find r c \<noteq> None) = (r \<in> cell_rows c)"
  by (simp add: cell_find_def cell_rows_def map_of_eq_None_iff)

lemma cell_rows_map_snd:
  "cell_rows (map (\<lambda>cell. (fst cell, f cell)) c) = cell_rows c"
  by (induction c) auto

lemma sorted_cells_map_snd:
  "sorted_cells (map (\<lambda>cell. (fst cell, f cell)) c) = sorted_cells c"
  by (induction c) (auto simp: cell_rows_map_snd)

lemma cell_rows_update:
  "cell_rows (map (\<lambda>cell. if fst cell = r then (fst cell, v) else cell) c) = cell_rows c"
  by (induction c) auto

lemma sorted_cells_update:
  "sorted_cells (map (\<lambda>cell. if fst cell = r then (fst cell, v) else cell) c) = sorted_cells c"
  by (induction c) (auto simp: cell_rows_update)

lemma add_cell_to_column_rows:
  assumes "sorted_cells c"
  shows "sorted_cells (add_cell_to_column v c)"
    and "cell_rows (add_cell_to_column v c) \<subseteq> insert (fst v) (cell_rows c)"
    and "cell_rows c - {fst v} \<subseteq> cell_rows (add_cell_to_column v c)"
  using assms
  by (auto simp: add_cell_to_column_def sorted_cell_insert sorted_cell_erase cell_rows_insert
      cell_rows_erase cell_rows_update sorted_cells_update split: option.splits)

lemma add_cell_to_tmp_rows:
  assumes "sorted_cells c"
  shows "sorted_cells (add_cell_to_tmp k v c)"
    and "cell_rows (add_cell_to_tmp k v c) \<subseteq> insert (fst v) (cell_rows c)"
    and "cell_rows c - {fst v} \<subseteq> cell_rows (add_cell_to_tmp k v c)"
  using assms
  by (auto simp: add_cell_to_tmp_def Let_def sorted_cell_insert sorted_cell_erase cell_rows_insert
      cell_rows_erase split: option.splits)

lemma fold_add_cell_to_column_rows:
  assumes "sorted_cells c"
  shows "sorted_cells (fold add_cell_to_column b c) \<and>
         cell_rows (fold add_cell_to_column b c) \<subseteq> cell_rows b \<union> cell_rows c"
  using assms
proof (induction b arbitrary: c)
  case Nil
  then show ?case by simp
next
  case (Cons v b)
  have s: "sorted_cells (add_cell_to_column v c)"
    using Cons.prems by (rule add_cell_to_column_rows(1))
  have r: "cell_rows (add_cell_to_column v c) \<subseteq> insert (fst v) (cell_rows c)"
    using Cons.prems by (rule add_cell_to_column_rows(2))
  show ?case using Cons.IH[OF s] r by auto
qed

lemma fold_add_cell_to_tmp_rows:
  assumes "sorted_cells c"
  shows "sorted_cells (fold (add_cell_to_tmp k) b c) \<and>
         cell_rows (fold (add_cell_to_tmp k) b c) \<subseteq> cell_rows b \<union> cell_rows c \<and>
         cell_rows c - cell_rows b \<subseteq> cell_rows (fold (add_cell_to_tmp k) b c)"
  using assms
proof (induction b arbitrary: c)
  case Nil
  then show ?case by simp
next
  case (Cons v b)
  have s: "sorted_cells (add_cell_to_tmp k v c)"
    using Cons.prems by (rule add_cell_to_tmp_rows(1))
  have r: "cell_rows (add_cell_to_tmp k v c) \<subseteq> insert (fst v) (cell_rows c)"
    using Cons.prems by (rule add_cell_to_tmp_rows(2))
  have q: "cell_rows c - {fst v} \<subseteq> cell_rows (add_cell_to_tmp k v c)"
    using Cons.prems by (rule add_cell_to_tmp_rows(3))
  show ?case using Cons.IH[OF s] r q by auto
qed

lemma pcgI:
  assumes "\<And>c. (g_matrix s c \<noteq> None) = (c < g_nextInsertIndex s)"
    and "\<And>p. (g_pivotToColumnIndex s p \<noteq> None) = (p < g_nextInsertIndex s)"
    and "\<And>c col. g_matrix s c = Some col \<Longrightarrow>
        sorted_cells (gc_column col) \<and> (\<forall>r\<in>cell_rows (gc_column col). r < g_nextInsertIndex s) \<and>
        0 \<le> gc_pivot col \<and> g_pivotToColumnIndex s (nat (gc_pivot col)) = Some c"
    and "\<And>p c. g_pivotToColumnIndex s p = Some c \<Longrightarrow>
        \<exists>col. g_matrix s c = Some col \<and> gc_pivot col = int p"
  shows "pivots_consistent_gen s"
  unfolding pivots_consistent_gen_def using assms by blast

lemma pcg_dom:
  "pivots_consistent_gen s \<Longrightarrow> (g_matrix s c \<noteq> None) = (c < g_nextInsertIndex s)"
  by (simp add: pivots_consistent_gen_def)

lemma pcg_keys:
  "pivots_consistent_gen s \<Longrightarrow> (g_pivotToColumnIndex s p \<noteq> None) = (p < g_nextInsertIndex s)"
  by (simp add: pivots_consistent_gen_def)

lemma pcg_col:
  "pivots_consistent_gen s \<Longrightarrow> g_matrix s c = Some col \<Longrightarrow>
   sorted_cells (gc_column col) \<and> (\<forall>r\<in>cell_rows (gc_column col). r < g_nextInsertIndex s) \<and>
   0 \<le> gc_pivot col \<and> g_pivotToColumnIndex s (nat (gc_pivot col)) = Some c"
  unfolding pivots_consistent_gen_def by blast

lemma pcg_key:
  "pivots_consistent_gen s \<Longrightarrow> g_pivotToColumnIndex s p = Some c \<Longrightarrow>
   \<exists>col. g_matrix s c = Some col \<and> gc_pivot col = int p"
  unfolding pivots_consistent_gen_def by blast

lemma pivots_consistent_gen_empty: "pivots_consistent_gen empty_chain_matrix_gen"
  by (simp add: pivots_consistent_gen_def empty_chain_matrix_gen_def)

lemma count_dimension_gen_frame:
  "g_matrix (count_dimension_gen b s) = g_matrix s"
  "g_pivotToColumnIndex (count_dimension_gen b s) = g_pivotToColumnIndex s"
  "g_nextInsertIndex (count_dimension_gen b s) = g_nextInsertIndex s"
  "g_barcode (count_dimension_gen b s) = g_barcode s"
  "g_indexToBar (count_dimension_gen b s) = g_indexToBar s"
  by (simp_all add: count_dimension_gen_def Let_def)

lemma pivots_consistent_gen_count_dimension:
  "pivots_consistent_gen s \<Longrightarrow> pivots_consistent_gen (count_dimension_gen b s)"
  unfolding pivots_consistent_gen_def count_dimension_gen_frame by assumption

lemma pivots_consistent_gen_pivot_bijection:
  assumes "pivots_consistent_gen s"
  shows "pivot_bijection_gen s"
  unfolding pivot_bijection_gen_def
proof (intro conjI allI impI)
  fix c1 c2 col1 col2
  assume a: "g_matrix s c1 = Some col1 \<and> g_matrix s c2 = Some col2 \<and>
        \<not> is_empty_gen col1 \<and> \<not> is_empty_gen col2 \<and> gc_pivot col1 = gc_pivot col2"
  have "g_pivotToColumnIndex s (nat (gc_pivot col1)) = Some c1"
    "g_pivotToColumnIndex s (nat (gc_pivot col2)) = Some c2"
    using pcg_col[OF assms] a by blast+
  then show "c1 = c2" using a by simp
next
  fix c col
  assume a: "g_matrix s c = Some col \<and> \<not> is_empty_gen col"
  then have "0 \<le> gc_pivot col" "g_pivotToColumnIndex s (nat (gc_pivot col)) = Some c"
    using pcg_col[OF assms] by blast+
  then show "map_at_int (g_pivotToColumnIndex s) (gc_pivot col) = Inr c"
    by (simp add: map_at_int_def map_at_def)
next
  fix p c
  assume "g_pivotToColumnIndex s p = Some c"
  then show "\<exists>col. g_matrix s c = Some col \<and> gc_pivot col = int p"
    using pcg_key[OF assms] by simp
qed

text \<open>A column whose cells are replaced keeps the state consistent.\<close>

lemma pcg_update_cells:
  assumes "pivots_consistent_gen s" and "g_matrix s c = Some col"
    and "sorted_cells cells" and "\<forall>r\<in>cell_rows cells. r < g_nextInsertIndex s"
  shows "pivots_consistent_gen (s\<lparr>g_matrix := (g_matrix s)(c \<mapsto> col\<lparr>gc_column := cells\<rparr>)\<rparr>)"
proof (rule pcgI)
  let ?s = "s\<lparr>g_matrix := (g_matrix s)(c \<mapsto> col\<lparr>gc_column := cells\<rparr>)\<rparr>"
  show "(g_matrix ?s k \<noteq> None) = (k < g_nextInsertIndex ?s)" for k
    using pcg_dom[OF assms(1), of k] pcg_dom[OF assms(1), of c] assms(2) by simp
  show "(g_pivotToColumnIndex ?s p \<noteq> None) = (p < g_nextInsertIndex ?s)" for p
    using pcg_keys[OF assms(1), of p] by simp
  show "sorted_cells (gc_column col') \<and>
        (\<forall>r\<in>cell_rows (gc_column col'). r < g_nextInsertIndex ?s) \<and>
        0 \<le> gc_pivot col' \<and> g_pivotToColumnIndex ?s (nat (gc_pivot col')) = Some k"
    if m: "g_matrix ?s k = Some col'" for k col'
  proof (cases "k = c")
    case True
    then have "col' = col\<lparr>gc_column := cells\<rparr>" using m by simp
    then show ?thesis using pcg_col[OF assms(1,2)] assms(3,4) True by simp
  next
    case False
    then have "g_matrix s k = Some col'" using m by simp
    then show ?thesis using pcg_col[OF assms(1)] by simp
  qed
  show "\<exists>col'. g_matrix ?s k = Some col' \<and> gc_pivot col' = int p"
    if d: "g_pivotToColumnIndex ?s p = Some k" for p k
  proof -
    from d have "g_pivotToColumnIndex s p = Some k" by simp
    then obtain col' where c: "g_matrix s k = Some col'" "gc_pivot col' = int p"
      using pcg_key[OF assms(1)] by blast
    show ?thesis
    proof (cases "k = c")
      case True
      then show ?thesis using c assms(2) by simp
    next
      case False
      then show ?thesis using c by simp
    qed
  qed
qed

lemma pcg_scale_column:
  assumes "pivots_consistent_gen s" and "scale_column F c coef s = Inr s'"
  shows "pivots_consistent_gen s' \<and> g_nextInsertIndex s' = g_nextInsertIndex s"
proof -
  from assms(2) obtain col col' where col: "g_matrix s c = Some col"
    and t: "column_times_assign F col (ft_to_unsigned F coef) = Inr col'"
    and s': "s' = s\<lparr>g_matrix := (g_matrix s)(c \<mapsto> col')\<rparr>"
    by (auto simp: scale_column_def map_at_def split: option.splits sum.splits)
  note pc = pcg_col[OF assms(1) col]
  obtain cells where cells: "col' = col\<lparr>gc_column := cells\<rparr>" "sorted_cells cells"
    "cell_rows cells \<subseteq> cell_rows (gc_column col)"
    using t pc
    by (auto simp: column_times_assign_def Let_def cell_rows_map_snd sorted_cells_map_snd
        split: if_splits)
  have "pivots_consistent_gen (s\<lparr>g_matrix := (g_matrix s)(c \<mapsto> col\<lparr>gc_column := cells\<rparr>)\<rparr>)"
    using assms(1) col cells(2)
  proof (rule pcg_update_cells)
    show "\<forall>r\<in>cell_rows cells. r < g_nextInsertIndex s" using cells(3) pc by blast
  qed
  then show ?thesis using s' cells(1) by simp
qed

lemma pcg_add_to:
  assumes "pivots_consistent_gen s" and "add_to_gen src tgt s = Inr s'"
  shows "pivots_consistent_gen s' \<and> g_nextInsertIndex s' = g_nextInsertIndex s"
proof -
  let ?n = "g_nextInsertIndex s"
  from assms(2) obtain ct cs where ct: "g_matrix s tgt = Some ct" and cs: "g_matrix s src = Some cs"
    and ne: "src \<noteq> tgt"
    by (auto simp: add_to_gen_def map_at_def split: option.splits if_splits)
  let ?cells = "fold add_cell_to_column (gc_column cs) (gc_column ct)"
  let ?t = "ct\<lparr>gc_column := ?cells\<rparr>"
  have t: "column_plus_assign ct cs = ?t" by (simp add: column_plus_assign_def)
  note pt = pcg_col[OF assms(1) ct]
  note ps = pcg_col[OF assms(1) cs]
  have srt: "sorted_cells ?cells" using pt fold_add_cell_to_column_rows by blast
  have bnd: "\<forall>r\<in>cell_rows ?cells. r < ?n"
    using fold_add_cell_to_column_rows[of "gc_column ct" "gc_column cs"] pt ps by blast
  have pne: "nat (gc_pivot ct) \<noteq> nat (gc_pivot cs)"
    using pt ps ne by auto
  have p0: "pivots_consistent_gen (s\<lparr>g_matrix := (g_matrix s)(tgt \<mapsto> ?t)\<rparr>)"
    using assms(1) ct srt bnd by (rule pcg_update_cells)
  show ?thesis
  proof (cases "is_non_zero_gen ?t (gc_pivot ?t)")
    case True
    then have s': "s' = s\<lparr>g_matrix := (g_matrix s)(tgt \<mapsto> ?t)\<rparr>"
      using assms(2) ct cs ne by (simp add: add_to_gen_def map_at_def Let_def t)
    then show ?thesis using p0 by simp
  next
    case False
    have kt: "map_at_int (g_pivotToColumnIndex s) (gc_pivot ?t) = Inr tgt"
      using pt by (simp add: map_at_int_def map_at_def)
    have ks: "map_at_int (g_pivotToColumnIndex s) (gc_pivot cs) = Inr src"
      using ps by (simp add: map_at_int_def map_at_def)
    let ?m = "(g_matrix s)(tgt \<mapsto> ?t\<lparr>gc_pivot := gc_pivot cs\<rparr>, src \<mapsto> cs\<lparr>gc_pivot := gc_pivot ?t\<rparr>)"
    let ?d = "(g_pivotToColumnIndex s)(nat (gc_pivot ?t) \<mapsto> src, nat (gc_pivot cs) \<mapsto> tgt)"
    let ?s = "s\<lparr>g_matrix := ?m, g_pivotToColumnIndex := ?d\<rparr>"
    have s': "s' = ?s"
      using assms(2) ct cs ne False kt ks by (simp add: add_to_gen_def map_at_def Let_def t)
    have tn: "tgt < ?n" and sn: "src < ?n"
      using pcg_dom[OF assms(1), of tgt] pcg_dom[OF assms(1), of src] ct cs by simp_all
    have ptn: "nat (gc_pivot ct) < ?n" and psn: "nat (gc_pivot cs) < ?n"
      using pcg_keys[OF assms(1), of "nat (gc_pivot ct)"]
        pcg_keys[OF assms(1), of "nat (gc_pivot cs)"] pt ps by simp_all
    have "pivots_consistent_gen ?s"
    proof (rule pcgI)
      show "(g_matrix ?s c \<noteq> None) = (c < g_nextInsertIndex ?s)" for c
        using pcg_dom[OF assms(1), of c] tn sn by simp
      show "(g_pivotToColumnIndex ?s p \<noteq> None) = (p < g_nextInsertIndex ?s)" for p
        using pcg_keys[OF assms(1), of p] ptn psn by simp
      show "sorted_cells (gc_column col) \<and>
            (\<forall>r\<in>cell_rows (gc_column col). r < g_nextInsertIndex ?s) \<and>
            0 \<le> gc_pivot col \<and> g_pivotToColumnIndex ?s (nat (gc_pivot col)) = Some c"
        if m: "g_matrix ?s c = Some col" for c col
      proof -
        consider "c = src" | "c = tgt" "c \<noteq> src" | "c \<noteq> src" "c \<noteq> tgt" by blast
        then show ?thesis
        proof cases
          case 1
          then have "col = cs\<lparr>gc_pivot := gc_pivot ?t\<rparr>" using m by simp
          then show ?thesis using ps pt 1 pne by simp
        next
          case 2
          then have "col = ?t\<lparr>gc_pivot := gc_pivot cs\<rparr>" using m by simp
          then show ?thesis using srt bnd ps 2 by simp
        next
          case 3
          then have c: "g_matrix s c = Some col" using m by simp
          note pc = pcg_col[OF assms(1) c]
          have "nat (gc_pivot col) \<noteq> nat (gc_pivot ct)" "nat (gc_pivot col) \<noteq> nat (gc_pivot cs)"
            using pc pt ps 3 by auto
          then show ?thesis using pc by simp
        qed
      qed
      show "\<exists>col. g_matrix ?s c = Some col \<and> gc_pivot col = int p"
        if k: "g_pivotToColumnIndex ?s p = Some c" for p c
      proof -
        consider "p = nat (gc_pivot cs)" | "p = nat (gc_pivot ct)" "p \<noteq> nat (gc_pivot cs)"
          | "p \<noteq> nat (gc_pivot cs)" "p \<noteq> nat (gc_pivot ct)" by blast
        then show ?thesis
        proof cases
          case 1
          then have "c = tgt" using k by simp
          then show ?thesis using ne 1 ps by simp
        next
          case 2
          then have "c = src" using k by simp
          then show ?thesis using 2 pt by simp
        next
          case 3
          then have k0: "g_pivotToColumnIndex s p = Some c" using k by simp
          then obtain col where col: "g_matrix s c = Some col" "gc_pivot col = int p"
            using pcg_key[OF assms(1)] by blast
          have "c \<noteq> tgt" "c \<noteq> src" using col ct cs 3 by auto
          then show ?thesis using col by simp
        qed
      qed
    qed
    then show ?thesis using s' by simp
  qed
qed

lemma pcg_column_steps:
  assumes "pivots_consistent_gen s" and "apply_column_steps F steps s = Inr s'"
  shows "pivots_consistent_gen s' \<and> g_nextInsertIndex s' = g_nextInsertIndex s"
  using assms
proof (induction steps arbitrary: s)
  case Nil
  then show ?case by simp
next
  case (Cons st steps)
  from Cons.prems(2) obtain s1 where s1: "apply_column_step F st s = Inr s1"
    "apply_column_steps F steps s1 = Inr s'"
    by (auto split: sum.splits)
  have a: "pivots_consistent_gen s1 \<and> g_nextInsertIndex s1 = g_nextInsertIndex s"
  proof (cases st)
    case (Scale c coef)
    then show ?thesis using pcg_scale_column[OF Cons.prems(1)] s1(1) by simp
  next
    case (Add src tgt)
    then show ?thesis using pcg_add_to[OF Cons.prems(1)] s1(1) by simp
  qed
  show ?case using Cons.IH[OF _ s1(2)] a by simp
qed

lemma pcg_add_chains_in_H:
  assumes "pivots_consistent_gen s" and "sorted_cells column"
    and "g_nextInsertIndex s \<in> cell_rows column"
    and "\<forall>r\<in>cell_rows column. r \<le> g_nextInsertIndex s"
    and "add_chains_in_H_gen F s H column = Inr c"
  shows "sorted_cells c \<and> g_nextInsertIndex s \<in> cell_rows c \<and>
         (\<forall>r\<in>cell_rows c. r \<le> g_nextInsertIndex s)"
  using assms(2-)
proof (induction H arbitrary: column)
  case Nil
  then show ?case by simp
next
  case (Cons h H)
  from Cons.prems(4) obtain col where col: "g_matrix s (fst h) = Some col"
    and rest: "add_chains_in_H_gen F s H (add_to_tmp_gen col column (ft_to_unsigned F (snd h))) = Inr c"
    by (auto simp: map_at_def split: option.splits)
  note pc = pcg_col[OF assms(1) col]
  let ?c = "add_to_tmp_gen col column (ft_to_unsigned F (snd h))"
  note f = fold_add_cell_to_tmp_rows[OF Cons.prems(1), of "ft_to_unsigned F (snd h)" "gc_column col"]
  have 1: "sorted_cells ?c" using f by (simp add: add_to_tmp_gen_def)
  have "g_nextInsertIndex s \<notin> cell_rows (gc_column col)" using pc by auto
  then have 2: "g_nextInsertIndex s \<in> cell_rows ?c"
    using f Cons.prems(2) by (auto simp: add_to_tmp_gen_def)
  have 3: "\<forall>r\<in>cell_rows ?c. r \<le> g_nextInsertIndex s"
    using f Cons.prems(3) pc by (fastforce simp: add_to_tmp_gen_def)
  show ?case using Cons.IH[OF 1 2 3 rest] .
qed

lemma sorted_cells_last:
  assumes "sorted_cells c" and "n \<in> cell_rows c" and "\<forall>r\<in>cell_rows c. r \<le> n"
  shows "c \<noteq> [] \<and> fst (last c) = n"
proof -
  have ne: "c \<noteq> []" using assms(2) by auto
  then have m: "map fst c \<noteq> []" by simp
  have "last (map fst c) = n"
    using assms unfolding sorted_cells_def cell_rows_def
    by (intro strict_sorted_last_eq) auto
  then show ?thesis using ne by (simp add: last_map)
qed

lemma pcg_build_from_H:
  assumes "pivots_consistent_gen s" and "build_from_H_gen F s [] H = Inr c"
  shows "sorted_cells c \<and> c \<noteq> [] \<and> fst (last c) = g_nextInsertIndex s \<and>
         (\<forall>r\<in>cell_rows c. r \<le> g_nextInsertIndex s)"
proof -
  have "sorted_cells c \<and> g_nextInsertIndex s \<in> cell_rows c \<and>
        (\<forall>r\<in>cell_rows c. r \<le> g_nextInsertIndex s)"
    using pcg_add_chains_in_H[OF assms(1), of "cell_insert (g_nextInsertIndex s, 1) []" F H c]
      assms(2) by (simp add: build_from_H_gen_def)
  then show ?thesis using sorted_cells_last[of c "g_nextInsertIndex s"] by auto
qed

lemma fold_cell_insert_rows:
  "sorted_cells c \<Longrightarrow>
   sorted_cells (fold cell_insert b c) \<and> cell_rows (fold cell_insert b c) = cell_rows b \<union> cell_rows c"
proof (induction b arbitrary: c)
  case Nil
  then show ?case by simp
next
  case (Cons v b)
  have "sorted_cells (cell_insert v c)" using Cons.prems by (rule sorted_cell_insert)
  from Cons.IH[OF this] show ?case by (auto simp: cell_rows_insert)
qed

lemma pcg_new_column:
  assumes "pivots_consistent_gen s"
    and "sorted_cells (gc_column col)" and "\<forall>r\<in>cell_rows (gc_column col). r \<le> g_nextInsertIndex s"
    and "g_matrix s' = (g_matrix s)(g_nextInsertIndex s \<mapsto> col)"
    and "gc_pivot col = int (g_nextInsertIndex s)"
    and "g_pivotToColumnIndex s' =
           (g_pivotToColumnIndex s)(g_nextInsertIndex s \<mapsto> g_nextInsertIndex s)"
    and "g_nextInsertIndex s' = Suc (g_nextInsertIndex s)"
  shows "pivots_consistent_gen s'"
proof (rule pcgI)
  let ?n = "g_nextInsertIndex s"
  show "(g_matrix s' k \<noteq> None) = (k < g_nextInsertIndex s')" for k
    using pcg_dom[OF assms(1), of k] assms(4,7) by auto
  show "(g_pivotToColumnIndex s' p \<noteq> None) = (p < g_nextInsertIndex s')" for p
    using pcg_keys[OF assms(1), of p] assms(6,7) by auto
  show "sorted_cells (gc_column col') \<and>
        (\<forall>r\<in>cell_rows (gc_column col'). r < g_nextInsertIndex s') \<and>
        0 \<le> gc_pivot col' \<and> g_pivotToColumnIndex s' (nat (gc_pivot col')) = Some k"
    if m: "g_matrix s' k = Some col'" for k col'
  proof (cases "k = ?n")
    case True
    then have "col' = col" using m assms(4) by simp
    then show ?thesis using assms(2,3,5,6,7) True by auto
  next
    case False
    then have k: "g_matrix s k = Some col'" using m assms(4) by simp
    note pc = pcg_col[OF assms(1) k]
    have "nat (gc_pivot col') < ?n"
      using pc pcg_keys[OF assms(1), of "nat (gc_pivot col')"] by simp
    then show ?thesis using pc assms(6,7) by auto
  qed
  show "\<exists>col'. g_matrix s' k = Some col' \<and> gc_pivot col' = int p"
    if d: "g_pivotToColumnIndex s' p = Some k" for p k
  proof (cases "p = ?n")
    case True
    then have "k = ?n" using d assms(6) by simp
    then show ?thesis using True assms(4,5) by simp
  next
    case False
    then have k: "g_pivotToColumnIndex s p = Some k" using d assms(6) by simp
    then obtain col' where c: "g_matrix s k = Some col'" "gc_pivot col' = int p"
      using pcg_key[OF assms(1)] by blast
    have "k \<noteq> ?n" using c(1) pcg_dom[OF assms(1), of k] by auto
    then show ?thesis using c assms(4) by simp
  qed
qed

lemma pcg_fresh:
  assumes "pivots_consistent_gen s"
  shows "g_matrix s (g_nextInsertIndex s) = None"
    "g_pivotToColumnIndex s (g_nextInsertIndex s) = None"
  using pcg_dom[OF assms, of "g_nextInsertIndex s"] pcg_keys[OF assms, of "g_nextInsertIndex s"]
  by simp_all

lemma pcg_pairing:
  assumes "pivots_consistent_gen s" and "g_matrix s c = Some col"
  shows "pivots_consistent_gen (s\<lparr>g_matrix := (g_matrix s)(c \<mapsto> col\<lparr>gc_pairedColumn := v\<rparr>)\<rparr>)"
proof (rule pcgI)
  let ?s = "s\<lparr>g_matrix := (g_matrix s)(c \<mapsto> col\<lparr>gc_pairedColumn := v\<rparr>)\<rparr>"
  show "(g_matrix ?s k \<noteq> None) = (k < g_nextInsertIndex ?s)" for k
    using pcg_dom[OF assms(1), of k] pcg_dom[OF assms(1), of c] assms(2) by simp
  show "(g_pivotToColumnIndex ?s p \<noteq> None) = (p < g_nextInsertIndex ?s)" for p
    using pcg_keys[OF assms(1), of p] by simp
  show "sorted_cells (gc_column col') \<and>
        (\<forall>r\<in>cell_rows (gc_column col'). r < g_nextInsertIndex ?s) \<and>
        0 \<le> gc_pivot col' \<and> g_pivotToColumnIndex ?s (nat (gc_pivot col')) = Some k"
    if m: "g_matrix ?s k = Some col'" for k col'
  proof (cases "k = c")
    case True
    then have "col' = col\<lparr>gc_pairedColumn := v\<rparr>" using m by simp
    then show ?thesis using pcg_col[OF assms] True by simp
  next
    case False
    then have "g_matrix s k = Some col'" using m by simp
    then show ?thesis using pcg_col[OF assms(1)] by simp
  qed
  show "\<exists>col'. g_matrix ?s k = Some col' \<and> gc_pivot col' = int p"
    if d: "g_pivotToColumnIndex ?s p = Some k" for p k
  proof -
    from d have "g_pivotToColumnIndex s p = Some k" by simp
    then obtain col' where c: "g_matrix s k = Some col'" "gc_pivot col' = int p"
      using pcg_key[OF assms(1)] by blast
    show ?thesis
    proof (cases "k = c")
      case True
      then show ?thesis using c assms(2) by simp
    next
      case False
      then show ?thesis using c by simp
    qed
  qed
qed

lemma chain_column_new_gen_cells:
  assumes "c \<noteq> []" and "fst (last c) = n" and "\<forall>r\<in>cell_rows c. r \<le> n"
  shows "sorted_cells (gc_column (chain_column_new_gen c dim))"
    and "\<forall>r\<in>cell_rows (gc_column (chain_column_new_gen c dim)). r \<le> n"
    and "gc_pivot (chain_column_new_gen c dim) = int n"
  using assms fold_cell_insert_rows[of "[]" c]
  by (simp_all add: chain_column_new_gen_def)

lemma pcg_insert_chain:
  assumes "pivots_consistent_gen s" and "c \<noteq> []"
    and "fst (last c) = g_nextInsertIndex s" and "\<forall>r\<in>cell_rows c. r \<le> g_nextInsertIndex s"
    and "insert_chain_gen c dim s = Inr s'"
  shows "pivots_consistent_gen s'"
proof -
  note fr = pcg_fresh[OF assms(1)]
  note nc = chain_column_new_gen_cells[OF assms(2,3,4), of dim]
  have s': "s' = s\<lparr>g_pivotToColumnIndex :=
                 map_emplace (g_pivotToColumnIndex s) (fst (last c)) (g_nextInsertIndex s),
               g_matrix :=
                 map_emplace (g_matrix s) (g_nextInsertIndex s) (chain_column_new_gen c dim),
               g_barcode :=
                 g_barcode s @
                   [\<lparr>bar_dim = dim, birth = int (g_nextInsertIndex s), death = - 1\<rparr>],
               g_indexToBar :=
                 map_emplace (g_indexToBar s) (g_nextInsertIndex s) (length (g_barcode s)),
               g_nextInsertIndex := Suc (g_nextInsertIndex s)\<rparr>"
    using assms(2,5) by (simp add: insert_chain_gen_def)
  show ?thesis
  proof (rule pcg_new_column[OF assms(1) nc(1,2)])
    show "g_matrix s' = (g_matrix s)(g_nextInsertIndex s \<mapsto> chain_column_new_gen c dim)"
      using fr by (simp add: s' map_emplace_def)
    show "gc_pivot (chain_column_new_gen c dim) = int (g_nextInsertIndex s)" by (rule nc(3))
    show "g_pivotToColumnIndex s' =
            (g_pivotToColumnIndex s)(g_nextInsertIndex s \<mapsto> g_nextInsertIndex s)"
      using fr assms(3) by (simp add: s' map_emplace_def)
    show "g_nextInsertIndex s' = Suc (g_nextInsertIndex s)" by (simp add: s')
  qed
qed

lemma pcg_insert_chain_paired:
  assumes "pivots_consistent_gen s" and "c \<noteq> []"
    and "fst (last c) = g_nextInsertIndex s" and "\<forall>r\<in>cell_rows c. r \<le> g_nextInsertIndex s"
    and "insert_chain_paired_gen c dim pair s = Inr s'"
  shows "pivots_consistent_gen s'"
proof -
  let ?n = "g_nextInsertIndex s"
  note fr = pcg_fresh[OF assms(1)]
  note nc = chain_column_new_gen_cells[OF assms(2,3,4), of dim]
  let ?new = "chain_column_new_gen c dim"
  let ?m1 = "(g_matrix s)(?n \<mapsto> ?new)"
  let ?m2 = "?m1(?n \<mapsto> ?new\<lparr>gc_pairedColumn := int pair\<rparr>)"
  have m1: "map_emplace (g_matrix s) ?n ?new = ?m1" using fr by (simp add: map_emplace_def)
  have d1: "map_emplace (g_pivotToColumnIndex s) (fst (last c)) ?n =
      (g_pivotToColumnIndex s)(?n \<mapsto> ?n)"
    using fr assms(3) by (simp add: map_emplace_def)
  from assms(5) obtain pairCol pos where pc: "?m2 pair = Some pairCol"
    and s': "s' = s\<lparr>g_pivotToColumnIndex := (g_pivotToColumnIndex s)(?n \<mapsto> ?n),
                    g_matrix := ?m2(pair \<mapsto> pairCol\<lparr>gc_pairedColumn := int ?n\<rparr>),
                    g_barcode := (g_barcode s)[pos := (g_barcode s ! pos)\<lparr>death := int ?n\<rparr>],
                    g_indexToBar := map_emplace (g_indexToBar s) ?n pos,
                    g_nextInsertIndex := Suc ?n\<rparr>"
    using assms(2)
    by (auto simp: insert_chain_paired_gen_def Let_def m1 d1 map_at_def
        split: option.splits sum.splits if_splits)
  let ?s1 = "s\<lparr>g_pivotToColumnIndex := (g_pivotToColumnIndex s)(?n \<mapsto> ?n),
               g_matrix := ?m2,
               g_barcode := (g_barcode s)[pos := (g_barcode s ! pos)\<lparr>death := int ?n\<rparr>],
               g_indexToBar := map_emplace (g_indexToBar s) ?n pos,
               g_nextInsertIndex := Suc ?n\<rparr>"
  have p1: "pivots_consistent_gen ?s1"
  proof (rule pcg_new_column[OF assms(1)])
    show "sorted_cells (gc_column (?new\<lparr>gc_pairedColumn := int pair\<rparr>))" using nc(1) by simp
    show "\<forall>r\<in>cell_rows (gc_column (?new\<lparr>gc_pairedColumn := int pair\<rparr>)). r \<le> ?n"
      using nc(2) by simp
    show "g_matrix ?s1 = (g_matrix s)(?n \<mapsto> ?new\<lparr>gc_pairedColumn := int pair\<rparr>)" by simp
    show "gc_pivot (?new\<lparr>gc_pairedColumn := int pair\<rparr>) = int ?n" using nc(3) by simp
    show "g_pivotToColumnIndex ?s1 = (g_pivotToColumnIndex s)(?n \<mapsto> ?n)" by simp
    show "g_nextInsertIndex ?s1 = Suc ?n" by simp
  qed
  have m: "g_matrix ?s1 pair = Some pairCol" using pc by simp
  have "pivots_consistent_gen
      (?s1\<lparr>g_matrix := (g_matrix ?s1)(pair \<mapsto> pairCol\<lparr>gc_pairedColumn := int ?n\<rparr>)\<rparr>)"
    using p1 m by (rule pcg_pairing)
  moreover have "s' = ?s1\<lparr>g_matrix := (g_matrix ?s1)(pair \<mapsto> pairCol\<lparr>gc_pairedColumn := int ?n\<rparr>)\<rparr>"
    by (simp add: s')
  ultimately show ?thesis by simp
qed

lemma pcg_insert_reduced:
  assumes "pivots_consistent_gen s" and "insert_reduced_gen F s dim ess r = Inr (s', ess')"
  shows "pivots_consistent_gen s'"
proof (cases r)
  case (New_cycle_gen H)
  from assms(2) obtain c where c: "build_from_H_gen F s [] H = Inr c"
    and i: "insert_chain_gen c dim s = Inr s'"
    by (auto simp: insert_reduced_gen_def New_cycle_gen split: sum.splits)
  note b = pcg_build_from_H[OF assms(1) c]
  show ?thesis using pcg_insert_chain[OF assms(1) _ _ _ i] b by blast
next
  case (New_pair_gen H cF E)
  from assms(2) obtain fp others s1 c where F: "E = fp # others"
    and u: "apply_column_steps F (update_steps cF fp) s = Inr s1"
    and c: "build_from_H_gen F s1 [] H = Inr c"
    and i: "insert_chain_paired_gen c dim fp s1 = Inr s'"
    by (auto simp: insert_reduced_gen_def New_pair_gen update_largest_death_in_F_gen_def
        split: sum.splits list.splits if_splits)
  note p1 = pcg_column_steps[OF assms(1) u]
  note b = pcg_build_from_H[OF conjunct1[OF p1] c]
  show ?thesis using pcg_insert_chain_paired[OF conjunct1[OF p1] _ _ _ i] b by blast
qed

lemma pcg_insert_boundary_with:
  assumes "pivots_consistent_gen s"
    and "insert_boundary_with_gen F boundary ess0 s = Some (Inr (s', ess))"
  shows "pivots_consistent_gen s'"
proof -
  let ?s = "count_dimension_gen boundary s"
  have p: "pivots_consistent_gen ?s" using assms(1) by (rule pivots_consistent_gen_count_dimension)
  show ?thesis
  proof (cases "boundary = []")
    case True
    then have i: "insert_chain_gen [(g_nextInsertIndex ?s, 1)] 0 ?s = Inr s'"
      using assms(2)
      by (auto simp: insert_boundary_with_gen_def reduce_boundary_gen_def split: sum.splits)
    show ?thesis by (rule pcg_insert_chain[OF p _ _ _ i]) simp_all
  next
    case False
    then obtain r where
      i: "insert_reduced_gen F ?s (int (length boundary) - 1) ess0 r = Inr (s', ess)"
      using assms(2)
      by (auto simp: insert_boundary_with_gen_def reduce_boundary_gen_def
          split: option.splits sum.splits)
    show ?thesis using p i by (rule pcg_insert_reduced)
  qed
qed

lemma reached_gen_pivots_consistent: "reached_gen F s \<Longrightarrow> pivots_consistent_gen s"
proof (induction rule: reached_gen.induct)
  case reached_gen_empty
  show ?case by (rule pivots_consistent_gen_empty)
next
  case (reached_gen_counted s boundary)
  then show ?case by (simp add: pivots_consistent_gen_count_dimension)
next
  case (reached_gen_insert s boundary ess0 s' ess)
  then show ?case using pcg_insert_boundary_with by blast
next
  case (reached_gen_step s boundary ess0 chainsInH chainsInF chain_fp others k s')
  have "pivots_consistent_gen (count_dimension_gen boundary s)"
    using reached_gen_step.IH by (rule pivots_consistent_gen_count_dimension)
  then show ?case using pcg_column_steps reached_gen_step.hyps(4) by blast
qed

lemma Z3_of_nat: "(of_nat n :: Z3) = Z3_of n"
proof (induction n)
  case 0
  then show ?case by (simp add: zero_Z3_def Z3_of_def)
next
  case (Suc n)
  have "(of_nat (Suc n) :: Z3) = 1 + Z3_of n" using Suc by simp
  also have "\<dots> = Z3_of (Suc n)"
    by (simp add: plus_Z3_def one_Z3_def Z3_of_def mod_Suc) presburger
  finally show ?case .
qed

lemmas chain_gen_eval =
  insert_boundary_gen_def insert_boundary_with_gen_def
  reduce_boundary_gen_def count_dimension_gen_def reduce_column_gen_def insert_reduced_gen_def
  reduce_while_paired_gen.simps reduce_until_empty_gen.simps reduce_by_G_gen_def
  reduce_by_F_gen_def reduction_coefficient_def get_pivot_value_def unsigned_minus_def
  build_from_H_gen_def update_largest_death_in_F_gen_def update_steps_def scale_column_def
  column_times_assign_def column_plus_assign_def add_cell_to_column_def
  insert_chain_gen_def insert_chain_paired_gen_def
  add_to_gen_def add_to_tmp_gen_def add_cell_to_tmp_def cell_find_def
  map_at_def map_at_int_def map_emplace_def chain_column_new_gen_def
  is_paired_gen_def is_non_zero_gen_def index_of_int_def empty_chain_matrix_gen_def Let_def
  Z3_field_def Z3_of_nat Z3_of_def plus_Z3_def times_Z3_def inverse_Z3_def zero_Z3_def
  one_Z3_def result_def

lemma two_vertices_gen_fields:
  "g_nextInsertIndex two_vertices_gen = 2"
  "g_matrix two_vertices_gen 0 =
     Some \<lparr>gc_column = [(0, Z3_1)], gc_dim = 0, gc_pivot = 0, gc_pairedColumn = - 1\<rparr>"
  "g_matrix two_vertices_gen 1 =
     Some \<lparr>gc_column = [(1, Z3_1)], gc_dim = 0, gc_pivot = 1, gc_pairedColumn = - 1\<rparr>"
  by (simp_all add: two_vertices_gen_def chain_gen_eval)

lemma reached_gen_two_vertices: "reached_gen Z3_field two_vertices_gen"
proof -
  define s1 where
    "s1 = fst (result (insert_boundary_with_gen Z3_field [] [] empty_chain_matrix_gen))"
  have 1: "insert_boundary_with_gen Z3_field [] [] empty_chain_matrix_gen = Some (Inr (s1, []))"
    by (simp add: s1_def chain_gen_eval)
  have 2: "insert_boundary_with_gen Z3_field [] [] s1 = Some (Inr (two_vertices_gen, []))"
    by (simp add: s1_def two_vertices_gen_def chain_gen_eval)
  have "reached_gen Z3_field s1" using reached_gen_empty 1 by (rule reached_gen_insert)
  then show ?thesis using 2 by (rule reached_gen_insert)
qed

lemma edge_gen:
  "\<exists>t. insert_boundary_with_gen Z3_field [(0, Z3_2), (1, Z3_1)] [] two_vertices_gen =
          Some (Inr (t, [1, 0])) \<and>
       g_matrix t 0 = Some \<lparr>gc_column = [(0, Z3_1)], gc_dim = 0, gc_pivot = 0, gc_pairedColumn = - 1\<rparr> \<and>
       g_matrix t 1 =
         Some \<lparr>gc_column = [(0, Z3_2), (1, Z3_1)], gc_dim = 0, gc_pivot = 1, gc_pairedColumn = 2\<rparr> \<and>
       g_matrix t 2 = Some \<lparr>gc_column = [(2, Z3_1)], gc_dim = 1, gc_pivot = 2, gc_pairedColumn = 1\<rparr>"
  by (simp add: two_vertices_gen_def chain_gen_eval)

lemma three_vertices_built:
  "chain_matrix_of_boundaries [[], [], []] = Some (Inr three_vertices)"
  by (simp add: three_vertices_def result_def chain_eval)

lemma reached_three_vertices: "reached three_vertices"
  using reachable_insert_boundaries[OF reachable_empty]
    three_vertices_built[unfolded chain_matrix_of_boundaries_def] reachable_reached by blast

lemma edge_with_vector:
  "\<exists>s. insert_boundary_with [0, 1] [2] three_vertices = Some (Inr (s, [2, 1, 0])) \<and>
       matrix s 2 = Some \<lparr>cc_column = [0, 1, 2], cc_dim = 0, cc_pivot = 2, cc_pairedColumn = 3\<rparr> \<and>
       matrix s 3 = Some \<lparr>cc_column = [3], cc_dim = 1, cc_pivot = 3, cc_pairedColumn = 2\<rparr>"
  by (simp add: three_vertices_def result_def chain_eval)

text \<open>
  C1. In every state that a chain matrix goes through when boundaries are inserted,
  the pivots and \<open>pivotToColumnIndex_\<close> are in bijection: no two columns that are not
  empty report the same pivot, the pivot of a column is a key that leads back to the
  column, and every key is the pivot of the column it leads to. The states are those
  after a call of either \<open>insert_boundary\<close>, whatever vector the caller passes, the
  state at the start of the reduction, and the states between the column operations of
  \<open>_update_largest_death_in_F\<close>. This holds with Z2 coefficients and with
  coefficients in any other field.
\<close>

theorem pivot_bijection_invariant:
  "(reached s \<longrightarrow> pivot_bijection s) \<and> (reached_gen F t \<longrightarrow> pivot_bijection_gen t)"
  using reached_pivots_consistent pivots_consistent_pivot_bijection
    reached_gen_pivots_consistent pivots_consistent_gen_pivot_bijection by blast

theorem pivot_bijection_invariant_witness:
  "\<exists>s t. insert_boundary_with [0, 1] [2] three_vertices = Some (Inr (s, [2, 1, 0])) \<and>
     reached s \<and> pivot_bijection s \<and>
     insert_boundary_with_gen Z3_field [(0, Z3_2), (1, Z3_1)] [] two_vertices_gen =
       Some (Inr (t, [1, 0])) \<and>
     reached_gen Z3_field t \<and> pivot_bijection_gen t \<and>
     map_option gc_pivot (g_matrix t 1) = Some 1 \<and>
     map_at_int (g_pivotToColumnIndex t) 1 = Inr 1"
proof -
  obtain s where s: "insert_boundary_with [0, 1] [2] three_vertices = Some (Inr (s, [2, 1, 0]))"
    using edge_with_vector by blast
  obtain t where t:
    "insert_boundary_with_gen Z3_field [(0, Z3_2), (1, Z3_1)] [] two_vertices_gen =
       Some (Inr (t, [1, 0]))"
    "g_matrix t 1 =
       Some \<lparr>gc_column = [(0, Z3_2), (1, Z3_1)], gc_dim = 0, gc_pivot = 1, gc_pairedColumn = 2\<rparr>"
    using edge_gen by blast
  have rs: "reached s" using reached_three_vertices s by (rule reached_insert)
  have rt: "reached_gen Z3_field t" using reached_gen_two_vertices t(1) by (rule reached_gen_insert)
  note b = pivot_bijection_invariant[of s Z3_field t]
  have bs: "pivot_bijection s" using b rs by blast
  have bt: "pivot_bijection_gen t" using b rt by blast
  let ?col = "\<lparr>gc_column = [(0, Z3_2), (1, Z3_1)], gc_dim = 0, gc_pivot = 1, gc_pairedColumn = 2\<rparr>"
  have ne: "\<not> is_empty_gen ?col" by (simp add: is_empty_gen_def)
  have "map_at_int (g_pivotToColumnIndex t) (gc_pivot ?col) = Inr 1"
    using bt t(2) ne unfolding pivot_bijection_gen_def by blast
  then have "map_at_int (g_pivotToColumnIndex t) 1 = Inr 1" by simp
  then show ?thesis using s t rs rt bs bt by auto
qed

text \<open>
  C5 (as the code has it). Inserting the boundaries \<open>{}\<close>, \<open>{}\<close>, \<open>{0,1}\<close> gives
  exactly two bars: the essential bar of dimension 0 born at 0 and the finite bar of
  dimension 0 born at 1 that dies at 2.
\<close>

theorem two_points_barcode:
  "succeeded (chain_matrix_of_boundaries [[], [], [0, 1]]) \<and>
   barcode (result (chain_matrix_of_boundaries [[], [], [0, 1]])) =
     [\<lparr>bar_dim = 0, birth = 0, death = - 1\<rparr>, \<lparr>bar_dim = 0, birth = 1, death = 2\<rparr>]"
  by (simp add: succeeded_def result_def chain_eval)

text \<open>
  The barcode of the claim, a finite bar born at 0 that dies at 2 next to the
  essential bar, is not the barcode of the code: no bar \<open>(0, 0, 2)\<close> is produced.
\<close>

theorem two_points_barcode_counterexample:
  "succeeded (chain_matrix_of_boundaries [[], [], [0, 1]]) \<and>
   \<lparr>bar_dim = 0, birth = 0, death = 2\<rparr>
     \<notin> set (barcode (result (chain_matrix_of_boundaries [[], [], [0, 1]]))) \<and>
   set (barcode (result (chain_matrix_of_boundaries [[], [], [0, 1]]))) \<noteq>
     {\<lparr>bar_dim = 0, birth = 0, death = 2\<rparr>, \<lparr>bar_dim = 0, birth = 0, death = - 1\<rparr>}"
  by (simp add: succeeded_def result_def chain_eval doubleton_eq_iff)

subsection \<open>What an insertion does\<close>


















section \<open>Representative cycles\<close>

lemma collect_cycles_append:
  "collect_cycles u s (xs @ ys) c b =
     (case collect_cycles u s xs c b of
        Inl e \<Rightarrow> Inl e
      | Inr r \<Rightarrow> collect_cycles u s ys (fst r) (snd r))"
  by (induction xs arbitrary: c b) (simp_all add: Let_def split: sum.splits)

lemma collect_cycles_single:
  assumes "pivot_owner s i \<noteq> None"
  shows "collect_cycles u s [i] c b =
           Inr (if cycle_selected s i then (c @ [cycle_of u s i], b[i := int (length c)])
                else (c, b))"
proof -
  obtain k col where "pivotToColumnIndex s i = Some k" "matrix s k = Some col"
    using assms by (auto simp: pivot_owner_def split: option.splits)
  then show ?thesis
    by (simp add: get_column_with_pivot_def get_column_def map_at_def cycle_selected_def
        cycle_of_def pivot_owner_def Let_def)
qed

lemma collect_cycles_upto:
  assumes "\<forall>i<k. pivot_owner s i \<noteq> None" and "k \<le> N"
  shows "\<exists>b. collect_cycles u s [0..<k] [] (replicate N (- 1)) =
               Inr (map (cycle_of u s) (filter (cycle_selected s) [0..<k]), b) \<and>
             length b = N \<and>
             (\<forall>i<N. b ! i = (if i < k \<and> cycle_selected s i
                             then int (length (filter (cycle_selected s) [0..<i])) else - 1))"
  using assms
proof (induction k)
  case 0
  then show ?case by simp
next
  case (Suc k)
  obtain b where b: "collect_cycles u s [0..<k] [] (replicate N (- 1)) =
               Inr (map (cycle_of u s) (filter (cycle_selected s) [0..<k]), b)"
    "length b = N"
    "\<forall>i<N. b ! i = (if i < k \<and> cycle_selected s i
                             then int (length (filter (cycle_selected s) [0..<i])) else - 1)"
    using Suc by auto
  have own: "pivot_owner s k \<noteq> None" using Suc.prems(1) by simp
  have kN: "k < N" using Suc.prems(2) by simp
  let ?cs = "map (cycle_of u s) (filter (cycle_selected s) [0..<k])"
  show ?case
  proof (cases "cycle_selected s k")
    case True
    let ?b = "b[k := int (length ?cs)]"
    have "collect_cycles u s [0..<Suc k] [] (replicate N (- 1)) =
        Inr (map (cycle_of u s) (filter (cycle_selected s) [0..<Suc k]), ?b)"
      using b(1) True collect_cycles_single[OF own]
      by (simp add: collect_cycles_append)
    moreover have "length ?b = N" using b(2) by simp
    moreover have "\<forall>i<N. ?b ! i = (if i < Suc k \<and> cycle_selected s i
                             then int (length (filter (cycle_selected s) [0..<i])) else - 1)"
      using b(2,3) True kN by (auto simp: nth_list_update less_Suc_eq)
    ultimately show ?thesis by blast
  next
    case False
    have "collect_cycles u s [0..<Suc k] [] (replicate N (- 1)) =
        Inr (map (cycle_of u s) (filter (cycle_selected s) [0..<Suc k]), b)"
      using b(1) False collect_cycles_single[OF own]
      by (simp add: collect_cycles_append)
    moreover have "\<forall>i<N. b ! i = (if i < Suc k \<and> cycle_selected s i
                             then int (length (filter (cycle_selected s) [0..<i])) else - 1)"
      using b(3) False by (auto simp: less_Suc_eq)
    ultimately show ?thesis using b(2) by blast
  qed
qed

lemma cycle_of_sorted: "pivot_owner s i \<noteq> None \<Longrightarrow> sorted (cycle_of True s i)"
  by (auto simp: cycle_of_def)

lemma reachable_pivot_owner:
  assumes "reachable s" and "i < nextInsertIndex s"
  shows "pivot_owner s i \<noteq> None"
proof -
  have wf: "well_formed s" using assms(1) by (rule reachable_well_formed)
  then have "pivotToColumnIndex s i = Some i" using assms(2) by (simp add: well_formed_def)
  moreover have "matrix s i \<noteq> None" using wf assms(2) by (simp add: well_formed_def)
  ultimately show ?thesis by (simp add: pivot_owner_def)
qed

lemma two_points_fields:
  "nextInsertIndex two_points = 3"
  "pivot_owner two_points 0 = Some \<lparr>cc_column = [0], cc_dim = 0, cc_pivot = 0, cc_pairedColumn = - 1\<rparr>"
  "pivot_owner two_points (Suc 0) = Some \<lparr>cc_column = [0, 1], cc_dim = 0, cc_pivot = 1, cc_pairedColumn = 2\<rparr>"
  "pivot_owner two_points 2 = Some \<lparr>cc_column = [2], cc_dim = 1, cc_pivot = 2, cc_pairedColumn = 1\<rparr>"
  by (simp_all add: two_points_def result_def pivot_owner_def chain_eval)

lemma two_points_cycles:
  "update_representative_cycles False two_points =
     Inr (two_points\<lparr>representativeCycles := [[0], [0, 1]], birthToCycle := [0, 1, - 1]\<rparr>)"
  by (simp add: two_points_def result_def chain_eval update_representative_cycles_def
      get_number_of_columns_def get_column_with_pivot_def get_column_def map_at_def upt_rec
      is_paired_def get_paired_chain_index_def)

text \<open>
  C9 (as the code has it). When every index below the number of columns is the pivot
  of a column, as in every state reached by insertions,
  \<open>update_representative_cycles\<close> returns, and its cycles are, in the order of the
  pivots, the rows of each column that is unpaired or whose pivot index is below the
  index of its paired column, that is of each column that is not the later end of a
  pair: one cycle for each such column and none for the others, with
  \<open>birthToCycle_\<close> giving the position of the cycle of each selected pivot and
  \<open>-1\<close> for the others. For a column type that does not keep its rows in order,
  every cycle is sorted.
\<close>

theorem representative_cycles_selection:
  assumes "\<forall>i<nextInsertIndex s. pivot_owner s i \<noteq> None"
  shows "\<exists>s'. update_representative_cycles unordered s = Inr s' \<and>
           representativeCycles s' =
             map (cycle_of unordered s) (filter (cycle_selected s) [0..<nextInsertIndex s]) \<and>
           (unordered \<longrightarrow> (\<forall>c\<in>set (representativeCycles s'). sorted c)) \<and>
           length (birthToCycle s') = nextInsertIndex s \<and>
           (\<forall>i<nextInsertIndex s.
              birthToCycle s' ! i =
                (if cycle_selected s i
                 then int (length (filter (cycle_selected s) [0..<i])) else - 1))"
proof -
  let ?n = "nextInsertIndex s"
  obtain b where b: "collect_cycles unordered s [0..<?n] [] (replicate ?n (- 1)) =
               Inr (map (cycle_of unordered s) (filter (cycle_selected s) [0..<?n]), b)"
    "length b = ?n"
    "\<forall>i<?n. b ! i = (if i < ?n \<and> cycle_selected s i
                             then int (length (filter (cycle_selected s) [0..<i])) else - 1)"
    using collect_cycles_upto[OF assms, of ?n unordered] by auto
  have srt: "unordered \<longrightarrow>
      (\<forall>c\<in>set (map (cycle_of unordered s) (filter (cycle_selected s) [0..<?n])). sorted c)"
    using assms cycle_of_sorted by auto
  show ?thesis
    using b srt by (simp add: update_representative_cycles_def get_number_of_columns_def)
qed

theorem representative_cycles_selection_witness:
  "list_all (\<lambda>i. pivot_owner two_points i \<noteq> None) [0, 1, 2] \<and>
   nextInsertIndex two_points = 3 \<and>
   (\<exists>s'. update_representative_cycles False two_points = Inr s' \<and>
      representativeCycles s' = [[0], [0, 1]] \<and> birthToCycle s' = [0, 1, - 1])"
proof -
  have h: "\<forall>i<nextInsertIndex two_points. pivot_owner two_points i \<noteq> None"
  proof (intro allI impI)
    fix i assume "i < nextInsertIndex two_points"
    then have "i = 0 \<or> i = 1 \<or> i = 2" by (simp add: two_points_fields) arith
    then show "pivot_owner two_points i \<noteq> None"
      by (elim disjE) (simp_all add: two_points_fields)
  qed
  have sel: "cycle_selected two_points 0" "cycle_selected two_points 1"
    "\<not> cycle_selected two_points 2"
    by (simp_all add: cycle_selected_def two_points_fields is_paired_def
        get_paired_chain_index_def)
  have upt: "[0..<3] = [0, 1, 2]" by (simp add: upt_rec)
  from representative_cycles_selection[OF h, of False] obtain s' where s':
    "update_representative_cycles False two_points = Inr s'"
    "representativeCycles s' = [[0], [0, 1]]"
    "length (birthToCycle s') = 3"
    "\<forall>i<3. birthToCycle s' ! i =
        (if cycle_selected two_points i
         then int (length (filter (cycle_selected two_points) [0..<i])) else - 1)"
    using sel by (auto simp: two_points_fields upt cycle_of_def)
  have "birthToCycle s' ! 0 = 0" "birthToCycle s' ! 1 = 1" "birthToCycle s' ! 2 = - 1"
    using s'(4) sel by (simp_all add: upt_rec)
  then have "birthToCycle s' = [0, 1, - 1]"
    using s'(3) by (auto simp: list_eq_iff_nth_eq less_Suc_eq numeral_3_eq_3 numeral_2_eq_2)
  then show ?thesis using s'(1,2) by (simp add: two_points_fields)
qed

text \<open>
  The claim leaves out the earlier end of a pair. In the two-point complex the columns
  1 and 2 are paired: the column 1, the earlier end, has the cycle \<open>{0, 1}\<close>, and the
  column 2, the later end, has none.
\<close>

theorem representative_cycles_earlier_end:
  "map_option get_paired_chain_index (pivot_owner two_points 1) = Some 2 \<and>
   map_option get_paired_chain_index (pivot_owner two_points 2) = Some 1 \<and>
   map_sum id representativeCycles (update_representative_cycles False two_points) =
     Inr [[0], [0, 1]] \<and>
   map_sum id birthToCycle (update_representative_cycles False two_points) =
     Inr [0, 1, - 1]"
  by (simp add: two_points_cycles two_points_fields get_paired_chain_index_def)

section \<open>Partial inverses in the multi-field\<close>

subsection \<open>Primes, as the trial division finds them\<close>

lemma gmp_prime_divisors:
  assumes "gmp_prime p" and "d dvd p"
  shows "d = 1 \<or> d = p"
proof (rule ccontr)
  assume n: "\<not> (d = 1 \<or> d = p)"
  have p: "2 \<le> p" "\<forall>k\<in>set [2..<p]. p mod k \<noteq> 0"
    using assms(1) by (simp_all add: gmp_prime_def list_all_iff)
  have "d \<le> p" using assms(2) p(1) by (simp add: dvd_imp_le)
  moreover have "d \<noteq> 0"
  proof
    assume "d = 0"
    then have "p = 0" using assms(2) by simp
    then show False using p(1) by simp
  qed
  ultimately have "d \<in> set [2..<p]" using n by auto
  then have "p mod d \<noteq> 0" using p(2) by blast
  then show False using assms(2) by (simp add: dvd_eq_mod_eq_0)
qed

lemma gmp_prime_ge_2: "gmp_prime p \<Longrightarrow> 2 \<le> p"
  by (simp add: gmp_prime_def)

lemma gmp_prime_coprime_nat:
  assumes "gmp_prime p" and "\<not> p dvd k"
  shows "coprime p k"
proof -
  have "gcd p k dvd p" by simp
  then have "gcd p k = 1 \<or> gcd p k = p" using assms(1) gmp_prime_divisors by blast
  moreover have "gcd p k \<noteq> p" using assms(2) by (metis gcd_dvd2)
  ultimately show ?thesis by (simp add: coprime_iff_gcd_eq_1)
qed

lemma gmp_prime_coprime:
  assumes "gmp_prime p" and "\<not> int p dvd a"
  shows "coprime (int p) a"
proof -
  have "\<not> p dvd nat \<bar>a\<bar>" using assms(2) by (simp add: int_dvd_int_iff[symmetric])
  then have "coprime p (nat \<bar>a\<bar>)" using assms(1) by (rule gmp_prime_coprime_nat[rotated])
  then have "coprime (int p) (int (nat \<bar>a\<bar>))" by (simp only: coprime_int_iff)
  then show ?thesis by simp
qed

lemma gmp_prime_dvd_mult:
  assumes "gmp_prime p" and "int p dvd a * b"
  shows "int p dvd a \<or> int p dvd b"
proof (cases "int p dvd a")
  case True
  then show ?thesis by simp
next
  case False
  then have "coprime (int p) a" using assms(1) by (rule gmp_prime_coprime[rotated])
  then show ?thesis using assms(2) by (simp add: coprime_dvd_mult_right_iff)
qed

lemma gmp_prime_not_unit: "gmp_prime p \<Longrightarrow> \<not> is_unit (int p)"
  using gmp_prime_ge_2 by fastforce

lemma gmp_prime_dvd_prime:
  assumes "gmp_prime p" and "gmp_prime q" and "int p dvd int q"
  shows "p = q"
proof -
  have "p dvd q" using assms(3) by simp
  then have "p = 1 \<or> p = q" using assms(2) gmp_prime_divisors by blast
  then show ?thesis using gmp_prime_ge_2[OF assms(1)] by auto
qed

lemma gmp_prime_dvd_prod_list:
  assumes "gmp_prime p" and "\<forall>q\<in>set ps. gmp_prime q"
    and "int p dvd prod_list (map int ps)"
  shows "p \<in> set ps"
  using assms(2,3)
proof (induction ps)
  case Nil
  then show ?case using gmp_prime_not_unit[OF assms(1)] by simp
next
  case (Cons q ps)
  have "int p dvd int q * prod_list (map int ps)" using Cons.prems(2) by simp
  then have "int p dvd int q \<or> int p dvd prod_list (map int ps)"
    by (rule gmp_prime_dvd_mult[OF assms(1)])
  then show ?case
  proof
    assume "int p dvd int q"
    then have "p = q" using assms(1) Cons.prems(1) gmp_prime_dvd_prime by simp
    then show ?thesis by simp
  next
    assume "int p dvd prod_list (map int ps)"
    then show ?thesis using Cons by simp
  qed
qed

lemma dvd_prod_list_member: "p \<in> set ps \<Longrightarrow> int p dvd prod_list (map int ps)"
  by (induction ps) auto

lemma prod_list_primes_pos: "\<forall>q\<in>set ps. gmp_prime q \<Longrightarrow> 0 < prod_list (map int ps)"
proof (induction ps)
  case Nil
  then show ?case by simp
next
  case (Cons q ps)
  have "0 < int q" using Cons.prems gmp_prime_ge_2[of q] by simp
  then show ?case using Cons by simp
qed

lemma prod_list_primes_squarefree:
  assumes "\<forall>q\<in>set ps. gmp_prime q" and "distinct ps"
    and "d * d dvd prod_list (map int ps)"
  shows "is_unit d"
  using assms
proof (induction ps)
  case Nil
  then have "is_unit (d * d)" by simp
  then show ?case unfolding is_unit_mult_iff by simp
next
  case (Cons p ps)
  let ?m = "prod_list (map int ps)"
  have pr: "gmp_prime p" and prs: "\<forall>q\<in>set ps. gmp_prime q" and np: "p \<notin> set ps"
    and dps: "distinct ps"
    using Cons.prems by simp_all
  have dd: "d * d dvd int p * ?m" using Cons.prems(3) by simp
  have npm: "\<not> int p dvd ?m" using gmp_prime_dvd_prod_list[OF pr prs] np by blast
  show ?case
  proof (cases "int p dvd d")
    case True
    then obtain k where k: "d = int p * k" by (auto simp: dvd_def)
    have "int p * (int p * (k * k)) dvd int p * ?m" using dd by (simp add: k mult_ac)
    moreover have "int p \<noteq> 0" using gmp_prime_ge_2[OF pr] by simp
    ultimately have "int p * (k * k) dvd ?m" by simp
    then have "int p dvd ?m" using dvd_mult_left by blast
    then show ?thesis using npm by simp
  next
    case False
    then have "coprime (int p) d" using pr by (rule gmp_prime_coprime[rotated])
    then have "coprime (d * d) (int p)" by (simp add: coprime_commute)
    then have "d * d dvd ?m" using dd by (simp add: coprime_dvd_mult_right_iff)
    then show ?thesis using Cons.IH prs dps by simp
  qed
qed

lemma squarefree_coprime_quotient:
  assumes sq: "\<And>d. d * d dvd (M::int) \<Longrightarrow> is_unit d" and "Q dvd M"
  shows "coprime x (Q div gcd x Q)"
proof (rule coprimeI)
  fix c assume cx: "c dvd x" and ct: "c dvd Q div gcd x Q"
  have Q: "Q = gcd x Q * (Q div gcd x Q)" by simp
  have "c dvd Q" using ct Q by (metis dvd_mult)
  then have "c dvd gcd x Q" using cx by simp
  then have "c * c dvd gcd x Q * (Q div gcd x Q)" using ct by (rule mult_dvd_mono)
  then have "c * c dvd Q" using Q by simp
  then have "c * c dvd M" using assms(2) by (rule dvd_trans)
  then show "is_unit c" by (rule sq)
qed

lemma prime_dvd_quotient_iff:
  assumes sq: "\<And>d. d * d dvd (M::int) \<Longrightarrow> is_unit d" and "Q dvd M" and "gmp_prime p"
  shows "int p dvd Q div gcd x Q \<longleftrightarrow> int p dvd Q \<and> \<not> int p dvd x"
proof
  assume pt: "int p dvd Q div gcd x Q"
  have Q: "Q = gcd x Q * (Q div gcd x Q)" by simp
  have "int p dvd Q" using pt Q by (metis dvd_mult)
  moreover have "\<not> int p dvd x"
  proof
    assume "int p dvd x"
    then have "is_unit (int p)"
      using squarefree_coprime_quotient[OF sq assms(2), of x] pt
      by (meson coprime_common_divisor)
    then show False using gmp_prime_not_unit[OF assms(3)] by simp
  qed
  ultimately show "int p dvd Q \<and> \<not> int p dvd x" by simp
next
  assume a: "int p dvd Q \<and> \<not> int p dvd x"
  have Q: "Q = gcd x Q * (Q div gcd x Q)" by simp
  have "int p dvd gcd x Q * (Q div gcd x Q)" using a Q by simp
  then have "int p dvd gcd x Q \<or> int p dvd Q div gcd x Q"
    using gmp_prime_dvd_mult[OF assms(3)] by blast
  moreover have "\<not> int p dvd gcd x Q" using a by (meson dvd_trans gcd_dvd1)
  ultimately show "int p dvd Q div gcd x Q" by blast
qed

lemma divisor_of_prod_list_primes:
  assumes "\<forall>q\<in>set ps. gmp_prime q" and "distinct ps"
    and "0 < t" and "t dvd prod_list (map int ps)"
  shows "t = prod_list (map int (filter (\<lambda>p. int p dvd t) ps))"
  using assms
proof (induction ps arbitrary: t)
  case Nil
  then show ?case by (simp add: zdvd1_eq)
next
  case (Cons p ps)
  let ?m = "prod_list (map int ps)"
  have pr: "gmp_prime p" and prs: "\<forall>q\<in>set ps. gmp_prime q" and np: "p \<notin> set ps"
    and dps: "distinct ps"
    using Cons.prems by simp_all
  have tm: "t dvd int p * ?m" using Cons.prems(4) by simp
  have npm: "\<not> int p dvd ?m" using gmp_prime_dvd_prod_list[OF pr prs] np by blast
  have p0: "0 < int p" using gmp_prime_ge_2[OF pr] by simp
  show ?case
  proof (cases "int p dvd t")
    case True
    then obtain k where k: "t = int p * k" by (auto simp: dvd_def)
    have k0: "0 < k" using Cons.prems(3) p0 k by (simp add: zero_less_mult_iff)
    have km: "k dvd ?m" using tm p0 by (simp add: k)
    have same: "filter (\<lambda>q. int q dvd t) ps = filter (\<lambda>q. int q dvd k) ps"
    proof (rule filter_cong[OF refl])
      fix q assume q: "q \<in> set ps"
      then have gq: "gmp_prime q" using prs by simp
      have "q \<noteq> p" using q np by auto
      then have "\<not> int q dvd int p" using gmp_prime_dvd_prime[OF gq pr] by auto
      then show "(int q dvd t) = (int q dvd k)"
        using gmp_prime_dvd_mult[OF gq, of "int p" k] by (auto simp: k)
    qed
    have "k = prod_list (map int (filter (\<lambda>q. int q dvd k) ps))"
      using Cons.IH[OF prs dps k0 km] .
    then show ?thesis using True same k by simp
  next
    case False
    then have "coprime (int p) t" using pr by (rule gmp_prime_coprime[rotated])
    then have "coprime t (int p)" by (simp add: coprime_commute)
    then have "t dvd ?m" using tm by (simp add: coprime_dvd_mult_right_iff)
    then have "t = prod_list (map int (filter (\<lambda>q. int q dvd t) ps))"
      using Cons.IH[OF prs dps Cons.prems(3)] by simp
    then show ?thesis using False by simp
  qed
qed

subsection \<open>The power \<open>a ^ (p - 1)\<close> modulo a prime \<open>p\<close>\<close>

lemma gmp_prime_dvd_choose:
  assumes "gmp_prime p" and "0 < k" and "k < p"
  shows "p dvd (p choose k)"
proof -
  obtain n where n: "p = Suc n" using assms(3) by (cases p) auto
  obtain j where j: "k = Suc j" using assms(2) by (cases k) auto
  have "k * (p choose k) = p * (n choose j)"
    unfolding n j by (rule Suc_times_binomial)
  then have "p dvd k * (p choose k)" by (simp only: dvd_triv_left)
  moreover have "\<not> p dvd k" using assms(2,3) by (auto dest: dvd_imp_le)
  then have "coprime p k" using assms(1) by (rule gmp_prime_coprime_nat[rotated])
  ultimately show ?thesis by (simp add: coprime_dvd_mult_right_iff)
qed

lemma gmp_prime_power_Suc:
  assumes "gmp_prime p"
  shows "(Suc a) ^ p mod p = (a ^ p + 1) mod p"
proof -
  obtain n where n: "p = Suc n" using gmp_prime_ge_2[OF assms] by (cases p) auto
  let ?f = "\<lambda>k. (p choose k) * a ^ k"
  have "(a + 1) ^ p = (\<Sum>k\<le>p. of_nat (p choose k) * a ^ k * 1 ^ (p - k))"
    by (rule binomial_ring)
  then have "(Suc a) ^ p = (\<Sum>k\<le>Suc n. ?f k)" by (simp add: n)
  also have "\<dots> = ?f (Suc n) + (\<Sum>k\<le>n. ?f k)" by simp
  also have "(\<Sum>k\<le>n. ?f k) = ?f 0 + (\<Sum>k<n. ?f (Suc k))" by (rule sum.atMost_shift)
  finally have eq: "(Suc a) ^ p = a ^ p + 1 + (\<Sum>k<n. ?f (Suc k))" by (simp add: n)
  have "p dvd (\<Sum>k<n. ?f (Suc k))"
  proof (rule dvd_sum)
    fix k assume "k \<in> {..<n}"
    then have "p dvd (p choose Suc k)" using gmp_prime_dvd_choose[OF assms, of "Suc k"] n by simp
    then show "p dvd ?f (Suc k)" by simp
  qed
  then obtain c where "(\<Sum>k<n. ?f (Suc k)) = p * c" by (auto simp: dvd_def)
  then show ?thesis using eq by simp
qed

lemma gmp_prime_power_nat:
  assumes "gmp_prime p"
  shows "a ^ p mod p = a mod p"
proof (induction a)
  case 0
  have "0 < p" using gmp_prime_ge_2[OF assms] by simp
  then show ?case by (simp add: zero_power)
next
  case (Suc a)
  have "(Suc a) ^ p mod p = (a ^ p + 1) mod p" by (rule gmp_prime_power_Suc[OF assms])
  also have "\<dots> = (a ^ p mod p + 1) mod p" by (simp add: mod_simps)
  also have "\<dots> = (a mod p + 1) mod p" using Suc by simp
  also have "\<dots> = Suc a mod p" by (simp add: mod_simps)
  finally show ?case .
qed

lemma gmp_prime_fermat:
  assumes "gmp_prime p" and "\<not> int p dvd a"
  shows "a ^ (p - 1) mod int p = 1"
proof -
  have p2: "2 \<le> p" by (rule gmp_prime_ge_2[OF assms(1)])
  define b where "b = nat (a mod int p)"
  have b: "int b = a mod int p" using p2 by (simp add: b_def)
  have "int (b ^ p mod p) = int (b mod p)" using gmp_prime_power_nat[OF assms(1)] by simp
  then have "(a mod int p) ^ p mod int p = (a mod int p) mod int p"
    by (simp add: b[symmetric] of_nat_mod)
  then have "a ^ p mod int p = a mod int p" by (simp add: power_mod)
  then have "int p dvd a ^ p - a" by (simp add: mod_eq_dvd_iff)
  moreover have "a ^ p - a = a * (a ^ (p - 1) - 1)"
  proof -
    have "a ^ p = a * a ^ (p - 1)" using p2 by (cases p) simp_all
    then show ?thesis by (simp add: algebra_simps)
  qed
  ultimately have "int p dvd a * (a ^ (p - 1) - 1)" by simp
  then have "int p dvd a ^ (p - 1) - 1"
    using gmp_prime_dvd_mult[OF assms(1)] assms(2) by blast
  then have "a ^ (p - 1) mod int p = 1 mod int p" by (simp add: mod_eq_dvd_iff)
  then show ?thesis using p2 by simp
qed

subsection \<open>The partial products of \<open>initialize\<close>\<close>

lemma fold_times_prod_list:
  "fold (\<lambda>p acc. acc * int p) ps a = a * prod_list (map int ps)"
  by (induction ps arbitrary: a) (simp_all add: mult_ac)

lemma initialize_partials_map:
  "M \<noteq> 0 \<Longrightarrow>
   initialize_partials M ps = Inr (map (\<lambda>p. (M div int p) ^ (p - 1) mod \<bar>M\<bar>) ps)"
  by (induction ps) (simp_all add: mpz_powm_ui_def mpz_mod_def)

lemma initialize_fields:
  assumes "initialize minimum maximum = Inr mf"
  shows "\<forall>p\<in>set (primes mf). gmp_prime p"
    and "distinct (primes mf)"
    and "productOfAllCharacteristics mf = prod_list (map int (primes mf))"
    and "0 < productOfAllCharacteristics mf"
    and "partials mf =
           map (\<lambda>p. (productOfAllCharacteristics mf div int p) ^ (p - 1)
                     mod productOfAllCharacteristics mf) (primes mf)"
proof -
  define ps where "ps = filter gmp_prime [minimum..<Suc maximum]"
  define M where "M = prod_list (map int ps)"
  have pr: "\<forall>p\<in>set ps. gmp_prime p" by (simp add: ps_def)
  have M0: "0 < M" unfolding M_def by (rule prod_list_primes_pos[OF pr])
  have fM: "fold (\<lambda>p acc. acc * int p) ps 1 = M"
    by (simp add: fold_times_prod_list M_def)
  have parts: "initialize_partials M ps = Inr (map (\<lambda>p. (M div int p) ^ (p - 1) mod M) ps)"
    using initialize_partials_map[of M ps] M0 by simp
  have mf: "mf = \<lparr>primes = ps, productOfAllCharacteristics = M,
                  partials = map (\<lambda>p. (M div int p) ^ (p - 1) mod M) ps\<rparr>"
    using assms unfolding initialize_def ps_def[symmetric] Let_def fM parts
    by (simp split: if_splits)
  show "\<forall>p\<in>set (primes mf). gmp_prime p" using pr by (simp add: mf)
  show "distinct (primes mf)" by (simp add: mf ps_def)
  show "productOfAllCharacteristics mf = prod_list (map int (primes mf))"
    by (simp add: mf M_def)
  show "0 < productOfAllCharacteristics mf" using M0 by (simp add: mf)
  show "partials mf =
           map (\<lambda>p. (productOfAllCharacteristics mf div int p) ^ (p - 1)
                     mod productOfAllCharacteristics mf) (primes mf)"
    by (simp add: mf)
qed

lemma partial_mod_prime:
  assumes pr: "\<forall>p\<in>set ps. gmp_prime p" and ds: "distinct ps"
    and M: "M = prod_list (map int ps)" and p: "p \<in> set ps" and q: "q \<in> set ps"
  shows "((M div int p) ^ (p - 1) mod M) mod int q = (if p = q then 1 else 0)"
proof -
  have gp: "gmp_prime p" and gq: "gmp_prime q" using pr p q by simp_all
  have pM: "int p dvd M" and qM: "int q dvd M"
    using p q by (simp_all add: M dvd_prod_list_member)
  have Mp: "M = int p * (M div int p)" using pM by simp
  have red: "((M div int p) ^ (p - 1) mod M) mod int q = (M div int p) ^ (p - 1) mod int q"
    using qM by (rule mod_mod_cancel)
  show ?thesis
  proof (cases "p = q")
    case True
    have "\<not> int p dvd M div int p"
    proof
      assume "int p dvd M div int p"
      then have "int p * int p dvd int p * (M div int p)" by (rule mult_dvd_mono[OF dvd_refl])
      then have "int p * int p dvd M" using Mp by simp
      then have "is_unit (int p)"
        using prod_list_primes_squarefree[OF pr ds] M by blast
      then show False using gmp_prime_not_unit[OF gp] by simp
    qed
    then have "(M div int p) ^ (p - 1) mod int p = 1" by (rule gmp_prime_fermat[OF gp])
    then show ?thesis using red True by simp
  next
    case False
    have "int q dvd int p * (M div int p)" using qM Mp by simp
    then have "int q dvd int p \<or> int q dvd M div int p" by (rule gmp_prime_dvd_mult[OF gq])
    moreover have "\<not> int q dvd int p" using gmp_prime_dvd_prime[OF gq gp] False by auto
    ultimately have d: "int q dvd M div int p" by simp
    have "0 < p - 1" using gmp_prime_ge_2[OF gp] by simp
    then have "int q dvd (M div int p) ^ (p - 1)" using d by (simp add: dvd_power_same dvd_trans)
    then show ?thesis using red False by simp
  qed
qed

lemma add_partials_sum:
  assumes "0 < productOfAllCharacteristics mf"
    and "0 \<le> mf_element mult" and "mf_element mult < productOfAllCharacteristics mf"
  shows "add_partials mf Q pps mult =
           Inr \<lparr>mf_element =
                 (mf_element mult +
                  sum_list (map snd (filter (\<lambda>pp. Q mod int (fst pp) = 0) pps)))
                 mod productOfAllCharacteristics mf\<rparr>"
  using assms(2,3)
proof (induction pps arbitrary: mult)
  case Nil
  then show ?case by simp
next
  case (Cons pp pps)
  let ?M = "productOfAllCharacteristics mf"
  show ?case
  proof (cases "Q mod int (fst pp) = 0")
    case True
    let ?m = "mult\<lparr>mf_element := (mf_element mult + snd pp) mod ?M\<rparr>"
    have step: "mf_plus_assign_mpz mf mult (snd pp) = Inr ?m"
      using assms(1) by (simp add: mf_plus_assign_mpz_def mpz_mod_def)
    have "0 \<le> mf_element ?m" "mf_element ?m < ?M" using assms(1) by simp_all
    then have "add_partials mf Q pps ?m =
           Inr \<lparr>mf_element =
                 (mf_element ?m +
                  sum_list (map snd (filter (\<lambda>pp. Q mod int (fst pp) = 0) pps))) mod ?M\<rparr>"
      by (rule Cons.IH)
    then show ?thesis using True step by (simp add: mod_simps add.assoc)
  next
    case False
    then show ?thesis using Cons by simp
  qed
qed

lemma sum_list_indicator_mod:
  assumes "distinct xs" and "1 < q"
    and "\<forall>p\<in>set xs. f p mod q = (if p = q0 then 1 else (0::int))"
  shows "sum_list (map f xs) mod q = (if q0 \<in> set xs then 1 else 0)"
  using assms(1,3)
proof (induction xs)
  case Nil
  then show ?case by simp
next
  case (Cons a xs)
  have IH: "sum_list (map f xs) mod q = (if q0 \<in> set xs then 1 else 0)"
    using Cons by simp
  have fa: "f a mod q = (if a = q0 then 1 else 0)" using Cons.prems(2) by simp
  have "sum_list (map f (a # xs)) mod q = (f a mod q + sum_list (map f xs) mod q) mod q"
    by (simp add: mod_simps)
  also have "\<dots> = (if q0 \<in> set (a # xs) then 1 else 0)"
    using IH fa Cons.prems(1) assms(2) by auto
  finally show ?case .
qed

lemma partial_identity_mod_prime:
  assumes "initialize minimum maximum = Inr mf" and "Q \<noteq> 0"
  shows "\<exists>e. get_partial_multiplicative_identity mf Q = Inr e \<and>
             (\<forall>q\<in>set (primes mf).
                mf_element e mod int q = (if int q dvd Q then 1 else 0))"
proof -
  let ?M = "productOfAllCharacteristics mf"
  let ?ps = "primes mf"
  let ?f = "\<lambda>p. (?M div int p) ^ (p - 1) mod ?M"
  note f = initialize_fields[OF assms(1)]
  let ?S = "sum_list (map snd (filter (\<lambda>pp. Q mod int (fst pp) = 0) (zip ?ps (partials mf))))"
  have zp: "zip ?ps (partials mf) = map (\<lambda>p. (p, ?f p)) ?ps"
    by (subst f(5)) (simp add: zip_map2 zip_same_conv_map)
  have S: "?S = sum_list (map ?f (filter (\<lambda>p. Q mod int p = 0) ?ps))"
    unfolding zp by (simp add: filter_map comp_def)
  have e: "get_partial_multiplicative_identity mf Q = Inr \<lparr>mf_element = ?S mod ?M\<rparr>"
    using assms(2) add_partials_sum[of mf mf_default Q "zip ?ps (partials mf)"] f(4)
    by (simp add: get_partial_multiplicative_identity_def mf_default_def)
  have "?S mod ?M mod int q = (if int q dvd Q then 1 else 0)" if q: "q \<in> set ?ps" for q
  proof -
    have qM: "int q dvd ?M" using q by (simp add: f(3) dvd_prod_list_member)
    have q1: "1 < int q" using f(1) q gmp_prime_ge_2[of q] by auto
    have "?S mod ?M mod int q = ?S mod int q" using qM by (rule mod_mod_cancel)
    also have "\<dots> = (if q \<in> set (filter (\<lambda>p. Q mod int p = 0) ?ps) then 1 else 0)"
      unfolding S
    proof (rule sum_list_indicator_mod)
      show "distinct (filter (\<lambda>p. Q mod int p = 0) ?ps)" using f(2) by simp
      show "1 < int q" by (rule q1)
      show "\<forall>p\<in>set (filter (\<lambda>p. Q mod int p = 0) ?ps).
              ?f p mod int q = (if p = q then 1 else 0)"
        using partial_mod_prime[OF f(1) f(2) f(3) _ q] by simp
    qed
    also have "\<dots> = (if int q dvd Q then 1 else 0)"
      using q by (simp add: dvd_eq_mod_eq_0)
    finally show ?thesis .
  qed
  then show ?thesis using e by simp
qed

subsection \<open>The shape of a partial inverse\<close>

lemma mult_mod_prime_factor:
  assumes "(c::int) dvd M"
  shows "(u mod M * v) mod c = (u mod c * v) mod c"
proof -
  have "(u mod M * v) mod c = ((u mod M) mod c * v) mod c" by (simp add: mod_simps)
  also have "(u mod M) mod c = u mod c" using assms by (rule mod_mod_cancel)
  finally show ?thesis .
qed

text \<open>
  C8 (as the code has it). After \<open>initialize\<close>, for every element \<open>x\<close> and every
  sub-product \<open>Q\<close> of the characteristics: when no prime of \<open>Q\<close> is invertible for
  \<open>x\<close>, which is the case \<open>gcd(x, Q) = Q\<close>, \<open>get_partial_inverse\<close> returns the
  zero element with \<open>multiplicativeID_\<close>, that is 1, the empty product; otherwise it
  returns the partial inverse of \<open>x\<close>, an inverse modulo each invertible prime of
  \<open>Q\<close> and zero modulo the other primes, with the product of the invertible primes.
\<close>

theorem partial_inverse_shape:
  assumes init: "initialize minimum maximum = Inr mf" and sp: "sub_product mf Q"
  shows "if invertible_primes mf x Q = []
         then mpz_gcd (mf_element x) Q = Q \<and>
              get_partial_inverse mf x Q = Inr (mf_default, multiplicativeID)
         else mpz_gcd (mf_element x) Q \<noteq> Q \<and>
              (\<exists>r. get_partial_inverse mf x Q =
                      Inr (r, prod_list (map int (invertible_primes mf x Q))) \<and>
                    partial_inverse_of mf x Q r)"
proof -
  let ?M = "productOfAllCharacteristics mf"
  let ?ps = "primes mf"
  let ?I = "invertible_primes mf x Q"
  define a where "a = mf_element x"
  define g where "g = gcd a Q"
  define t where "t = Q div g"
  note f = initialize_fields[OF init]
  have Q0: "0 < Q" and QM: "Q dvd ?M" using sp by (simp_all add: sub_product_def)
  have sq: "is_unit d" if "d * d dvd ?M" for d
    using prod_list_primes_squarefree[OF f(1) f(2)] that f(3) by simp
  have g0: "0 < g" using Q0 by (simp add: g_def)
  have Qgt: "Q = g * t" by (simp add: g_def t_def)
  have t0: "0 < t" using Q0 g0 Qgt by (simp add: zero_less_mult_iff)
  have tM: "t dvd ?M" using QM Qgt by (metis dvd_mult_right)
  have cop: "coprime a t" unfolding t_def g_def by (rule squarefree_coprime_quotient[OF sq QM])
  have tp: "int p dvd t \<longleftrightarrow> int p dvd Q \<and> \<not> int p dvd a" if "p \<in> set ?ps" for p
    unfolding t_def g_def
    using prime_dvd_quotient_iff[OF sq QM, of p a] that f(1) by blast
  have I: "filter (\<lambda>p. int p dvd t) ?ps = ?I"
    unfolding invertible_primes_def a_def[symmetric]
    by (rule filter_cong[OF refl]) (rule tp)
  have tI: "t = prod_list (map int ?I)"
    using divisor_of_prod_list_primes[OF f(1) f(2) t0] tM f(3) I by simp
  show ?thesis
  proof (cases "?I = []")
    case True
    then have "t = 1" using tI by simp
    then have "g = Q" using Qgt by simp
    then have "mpz_gcd (mf_element x) Q = Q" by (simp add: mpz_gcd_def g_def a_def)
    then show ?thesis using True by (simp add: get_partial_inverse_def)
  next
    case False
    then obtain p where p: "p \<in> set ?I" by (cases ?I) auto
    then have "p \<in> set (filter (\<lambda>p. int p dvd t) ?ps)" by (simp only: I)
    then have pps: "p \<in> set ?ps" and pt: "int p dvd t" by simp_all
    have p2: "2 \<le> p" using f(1) pps gmp_prime_ge_2 by simp
    have "int p \<le> t" using pt t0 by (rule zdvd_imp_le)
    then have t1: "1 < t" using p2 by linarith
    have gQ: "g \<noteq> Q" using Qgt t1 g0 by auto
    obtain y where y: "mpz_invert a t = Inr y" "(a * y) mod t = 1 mod t"
      using mpz_invert_coprime[OF t0 cop] by blast
    have ay: "(a * y) mod t = 1" using y(2) t1 by simp
    obtain e where e: "get_partial_multiplicative_identity mf t = Inr e"
      "\<forall>q\<in>set ?ps. mf_element e mod int q = (if int q dvd t then 1 else 0)"
      using partial_identity_mod_prime[OF init, of t] t0 by auto
    define r where "r = e\<lparr>mf_element := (mf_element e * y) mod ?M\<rparr>"
    have times: "mf_times_assign_mpz mf e y = Inr r"
      using f(4) by (simp add: mf_times_assign_mpz_def mpz_mod_def r_def)
    have res: "get_partial_inverse mf x Q = Inr (r, t)"
      using gQ y(1) e(1) times
      by (simp add: get_partial_inverse_def mpz_gcd_def Let_def a_def[symmetric]
          g_def[symmetric] t_def[symmetric])
    have rng: "0 \<le> mf_element r" "mf_element r < ?M" using f(4) by (simp_all add: r_def)
    have each: "if q \<in> set ?I then (mf_element r * mf_element x) mod int q = 1
                else mf_element r mod int q = 0" if q: "q \<in> set ?ps" for q
    proof -
      have qM: "int q dvd ?M" using q by (simp add: f(3) dvd_prod_list_member)
      have q2: "1 < int q" using f(1) q gmp_prime_ge_2[of q] by auto
      have eq: "mf_element e mod int q = (if int q dvd t then 1 else 0)" using e(2) q by simp
      have "q \<in> set (filter (\<lambda>p. int p dvd t) ?ps) \<longleftrightarrow> int q dvd t" using q by simp
      then have mem: "q \<in> set ?I \<longleftrightarrow> int q dvd t" by (simp only: I)
      show ?thesis
      proof (cases "int q dvd t")
        case True
        have "(mf_element r * a) mod int q = ((mf_element e * y) mod ?M * a) mod int q"
          by (simp add: r_def)
        also have "\<dots> = ((mf_element e * y) mod int q * a) mod int q"
          using qM by (rule mult_mod_prime_factor)
        also have "(mf_element e * y) mod int q = (mf_element e mod int q * y) mod int q"
          by (simp add: mod_simps)
        also have "\<dots> = y mod int q" using eq True by simp
        also have "(y mod int q * a) mod int q = (a * y) mod int q"
          by (simp add: mod_simps mult.commute)
        also have "\<dots> = ((a * y) mod t) mod int q" using True by (simp add: mod_mod_cancel)
        also have "\<dots> = 1" using ay q2 by simp
        finally show ?thesis using True mem by (simp add: a_def)
      next
        case False
        have "mf_element r mod int q = ((mf_element e * y) mod ?M) mod int q"
          by (simp add: r_def)
        also have "\<dots> = (mf_element e * y) mod int q" using qM by (rule mod_mod_cancel)
        also have "\<dots> = (mf_element e mod int q * y) mod int q" by (simp add: mod_simps)
        also have "\<dots> = 0" using eq False by simp
        finally show ?thesis using False mem by simp
      qed
    qed
    then have "partial_inverse_of mf x Q r"
      using rng by (simp add: partial_inverse_of_def list_all_iff)
    then show ?thesis using False res gQ tI
      by (auto simp: mpz_gcd_def g_def a_def)
  qed
qed

theorem partial_inverse_shape_witness:
  "\<exists>mf. initialize 2 7 = Inr mf \<and> sub_product mf 210 \<and>
     invertible_primes mf \<lparr>mf_element = 10\<rparr> 210 = [3, 7] \<and>
     mpz_gcd 10 210 \<noteq> 210 \<and>
     (\<exists>r. get_partial_inverse mf \<lparr>mf_element = 10\<rparr> 210 = Inr (r, 21) \<and>
          partial_inverse_of mf \<lparr>mf_element = 10\<rparr> 210 r)"
proof -
  let ?mf = "\<lparr>primes = [2, 3, 5, 7], productOfAllCharacteristics = 210,
          partials = [105, 70, 126, 120 :: int]\<rparr>"
  let ?x = "\<lparr>mf_element = 10\<rparr>"
  have a: "initialize 2 7 = Inr ?mf" by (rule initialize_2_7)
  have b: "sub_product ?mf 210" by (simp add: sub_product_def)
  have c: "invertible_primes ?mf ?x 210 = [3, 7]" by (simp add: invertible_primes_def)
  from partial_inverse_shape[OF a b, of ?x] a b c show ?thesis by simp
qed

text \<open>
  The claim gives the full product as the weight of the zero element. After
  \<open>initialize(2, 7)\<close> the product is 210, and the weight returned with the zero
  element is 1, for the element 0 with the full product and for the element 6 with the
  sub-product 6.
\<close>

theorem partial_inverse_zero_weight:
  "\<exists>mf. initialize 2 7 = Inr mf \<and> productOfAllCharacteristics mf = 210 \<and>
     get_partial_inverse mf \<lparr>mf_element = 0\<rparr> 210 = Inr (\<lparr>mf_element = 0\<rparr>, 1) \<and>
     get_partial_inverse mf \<lparr>mf_element = 6\<rparr> 6 = Inr (\<lparr>mf_element = 0\<rparr>, 1)"
  by (simp add: initialize_2_7 get_partial_inverse_def mpz_gcd_def mf_default_def
      multiplicativeID_def)

end
